(* ===== verification/Prelude.thy ===== *)
theory Prelude
  imports Main "HOL-Library.Word"
begin

section \<open>Shared types, panics and list facts\<close>

text \<open>
  Machine integers, Rust panics as values, atomic read-modify-write operations and the
  counting lemmas that every component uses.

  Unsigned Rust integers are words of their width, so that arithmetic wraps as it does in
  the release profile; a division by zero, a failed assertion, an out-of-range index and
  every explicit panic are values of \<open>panic\<close>.
\<close>

unbundle bit_operations_syntax

type_synonym u8 = "8 word"
type_synonym u32 = "32 word"
type_synonym u64 = "64 word"
type_synonym usize = "64 word"

subsection \<open>Panics\<close>

datatype panic =
    DivideByZero
  | AssertFailed
  | IndexOutOfBounds
  | Overflow
  | Unreachable
  | Unwrap
  | Todo
  | Explicit string

type_synonym 'a outcome = "panic + 'a"

abbreviation Ok :: "'a \<Rightarrow> 'a outcome" where
  "Ok \<equiv> Inr"

abbreviation Panic :: "panic \<Rightarrow> 'a outcome" where
  "Panic \<equiv> Inl"

definition bind_outcome :: "'a outcome \<Rightarrow> ('a \<Rightarrow> 'b outcome) \<Rightarrow> 'b outcome" where
  "bind_outcome m f = (case m of Inl p \<Rightarrow> Inl p | Inr x \<Rightarrow> f x)"

lemma bind_outcome_simps [simp]:
  "bind_outcome (Ok x) f = f x"
  "bind_outcome (Panic p) f = Panic p"
  by (simp_all add: bind_outcome_def)

lemma bind_outcome_Ok_iff:
  "bind_outcome m f = Ok y \<longleftrightarrow> (\<exists>x. m = Ok x \<and> f x = Ok y)"
  by (cases m) auto

lemma bind_outcome_assoc:
  "bind_outcome (bind_outcome m f) g = bind_outcome m (\<lambda>x. bind_outcome (f x) g)"
  by (cases m) auto

text \<open>Indexing a slice: a panic when the index is out of range.\<close>

definition index_slice :: "'a list \<Rightarrow> nat \<Rightarrow> 'a outcome" where
  "index_slice xs i = (if i < length xs then Ok (xs ! i) else Panic IndexOutOfBounds)"

lemma index_slice_Ok [simp]:
  "index_slice xs i = Ok x \<longleftrightarrow> i < length xs \<and> x = xs ! i"
  by (auto simp: index_slice_def)

lemma index_slice_less: "i < length xs \<Longrightarrow> index_slice xs i = Ok (xs ! i)"
  by simp

subsection \<open>Errors of the operating system and pointers\<close>

text \<open>
  The kinds of \<open>std::io::Error\<close> the program distinguishes; every other error carries its code.
\<close>

datatype io_error = WouldBlock | NotConnected | Interrupted | OtherError int

type_synonym 'a io_result = "io_error + 'a"

text \<open>\<open>std::task::Poll\<close>.\<close>

datatype 'a poll = Pending | Ready 'a

text \<open>\<open>NonNull::new\<close>.\<close>

definition non_null_new :: "usize \<Rightarrow> usize option" where
  "non_null_new p = (if p = 0 then None else Some p)"

subsection \<open>Atomic operations\<close>

text \<open>
  \<open>compare_exchange\<close> of the standard library: the result (\<open>Inr\<close> the old value on success,
  \<open>Inl\<close> the value found on failure) and the new contents of the cell.
\<close>

definition compare_exchange :: "'a \<Rightarrow> 'a \<Rightarrow> 'a \<Rightarrow> ('a + 'a) \<times> 'a" where
  "compare_exchange cell current new =
     (if cell = current then (Inr cell, new) else (Inl cell, cell))"

text \<open>\<open>fetch_or\<close> and \<open>fetch_and\<close>: the old value and the new contents.\<close>

definition fetch_or :: "'a::len word \<Rightarrow> 'a word \<Rightarrow> 'a word \<times> 'a word" where
  "fetch_or cell m = (cell, cell OR m)"

definition fetch_and :: "'a::len word \<Rightarrow> 'a word \<Rightarrow> 'a word \<times> 'a word" where
  "fetch_and cell m = (cell, cell AND m)"

text \<open>
  \<open>fetch_update\<close>: the closure is retried until its result could be stored, so its effect is one
  atomic application of the closure.
\<close>

definition fetch_update :: "'a \<Rightarrow> ('a \<Rightarrow> 'a option) \<Rightarrow> ('a + 'a) \<times> 'a" where
  "fetch_update cell f = (case f cell of None \<Rightarrow> (Inl cell, cell) | Some v \<Rightarrow> (Inr cell, v))"

text \<open>
  \<open>checked_add(1)\<close> and \<open>checked_sub(1)\<close>.
\<close>

definition checked_inc :: "'a::len word \<Rightarrow> 'a word option" where
  "checked_inc w = (if w = - 1 then None else Some (w + 1))"

definition checked_dec :: "'a::len word \<Rightarrow> 'a word option" where
  "checked_dec w = (if w = 0 then None else Some (w - 1))"

lemma unat_plus_one: "w \<noteq> - 1 \<Longrightarrow> unat (w + 1) = Suc (unat w)" for w :: "'a::len word"
  by (metis Suc_eq_plus1 add.commute max_word_wrap unatSuc)

lemma unat_minus_one_pos: "w \<noteq> 0 \<Longrightarrow> unat (w - 1) = unat w - 1" for w :: "'a::len word"
  by (metis unat_minus_one)

lemma checked_inc_Some: "checked_inc w = Some v \<Longrightarrow> unat v = Suc (unat w)"
  by (auto simp: checked_inc_def unat_plus_one split: if_splits)

lemma checked_dec_Some: "checked_dec w = Some v \<Longrightarrow> Suc (unat v) = unat w"
  by (auto simp: checked_dec_def unat_minus_one_pos unat_gt_0 split: if_splits)

lemma checked_inc_below:
  fixes w :: "'a::len word"
  assumes "unat w < 2 ^ LENGTH('a) - 1"
  shows "\<exists>v. checked_inc w = Some v"
  using assms by (auto simp: checked_inc_def unsigned_minus_1_eq_mask mask_eq_exp_minus_1)

lemma checked_dec_pos: "0 < unat w \<Longrightarrow> \<exists>v. checked_dec w = Some v"
  by (auto simp: checked_dec_def)

subsection \<open>Words and naturals\<close>

lemma unat_ucast_small:
  "unat w < 2 ^ LENGTH('b) \<Longrightarrow> unat (ucast w :: 'b::len word) = unat w"
  by (simp add: unsigned_ucast_eq take_bit_nat_eq_self)

lemma unat_of_nat_small: "k < 2 ^ LENGTH('a) \<Longrightarrow> unat (of_nat k :: 'a::len word) = k"
  by (simp add: unat_of_nat)

lemma div_mult_add: "j < p \<Longrightarrow> (k * p + j) div p = k" for k :: nat
  by simp

lemma mod_mult_add: "j < p \<Longrightarrow> (k * p + j) mod p = j" for k :: nat
  by simp

lemma word_eq_of_nat: "unat (w::'a::len word) = k \<Longrightarrow> w = of_nat k" by auto

subsection \<open>Updated lists\<close>

lemma nth_update_if: "j < length xs \<Longrightarrow> xs[i := v] ! j = (if i = j then v else xs ! j)"
  by (simp add: nth_list_update)

lemma list_all_update: "list_all P xs \<Longrightarrow> P v \<Longrightarrow> list_all P (xs[i := v])"
  by (auto simp: list_all_length nth_update_if)

lemma list_ex_update:
  "i < length xs \<Longrightarrow> \<not> P (xs ! i) \<Longrightarrow> list_ex P (xs[i := v]) \<longleftrightarrow> P v \<or> list_ex P xs"
  by (auto simp: list_ex_length nth_update_if split: if_splits)

lemma set_bit_idem: "bit w j \<Longrightarrow> set_bit j w = w" for w :: "'a::len word"
  by (simp add: set_bit_eq_idem_iff)

lemma list_ex_update_True: "i < length xs \<Longrightarrow> P v \<Longrightarrow> list_ex P (xs[i := v])"
  by (auto simp: list_ex_length nth_update_if)

subsection \<open>Counting list elements\<close>

definition count_if :: "('a \<Rightarrow> bool) \<Rightarrow> 'a list \<Rightarrow> nat" where
  "count_if P xs = length (filter P xs)"

lemma count_if_Nil [simp]: "count_if P [] = 0"
  by (simp add: count_if_def)

lemma count_if_Cons [simp]: "count_if P (x # xs) = (if P x then 1 else 0) + count_if P xs"
  by (simp add: count_if_def)

lemma count_if_replicate [simp]: "count_if P (replicate n x) = (if P x then n else 0)"
  by (induction n) auto

lemma count_if_le: "count_if P xs \<le> length xs"
  by (simp add: count_if_def)

lemma count_if_update:
  "i < length xs \<Longrightarrow>
   count_if P (xs[i := v]) + (if P (xs ! i) then 1 else 0) =
   count_if P xs + (if P v then 1 else 0)"
proof (induction xs arbitrary: i)
  case Nil
  then show ?case by simp
next
  case (Cons x xs)
  show ?case
  proof (cases i)
    case 0
    then show ?thesis by simp
  next
    case (Suc k)
    with Cons.prems have "k < length xs" by simp
    from Cons.IH [OF this] Suc show ?thesis by simp
  qed
qed

lemma count_if_pos_iff: "0 < count_if P xs \<longleftrightarrow> (\<exists>i < length xs. P (xs ! i))"
  by (auto simp: count_if_def filter_empty_conv in_set_conv_nth dest: nth_mem)

lemma count_if_0_iff: "count_if P xs = 0 \<longleftrightarrow> (\<forall>i < length xs. \<not> P (xs ! i))"
  using count_if_pos_iff [of P xs] by auto

lemma count_if_pos: "i < length xs \<Longrightarrow> P (xs ! i) \<Longrightarrow> 0 < count_if P xs"
  by (auto simp: count_if_pos_iff)

lemma count_if_conv_upt: "count_if P xs = length (filter (\<lambda>k. P (xs ! k)) [0..<length xs])"
  by (simp add: count_if_def length_filter_conv_card cong: conj_cong)

lemma count_if_unique:
  assumes "count_if P xs \<le> 1" and "i < length xs" and "j < length xs"
    and "P (xs ! i)" and "P (xs ! j)"
  shows "i = j"
proof (rule ccontr)
  assume "i \<noteq> j"
  let ?ys = "filter (\<lambda>k. P (xs ! k)) [0..<length xs]"
  have "{i, j} \<subseteq> set ?ys" using assms by auto
  then have "card {i, j} \<le> card (set ?ys)" by (rule card_mono [OF finite_set])
  also have "\<dots> \<le> length ?ys" by (rule card_length)
  finally show False using \<open>i \<noteq> j\<close> assms(1) by (simp add: count_if_conv_upt)
qed

end
