(* ===== verification/Index.thy ===== *)
theory Index
  imports Prelude
begin

section \<open>Queue, bucket and connection indices\<close>

text \<open>
  The index arithmetic of \<^verbatim>\<open>nea/src/index.rs\<close>. A bucket owns \<open>per_bucket\<close> consecutive queue
  slots: its TCP streams first, then its HTTP connections. Queue indices travel through
  wakers and epoll tokens as one machine word. The \<^verbatim>\<open>index_codec\<close> locale is the contract the
  reactor and the executor rely on when they send an index through such an encoding.
\<close>

subsection \<open>Data\<close>

record io_resources =
  tcp_streams :: usize
  http_connections :: usize

record connection_index =
  ci_identifier :: u32
  ci_index :: u32

record bucket_index =
  bi_identifier :: u32
  bi_index :: u32

record queue_index =
  qi_identifier :: u32
  qi_index :: u32

datatype io_index =
    InputStream bucket_index
  | HttpConnection connection_index

subsection \<open>Operations\<close>

definition per_bucket :: "io_resources \<Rightarrow> usize" where
  "per_bucket r = tcp_streams r + http_connections r"

text \<open>The range of connection slots of a bucket, as its two ends.\<close>

definition http_connections_range :: "io_resources \<Rightarrow> bucket_index \<Rightarrow> usize \<times> usize" where
  "http_connections_range r b =
     (let start = ucast (bi_index b) * http_connections r
      in (start, start + http_connections r))"

definition default_io_resources :: io_resources where
  "default_io_resources = \<lparr>tcp_streams = 1, http_connections = 0\<rparr>"

definition to_bucket_index :: "queue_index \<Rightarrow> io_resources \<Rightarrow> bucket_index outcome" where
  "to_bucket_index q r =
     (let per = ucast (per_bucket r) :: u32 in
      if per = 0 then Panic DivideByZero
      else let index = qi_index q div per in
        if index < 1000
        then Ok \<lparr>bi_identifier = qi_identifier q, bi_index = index\<rparr>
        else Panic AssertFailed)"

definition to_connection_index :: "queue_index \<Rightarrow> io_resources \<Rightarrow> connection_index outcome" where
  "to_connection_index q r =
     (let per = ucast (per_bucket r) :: u32 in
      if per = 0 then Panic DivideByZero
      else let bucket = qi_index q div per;
               connection = qi_index q mod per - ucast (tcp_streams r)
        in Ok \<lparr>ci_identifier = qi_identifier q,
               ci_index = bucket * ucast (http_connections r) + connection\<rparr>)"

definition from_bucket_index :: "io_resources \<Rightarrow> bucket_index \<Rightarrow> queue_index" where
  "from_bucket_index r b =
     \<lparr>qi_identifier = bi_identifier b, qi_index = bi_index b * ucast (per_bucket r)\<rparr>"

definition from_connection_index ::
    "io_resources \<Rightarrow> connection_index \<Rightarrow> queue_index outcome" where
  "from_connection_index r c =
     (let http = ucast (http_connections r) :: u32 in
      if http = 0 then Panic DivideByZero
      else let bucket = ci_index c div http;
               connection = ci_index c mod http;
               index = bucket * ucast (per_bucket r) + ucast (tcp_streams r) + connection
        in Ok \<lparr>qi_identifier = ci_identifier c, qi_index = index\<rparr>)"

text \<open>
  The byte encodings of the platform the crate supports (x86-64, little endian):
  \<open>to_ne_bytes\<close> gives the bytes of a word from the least significant one.
\<close>

definition u32_to_ne_bytes :: "u32 \<Rightarrow> u8 list" where
  "u32_to_ne_bytes w = map (\<lambda>k. ucast (drop_bit (8 * k) w)) [0..<4]"

definition usize_to_ne_bytes :: "usize \<Rightarrow> u8 list" where
  "usize_to_ne_bytes w = map (\<lambda>k. ucast (drop_bit (8 * k) w)) [0..<8]"

fun from_ne_bytes :: "u8 list \<Rightarrow> 'a::len word" where
  "from_ne_bytes [] = 0"
| "from_ne_bytes (b # bs) = ucast b OR push_bit 8 (from_ne_bytes bs)"

definition to_usize :: "queue_index \<Rightarrow> usize" where
  "to_usize q =
     (let a = u32_to_ne_bytes (qi_index q); b = u32_to_ne_bytes (qi_identifier q)
      in from_ne_bytes [a ! 0, a ! 1, a ! 2, a ! 3, b ! 0, b ! 1, b ! 2, b ! 3])"

definition from_usize :: "usize \<Rightarrow> queue_index" where
  "from_usize w =
     (let bs = usize_to_ne_bytes w
      in \<lparr>qi_identifier = from_ne_bytes [bs ! 4, bs ! 5, bs ! 6, bs ! 7],
          qi_index = from_ne_bytes [bs ! 0, bs ! 1, bs ! 2, bs ! 3]\<rparr>)"

definition to_ptr :: "queue_index \<Rightarrow> usize" where
  "to_ptr q = to_usize q"

definition from_ptr :: "usize \<Rightarrow> queue_index" where
  "from_ptr p = from_usize p"

definition from_index :: "io_resources \<Rightarrow> queue_index \<Rightarrow> io_index outcome" where
  "from_index r q =
     (let index = ucast (qi_index q) :: usize;
          total = per_bucket r;
          http_end = tcp_streams r + http_connections r
      in if total = 0 then Panic DivideByZero
         else let n = index mod total in
           if n = 0 then map_sum id InputStream (to_bucket_index q r)
           else if 1 \<le> n \<and> n < tcp_streams r then Panic Todo
           else if tcp_streams r \<le> n \<and> n < http_end
             then map_sum id HttpConnection (to_connection_index q r)
           else Panic Unreachable)"

text \<open>
  The resource configurations for which the index arithmetic and the 64-bit job mask of a
  bucket are meant: at least the input stream, and at most 64 slots per bucket.
\<close>

definition io_wf :: "io_resources \<Rightarrow> bool" where
  "io_wf r \<longleftrightarrow> 0 < unat (tcp_streams r) \<and> unat (tcp_streams r) + unat (http_connections r) \<le> 64"

definition bucket_valid :: "io_resources \<Rightarrow> bucket_index \<Rightarrow> bool" where
  "bucket_valid r b \<longleftrightarrow> io_wf r \<and> unat (bi_index b) < 1000"

definition connection_valid :: "io_resources \<Rightarrow> connection_index \<Rightarrow> bool" where
  "connection_valid r c \<longleftrightarrow> io_wf r \<and> unat (ci_index c) < 1000 * unat (http_connections r)"

subsection \<open>Words as bytes\<close>


lemma bit_from_ne_bytes:
  "bit (from_ne_bytes bs :: 'a::len word) n \<longleftrightarrow>
     n < LENGTH('a) \<and> n div 8 < length bs \<and> bit (bs ! (n div 8)) (n mod 8)"
proof (induction bs arbitrary: n)
  case Nil
  then show ?case by simp
next
  case (Cons b bs)
  show ?case
  proof (cases "n < 8")
    case True
    then show ?thesis by (auto simp: bit_or_iff bit_push_bit_iff bit_ucast_iff)
  next
    case False
    then have "n div 8 = Suc ((n - 8) div 8)" and "n mod 8 = (n - 8) mod 8"
      by (simp_all add: le_div_geq le_mod_geq not_less)
    with False show ?thesis
      by (auto simp: bit_or_iff bit_push_bit_iff bit_ucast_iff Cons.IH dest: bit_imp_le_length)
  qed
qed

lemma nth_u32_to_ne_bytes:
  "k < 4 \<Longrightarrow> bit (u32_to_ne_bytes w ! k) j \<longleftrightarrow> j < 8 \<and> bit w (8 * k + j)"
  by (auto simp: u32_to_ne_bytes_def bit_ucast_iff bit_drop_bit_eq)

lemma nth_usize_to_ne_bytes:
  "k < 8 \<Longrightarrow> bit (usize_to_ne_bytes w ! k) j \<longleftrightarrow> j < 8 \<and> bit w (8 * k + j)"
  by (auto simp: usize_to_ne_bytes_def bit_ucast_iff bit_drop_bit_eq)

lemma bit_to_usize:
  "bit (to_usize q) n \<longleftrightarrow> n < 64 \<and> (if n < 32 then bit (qi_index q) n else bit (qi_identifier q) (n - 32))"
proof -
  let ?a = "u32_to_ne_bytes (qi_index q)" and ?b = "u32_to_ne_bytes (qi_identifier q)"
  have la: "length ?a = 4" "length ?b = 4" by (simp_all add: u32_to_ne_bytes_def)
  have "[?a ! 0, ?a ! 1, ?a ! 2, ?a ! 3, ?b ! 0, ?b ! 1, ?b ! 2, ?b ! 3] = ?a @ ?b"
    by (rule nth_equalityI) (auto simp: la nth_append numeral_eq_Suc less_Suc_eq)
  then have eq: "to_usize q = from_ne_bytes (?a @ ?b)"
    by (simp only: to_usize_def Let_def)
  show ?thesis
  proof (cases "n < 32")
    case True
    then have "n div 8 < 4" by simp
    with True show ?thesis
      by (simp add: eq bit_from_ne_bytes nth_append la nth_u32_to_ne_bytes) 
  next
    case False
    show ?thesis
    proof (cases "n < 64")
      case True
      with False have d: "4 \<le> n div 8" "n div 8 - 4 < 4" "n div 8 < 8" by arith+
      have "8 * (n div 8 - 4) + n mod 8 = n - 32" using False by presburger
      with False True d show ?thesis
        by (simp add: eq bit_from_ne_bytes nth_append la nth_u32_to_ne_bytes) 
    qed (auto dest: bit_imp_le_length)
  qed
qed

lemma bit_from_usize_index: "bit (qi_index (from_usize w)) n \<longleftrightarrow> n < 32 \<and> bit w n"
proof -
  let ?b = "usize_to_ne_bytes w"
  have la: "length ?b = 8" by (simp add: usize_to_ne_bytes_def)
  have "[?b ! 0, ?b ! 1, ?b ! 2, ?b ! 3] = take 4 ?b"
    by (rule nth_equalityI) (auto simp: la numeral_eq_Suc less_Suc_eq)
  then have eq: "qi_index (from_usize w) = from_ne_bytes (take 4 ?b)"
    by (simp only: from_usize_def Let_def queue_index.simps)
  show ?thesis
    by (cases "n < 32") (auto simp add: eq bit_from_ne_bytes la nth_usize_to_ne_bytes)
qed

lemma bit_from_usize_identifier: "bit (qi_identifier (from_usize w)) n \<longleftrightarrow> n < 32 \<and> bit w (n + 32)"
proof -
  let ?b = "usize_to_ne_bytes w"
  have la: "length ?b = 8" by (simp add: usize_to_ne_bytes_def)
  have "[?b ! 4, ?b ! 5, ?b ! 6, ?b ! 7] = drop 4 ?b"
    by (rule nth_equalityI) (auto simp: la numeral_eq_Suc less_Suc_eq)
  then have eq: "qi_identifier (from_usize w) = from_ne_bytes (drop 4 ?b)"
    by (simp only: from_usize_def Let_def queue_index.simps)
  show ?thesis
  proof (cases "n < 32")
    case True
    then have "n div 8 < 4" by simp
    moreover have "8 * (4 + n div 8) + n mod 8 = n + 32" by presburger
    ultimately show ?thesis using True
     by (simp add: eq bit_from_ne_bytes la nth_usize_to_ne_bytes)
  qed (auto simp add: eq bit_from_ne_bytes la nth_usize_to_ne_bytes)
qed

lemma from_usize_to_usize: "from_usize (to_usize q) = q"
proof (rule queue_index.equality)
  show "qi_identifier (from_usize (to_usize q)) = qi_identifier q"
    by (rule bit_word_eqI) (simp add: bit_from_usize_identifier bit_to_usize)
  show "qi_index (from_usize (to_usize q)) = qi_index q"
    by (rule bit_word_eqI) (simp add: bit_from_usize_index bit_to_usize)
qed simp

lemma to_usize_from_usize: "to_usize (from_usize w) = w"
  by (rule bit_word_eqI) (auto simp: bit_from_usize_index bit_from_usize_identifier bit_to_usize)

lemma unat_per_bucket:
  assumes "io_wf r"
  shows "unat (per_bucket r) = unat (tcp_streams r) + unat (http_connections r)"
  using assms by (simp add: io_wf_def per_bucket_def unat_word_ariths)

lemma unat_per_bucket_u32:
  assumes "io_wf r"
  shows "unat (ucast (per_bucket r) :: u32) = unat (tcp_streams r) + unat (http_connections r)"
  using assms unat_per_bucket [OF assms]
  by (simp add: io_wf_def unat_ucast_small)

lemma per_bucket_mod:
  assumes wf: "io_wf r"
    and q: "unat (qi_index q) = k * (unat (tcp_streams r) + unat (http_connections r)) + j"
    and j: "j < unat (tcp_streams r) + unat (http_connections r)"
  shows "unat ((ucast (qi_index q) :: usize) mod per_bucket r) = j"
proof -
  have "unat (ucast (qi_index q) :: usize) = unat (qi_index q)"
    by (rule unat_ucast_small) (use unsigned_less [of "qi_index q", where 'a=nat] in simp)
  then show ?thesis by (simp only: unat_mod q unat_per_bucket [OF wf] mod_mult_add [OF j])
qed

lemma to_bucket_index_spec:
  assumes wf: "io_wf r"
    and q: "unat (qi_index q) = k * (unat (tcp_streams r) + unat (http_connections r)) + j"
    and j: "j < unat (tcp_streams r) + unat (http_connections r)"
    and k: "k < 1000"
  shows "to_bucket_index q r = Ok \<lparr>bi_identifier = qi_identifier q, bi_index = of_nat k\<rparr>"
proof -
  let ?p = "ucast (per_bucket r) :: u32"
  note per = unat_per_bucket_u32 [OF wf]
  have nz: "?p \<noteq> 0" using per j by (metis less_nat_zero_code unat_0)
  have "qi_index q div ?p = of_nat k"
    by (rule word_eq_of_nat) (simp only: unat_div q per div_mult_add [OF j])
  with nz k show ?thesis
    by (simp add: to_bucket_index_def Let_def word_less_nat_alt unat_of_nat)
qed

lemma from_index_spec:
  assumes wf: "io_wf r"
    and q: "unat (qi_index q) = k * (unat (tcp_streams r) + unat (http_connections r)) + j"
    and j: "j < unat (tcp_streams r) + unat (http_connections r)"
    and k: "k < 1000"
  shows "from_index r q =
    (if j = 0 then Ok (InputStream \<lparr>bi_identifier = qi_identifier q, bi_index = of_nat k\<rparr>)
     else if j < unat (tcp_streams r) then Panic Todo
     else Ok (HttpConnection \<lparr>ci_identifier = qi_identifier q,
        ci_index = of_nat (k * unat (http_connections r) + (j - unat (tcp_streams r)))\<rparr>))"
proof -
  let ?T = "unat (tcp_streams r)" and ?H = "unat (http_connections r)"
  let ?p = "ucast (per_bucket r) :: u32"
  note per = unat_per_bucket [OF wf] unat_per_bucket_u32 [OF wf]
  have pos: "0 < ?T + ?H" "?T + ?H \<le> 64" using wf by (auto simp: io_wf_def)
  have nz: "?p \<noteq> 0" "per_bucket r \<noteq> 0" using per pos by (auto simp: unat_eq_0 [symmetric] simp del: unat_eq_0)
  have dv: "qi_index q div ?p = of_nat k"
    by (rule word_eq_of_nat) (simp only: unat_div q per div_mult_add [OF j])
  have md: "qi_index q mod ?p = of_nat j"
    by (rule word_eq_of_nat) (simp only: unat_mod q per mod_mult_add [OF j])
  have n: "unat ((ucast (qi_index q) :: usize) mod per_bucket r) = j"
    by (rule per_bucket_mod [OF wf q j])
  note bucket = to_bucket_index_spec [OF wf q j k]
  have conn: "to_connection_index q r = Ok \<lparr>ci_identifier = qi_identifier q,
      ci_index = of_nat (k * ?H + (j - ?T))\<rparr>" if "?T \<le> j"
    using nz(1) that
    by (simp add: to_connection_index_def Let_def dv md of_nat_diff)
  let ?n = "(ucast (qi_index q) :: usize) mod per_bucket r"
  have ht: "unat (tcp_streams r + http_connections r) = ?T + ?H"
    using per(1) by (simp add: per_bucket_def)
  have c0: "?n = 0 \<longleftrightarrow> j = 0"
    using n by (metis unat_eq_0)
  have c1: "1 \<le> ?n \<and> ?n < tcp_streams r \<longleftrightarrow> 1 \<le> j \<and> j < ?T"
    using n by (simp add: word_le_nat_alt word_less_nat_alt)
  have c2: "tcp_streams r \<le> ?n \<and> ?n < tcp_streams r + http_connections r \<longleftrightarrow> ?T \<le> j"
    unfolding word_le_nat_alt word_less_nat_alt n ht using j by simp
  show ?thesis
    unfolding from_index_def Let_def c0 c1 c2 bucket
    using nz(2) conn by simp
qed


subsection \<open>Encodings that can be undone\<close>

text \<open>
  An index is sent through an encoding (a machine word, a queue slot) and read back by the
  component on the other side. The contract: encoding a valid index succeeds and decoding the
  result gives the index back, so two indices with one encoding are equal.
\<close>

locale index_codec =
  fixes enc :: "'a \<Rightarrow> 'b outcome"
    and dec :: "'b \<Rightarrow> 'c outcome"
    and view :: "'a \<Rightarrow> 'c"
    and valid :: "'a \<Rightarrow> bool"
  assumes enc_total: "valid x \<Longrightarrow> \<exists>y. enc x = Ok y"
    and decodes: "valid x \<Longrightarrow> enc x = Ok y \<Longrightarrow> dec y = Ok (view x)"
begin

lemma round_trip: "valid x \<Longrightarrow> bind_outcome (enc x) dec = Ok (view x)"
  using enc_total decodes by fastforce

lemma enc_inject:
  assumes "valid x" and "valid y" and "enc x = enc y"
  shows "view x = view y"
  using assms enc_total [of x] decodes by (metis sum.inject(2))

end

interpretation word_codec: index_codec "\<lambda>q. Ok (to_usize q)" "\<lambda>w. Ok (from_usize w)" "\<lambda>q. q" "\<lambda>_. True"
  by unfold_locales (simp_all add: from_usize_to_usize)

lemma unat_from_bucket_index:
  assumes "bucket_valid r b"
  shows "unat (qi_index (from_bucket_index r b)) =
    unat (bi_index b) * (unat (tcp_streams r) + unat (http_connections r))"
proof -
  have wf: "io_wf r" and b: "unat (bi_index b) < 1000"
    using assms by (auto simp: bucket_valid_def)
  have "unat (bi_index b) * (unat (tcp_streams r) + unat (http_connections r)) \<le> 1000 * 64"
    using wf b by (intro mult_le_mono) (auto simp: io_wf_def)
  then show ?thesis
    by (simp add: from_bucket_index_def unat_word_ariths(2) unat_per_bucket_u32 [OF wf])
qed

lemma from_index_from_bucket_index:
  assumes "bucket_valid r b"
  shows "from_index r (from_bucket_index r b) = Ok (InputStream b)"
proof -
  have wf: "io_wf r" and b: "unat (bi_index b) < 1000"
    using assms by (auto simp: bucket_valid_def)
  have "0 < unat (tcp_streams r) + unat (http_connections r)"
    using wf by (auto simp: io_wf_def)
  from from_index_spec [OF wf, of "from_bucket_index r b" _ 0, OF _ this b]
  show ?thesis
    by (simp add: unat_from_bucket_index [OF assms]) (simp add: from_bucket_index_def)
qed

lemma from_connection_index_spec:
  assumes "connection_valid r c"
  shows "\<exists>q. from_connection_index r c = Ok q \<and> qi_identifier q = ci_identifier c \<and>
    unat (qi_index q) =
      unat (ci_index c) div unat (http_connections r) *
        (unat (tcp_streams r) + unat (http_connections r)) +
      (unat (tcp_streams r) + unat (ci_index c) mod unat (http_connections r))"
proof -
  let ?T = "unat (tcp_streams r)" and ?H = "unat (http_connections r)" and ?c = "unat (ci_index c)"
  have wf: "io_wf r" and c: "?c < 1000 * ?H"
    using assms by (auto simp: connection_valid_def)
  have H: "0 < ?H" "?T + ?H \<le> 64" using wf c by (auto simp: io_wf_def)
  have h32: "unat (ucast (http_connections r) :: u32) = ?H" "unat (ucast (tcp_streams r) :: u32) = ?T"
    using H by (auto intro!: unat_ucast_small)
  have nz: "(ucast (http_connections r) :: u32) \<noteq> 0" using h32 H by (metis unat_0 less_irrefl)
  have k: "?c div ?H < 1000" using c H(1) by (simp add: less_mult_imp_div_less)
  have m: "?c mod ?H < ?H" using H(1) by simp
  have b: "?c div ?H * (?T + ?H) \<le> 999 * 64" using k H by (intro mult_le_mono) auto
  have w1: "unat (ci_index c div (ucast (http_connections r) :: u32) * ucast (per_bucket r)) =
    ?c div ?H * (?T + ?H)"
    using b by (simp add: unat_word_ariths(2) unat_div h32 unat_per_bucket_u32 [OF wf])
  have w2: "unat (ci_index c div (ucast (http_connections r) :: u32) * ucast (per_bucket r) + ucast (tcp_streams r)) =
    ?c div ?H * (?T + ?H) + ?T"
    using b H by (simp add: unat_word_ariths(1) w1 h32)
  have w3: "unat (ci_index c div (ucast (http_connections r) :: u32) * ucast (per_bucket r) + ucast (tcp_streams r)
      + ci_index c mod (ucast (http_connections r) :: u32)) =
    ?c div ?H * (?T + ?H) + ?T + ?c mod ?H"
    using b H m by (simp add: unat_word_ariths(1) w1 unat_mod h32)
  show ?thesis
    using nz w3 by (simp add: from_connection_index_def Let_def)
qed

lemma from_index_from_connection_index:
  assumes "connection_valid r c" and "from_connection_index r c = Ok q"
  shows "from_index r q = Ok (HttpConnection c)"
proof -
  let ?T = "unat (tcp_streams r)" and ?H = "unat (http_connections r)" and ?c = "unat (ci_index c)"
  have wf: "io_wf r" and c: "?c < 1000 * ?H"
    using assms by (auto simp: connection_valid_def)
  have T: "0 < ?T" using wf by (simp add: io_wf_def)
  have H: "0 < ?H" using c by auto
  from from_connection_index_spec [OF assms(1)] assms(2)
  have q: "qi_identifier q = ci_identifier c"
    "unat (qi_index q) = ?c div ?H * (?T + ?H) + (?T + ?c mod ?H)" by auto
  have j: "?T + ?c mod ?H < ?T + ?H" using H by simp
  have k: "?c div ?H < 1000" using c H by (simp add: less_mult_imp_div_less)
  show ?thesis
    unfolding from_index_spec [OF wf q(2) j k] using T q(1) H
    by (simp add: mult.commute)
qed

interpretation bucket_codec: index_codec "\<lambda>b. Ok (from_bucket_index r b)" "from_index r" InputStream "bucket_valid r" for r
  by unfold_locales (auto simp: from_index_from_bucket_index)

interpretation connection_codec: index_codec "from_connection_index r" "from_index r" HttpConnection "connection_valid r" for r
  using from_connection_index_spec from_index_from_connection_index by unfold_locales blast+

subsection \<open>Properties\<close>

text \<open>
  A queue index survives the trip through a machine word (an epoll token) and through a waker's
  data pointer, and every machine word is the encoding of some queue index.
\<close>

theorem queue_index_word_round_trip:
  "from_usize (to_usize q) = q \<and> to_usize (from_usize w) = w \<and> from_ptr (to_ptr q) = q"
  by (simp add: from_usize_to_usize to_usize_from_usize from_ptr_def to_ptr_def)

text \<open>
  C9: the complete behaviour of \<open>IoIndex::from_index\<close> on slot \<open>j\<close> of bucket \<open>k\<close>: slot 0 is the input
  stream, the other TCP slots are unimplemented, and the rest are the bucket's connections in
  order.
\<close>

theorem from_index_classifies:
  assumes "io_wf r"
    and "unat (qi_index q) = k * (unat (tcp_streams r) + unat (http_connections r)) + j"
    and "j < unat (tcp_streams r) + unat (http_connections r)"
    and "k < 1000"
  shows "from_index r q =
    (if j = 0 then Ok (InputStream \<lparr>bi_identifier = qi_identifier q, bi_index = of_nat k\<rparr>)
     else if j < unat (tcp_streams r) then Panic Todo
     else Ok (HttpConnection \<lparr>ci_identifier = qi_identifier q,
        ci_index = of_nat (k * unat (http_connections r) + (j - unat (tcp_streams r)))\<rparr>))"
  using assms by (rule from_index_spec)

theorem from_index_classifies_witness:
  "from_index \<lparr>tcp_streams = 1, http_connections = 4\<rparr> \<lparr>qi_identifier = 0, qi_index = 6\<rparr> =
     Ok (HttpConnection \<lparr>ci_identifier = 0, ci_index = 4\<rparr>)"
  using from_index_classifies [of "\<lparr>tcp_streams = 1, http_connections = 4\<rparr>" "\<lparr>qi_identifier = 0, qi_index = 6\<rparr>" 1 1]
  by (simp add: io_wf_def)

text \<open>
  C10: no two owners share a queue slot. The slot of a bucket's input stream and the slots of the
  connections decode to their owner, so distinct buckets and connections have distinct slots
  and no connection has the slot of an input stream.
\<close>

theorem queue_slots_have_one_owner:
  assumes "bucket_valid r a" and "bucket_valid r b"
    and "connection_valid r c" and "connection_valid r d"
    and "from_connection_index r c = Ok qc" and "from_connection_index r d = Ok qd"
  shows "from_index r (from_bucket_index r a) = Ok (InputStream a) \<and>
    from_index r qc = Ok (HttpConnection c) \<and>
    (from_bucket_index r a = from_bucket_index r b \<longrightarrow> a = b) \<and>
    (qc = qd \<longrightarrow> c = d) \<and> from_bucket_index r a \<noteq> qc"
proof (intro conjI impI)
  show a: "from_index r (from_bucket_index r a) = Ok (InputStream a)"
    using assms(1) by (rule from_index_from_bucket_index)
  show c: "from_index r qc = Ok (HttpConnection c)"
    using assms(3,5) by (rule from_index_from_connection_index)
  show "a = b" if "from_bucket_index r a = from_bucket_index r b"
    using bucket_codec.enc_inject [OF assms(1,2)] that by simp
  show "c = d" if "qc = qd"
    using connection_codec.enc_inject [OF assms(3,4)] that assms(5,6) by simp
  show "from_bucket_index r a \<noteq> qc"
    using a c by auto
qed

theorem queue_slots_have_one_owner_witness:
  "from_bucket_index \<lparr>tcp_streams = 1, http_connections = 4\<rparr> \<lparr>bi_identifier = 0, bi_index = 1\<rparr> \<noteq>
     \<lparr>qi_identifier = 0, qi_index = 6\<rparr>"
proof -
  let ?r = "\<lparr>tcp_streams = 1, http_connections = 4\<rparr> :: io_resources"
  let ?b = "\<lparr>bi_identifier = 0, bi_index = 1\<rparr>" and ?c = "\<lparr>ci_identifier = 0, ci_index = 4\<rparr>"
  have "bucket_valid ?r ?b" "connection_valid ?r ?c"
    "from_connection_index ?r ?c = Ok \<lparr>qi_identifier = 0, qi_index = 6\<rparr>"
    by (simp_all add: bucket_valid_def connection_valid_def io_wf_def from_connection_index_def per_bucket_def)
  from queue_slots_have_one_owner [OF this(1,1,2,2,3,3)] show ?thesis by simp
qed

text \<open>
  C11: the connection of a queue slot lies in the connection range of the slot's own bucket, which
  lies inside the table of connections of all \<open>n\<close> buckets.
\<close>

theorem connection_in_bucket_range:
  assumes wf: "io_wf r" and q: "unat (qi_index q) < n * unat (per_bucket r)" and n: "n \<le> 1000"
    and c: "from_index r q = Ok (HttpConnection c)"
  shows "\<exists>b. to_bucket_index q r = Ok b \<and>
    unat (fst (http_connections_range r b)) \<le> unat (ci_index c) \<and>
    unat (ci_index c) < unat (snd (http_connections_range r b)) \<and>
    unat (snd (http_connections_range r b)) \<le> n * unat (http_connections r)"
proof -
  let ?T = "unat (tcp_streams r)" and ?H = "unat (http_connections r)"
  let ?k = "unat (qi_index q) div (?T + ?H)" and ?j = "unat (qi_index q) mod (?T + ?H)"
  have P: "0 < ?T + ?H" "?T + ?H \<le> 64" using wf by (auto simp: io_wf_def)
  have eq: "unat (qi_index q) = ?k * (?T + ?H) + ?j" by (rule div_mult_mod_eq [symmetric])
  have j: "?j < ?T + ?H" using P(1) by simp
  have k: "?k < n" using q P(1) by (simp add: unat_per_bucket [OF wf] less_mult_imp_div_less)
  then have k1: "?k < 1000" using n by simp
  have c': "?T \<le> ?j" "c = \<lparr>ci_identifier = qi_identifier q, ci_index = of_nat (?k * ?H + (?j - ?T))\<rparr>"
    using c unfolding from_index_spec [OF wf eq j k1] by (auto split: if_splits)
  have kh: "?k * ?H \<le> 999 * 64" using k1 P(2) by (intro mult_le_mono) auto
  have ci: "unat (ci_index c) = ?k * ?H + (?j - ?T)"
    unfolding c'(2) connection_index.simps
    by (rule unat_of_nat_small) (use kh j P(2) in simp)
  have lo: "unat (fst (http_connections_range r \<lparr>bi_identifier = qi_identifier q, bi_index = of_nat ?k\<rparr>)) = ?k * ?H"
    using kh k1 by (simp add: http_connections_range_def Let_def unat_word_ariths(2) unat_of_nat unat_ucast_small)
  have hi: "unat (snd (http_connections_range r \<lparr>bi_identifier = qi_identifier q, bi_index = of_nat ?k\<rparr>)) = ?k * ?H + ?H"
    using lo kh P(2) by (simp add: http_connections_range_def Let_def unat_word_ariths(1))
  have "?k * ?H + ?H \<le> n * ?H"
    using mult_le_mono1 [OF Suc_leI [OF k], of ?H] by simp
  with to_bucket_index_spec [OF wf eq j k1] lo hi ci c'(1) j show ?thesis by (intro exI conjI) auto
qed

theorem connection_in_bucket_range_witness:
  "\<exists>b. to_bucket_index \<lparr>qi_identifier = 0, qi_index = 6\<rparr> \<lparr>tcp_streams = 1, http_connections = 4\<rparr> = Ok b \<and>
     unat (fst (http_connections_range \<lparr>tcp_streams = 1, http_connections = 4\<rparr> b)) \<le> 4"
proof -
  have "from_index \<lparr>tcp_streams = 1, http_connections = 4\<rparr> \<lparr>qi_identifier = 0, qi_index = 6\<rparr> =
    Ok (HttpConnection \<lparr>ci_identifier = 0, ci_index = 4\<rparr>)"
    by (simp add: from_index_def to_connection_index_def per_bucket_def)
  from connection_in_bucket_range [OF _ _ _ this, of 2] show ?thesis
    by (fastforce simp: io_wf_def per_bucket_def)
qed

end
