(* ===== verification/Queue.thy ===== *)
theory Queue
  imports Index
begin

section \<open>The job queue: slots, reference count, operations\<close>

text \<open>
  The data and the operations of \<^verbatim>\<open>nea/src/queue.rs\<close>, each as one uninterrupted call. A bucket
  has one queue slot: a byte of flags (enqueued, in progress) and a 64-bit mask of its jobs.
  The number of claimable buckets is a \<open>u32\<close> under a mutex with a condition variable.
  The theory \<open>Queue_Concurrent\<close> splits the same operations into their atomic steps.
\<close>

subsection \<open>Slots\<close>

definition ENQUEUED_BIT :: u8 where
  "ENQUEUED_BIT = 1"

definition IN_PROGRESS_BIT :: u8 where
  "IN_PROGRESS_BIT = 2"

record queue_slot_state =
  is_enqueued :: bool
  is_in_progress :: bool

record queue_slot =
  flags :: u8
  jobs :: u64

definition empty_slot :: queue_slot where
  "empty_slot = \<lparr>flags = 0, jobs = 0\<rparr>"

text \<open>\<open>Result<(), ()>\<close> is \<open>True\<close> for \<open>Ok\<close> and \<open>False\<close> for \<open>Err\<close>.\<close>

definition try_process :: "queue_slot \<Rightarrow> bool \<times> queue_slot" where
  "try_process s =
     (case compare_exchange (flags s) ENQUEUED_BIT IN_PROGRESS_BIT of
        (Inr _, f) \<Rightarrow> (True, s\<lparr>flags := f\<rparr>)
      | (Inl _, f) \<Rightarrow> (False, s\<lparr>flags := f\<rparr>))"

definition mark_enqueued :: "queue_slot \<Rightarrow> queue_slot_state \<times> queue_slot" where
  "mark_enqueued s =
     (let (old, new) = fetch_or (flags s) ENQUEUED_BIT
      in (\<lparr>is_enqueued = (old AND ENQUEUED_BIT \<noteq> 0),
           is_in_progress = (old AND IN_PROGRESS_BIT \<noteq> 0)\<rparr>,
          s\<lparr>flags := new\<rparr>))"

definition trailing_zeros :: "'a::len word \<Rightarrow> nat" where
  "trailing_zeros w = length (takeWhile (\<lambda>i. \<not> bit w i) [0..<LENGTH('a)])"

text \<open>\<open>1 << n\<close> on \<open>u64\<close>: the shift amount is taken modulo the width.\<close>

definition shl1 :: "nat \<Rightarrow> u64" where
  "shl1 n = push_bit (n mod 64) 1"

definition dequeue_slot :: "queue_slot \<Rightarrow> nat option \<times> queue_slot" where
  "dequeue_slot s =
     (let v = jobs s in
      if v = 0 then (None, s)
      else let index = trailing_zeros v; mask = shl1 index
           in (Some index, s\<lparr>jobs := snd (fetch_and (jobs s) (NOT mask))\<rparr>))"

subsection \<open>The reference count\<close>

definition increment_active :: "u32 \<Rightarrow> u32 outcome" where
  "increment_active guard =
     (case checked_inc guard of
        None \<Rightarrow> Panic (Explicit ''increment_active: overflow'')
      | Some v \<Rightarrow> Ok v)"

definition decrement_active :: "u32 \<Rightarrow> u32 outcome" where
  "decrement_active guard =
     (case checked_dec guard of
        None \<Rightarrow> Panic (Explicit ''decrement_active: overflow'')
      | Some v \<Rightarrow> Ok v)"

text \<open>
  One pass of the loop of \<open>wait_active\<close>, with the mutex held: the count when it is not
  zero, \<open>None\<close> when the thread goes to wait on the condition variable.
\<close>

definition wait_active :: "u32 \<Rightarrow> u32 option" where
  "wait_active guard = (if guard = 0 then None else Some guard)"

subsection \<open>The queue\<close>

datatype next_step = Done | GoAgain

record complex_queue =
  queue :: "queue_slot list"
  jobs_in_queue :: u32
  cq_io_resources :: io_resources

definition with_capacity :: "nat \<Rightarrow> io_resources \<Rightarrow> complex_queue" where
  "with_capacity n r =
     \<lparr>queue = replicate n empty_slot, jobs_in_queue = 0, cq_io_resources = r\<rparr>"

definition increment_jobs_available :: "complex_queue \<Rightarrow> (u32 \<times> complex_queue) outcome" where
  "increment_jobs_available q =
     bind_outcome (increment_active (jobs_in_queue q)) (\<lambda>v. Ok (v, q\<lparr>jobs_in_queue := v\<rparr>))"

definition decrement_jobs_available :: "complex_queue \<Rightarrow> (u32 \<times> complex_queue) outcome" where
  "decrement_jobs_available q =
     bind_outcome (decrement_active (jobs_in_queue q)) (\<lambda>v. Ok (v, q\<lparr>jobs_in_queue := v\<rparr>))"

text \<open>
  \<open>helper\<close> returns the queue and whether \<open>wake_one\<close> was called on the condition variable.
  The slot is given by its index in the queue.
\<close>

definition helper :: "nat \<Rightarrow> nat \<Rightarrow> complex_queue \<Rightarrow> (bool \<times> complex_queue) outcome" where
  "helper bucket offset q =
     (let slot = queue q ! bucket;
          mask = shl1 offset;
          (old_jobs, new_jobs) = fetch_or (jobs slot) mask;
          q1 = q\<lparr>queue := (queue q)[bucket := slot\<lparr>jobs := new_jobs\<rparr>]\<rparr>
      in if old_jobs AND mask \<noteq> 0 then Ok (False, q1)
         else bind_outcome (increment_jobs_available q1) (\<lambda>(_, q2).
           let (old, slot2) = mark_enqueued (queue q2 ! bucket);
               q3 = q2\<lparr>queue := (queue q2)[bucket := slot2]\<rparr>
           in if \<not> is_enqueued old \<and> \<not> is_in_progress old then Ok (True, q3)
              else bind_outcome (decrement_jobs_available q3) (\<lambda>(_, q4). Ok (False, q4))))"

definition initial_enqueue :: "queue_index \<Rightarrow> complex_queue \<Rightarrow> (bool \<times> complex_queue) outcome" where
  "initial_enqueue qi q =
     bind_outcome (to_bucket_index qi (cq_io_resources q)) (\<lambda>b.
       let bucket = unat (bi_index b) in
       if bucket < length (queue q)
       then if per_bucket (cq_io_resources q) = 0 then Panic DivideByZero
            else helper bucket (unat ((ucast (qi_index qi) :: usize) mod per_bucket (cq_io_resources q))) q
       else Panic (Explicit ''bucket index out of bounds''))"

definition wake :: "queue_index \<Rightarrow> complex_queue \<Rightarrow> (bool \<times> complex_queue) outcome" where
  "wake qi q = initial_enqueue qi q"

text \<open>The two attempts of \<open>done_with_bucket\<close>, on the flags of a slot.\<close>

fun done_with_bucket_loop :: "nat \<Rightarrow> u8 \<Rightarrow> (next_step \<times> u8) outcome" where
  "done_with_bucket_loop 0 f = Panic Unreachable"
| "done_with_bucket_loop (Suc n) f =
     (case compare_exchange f (ENQUEUED_BIT OR IN_PROGRESS_BIT) IN_PROGRESS_BIT of
        (Inr _, f') \<Rightarrow> Ok (GoAgain, f')
      | (Inl state, f') \<Rightarrow>
          if state \<noteq> IN_PROGRESS_BIT then Panic AssertFailed
          else (case compare_exchange f' IN_PROGRESS_BIT 0 of
                  (Inl _, f'') \<Rightarrow> done_with_bucket_loop n f''
                | (Inr _, f'') \<Rightarrow> Ok (Done, f'')))"

definition done_with_bucket :: "queue_slot \<Rightarrow> (next_step \<times> queue_slot) outcome" where
  "done_with_bucket s =
     bind_outcome (done_with_bucket_loop 2 (flags s)) (\<lambda>(n, f). Ok (n, s\<lparr>flags := f\<rparr>))"

text \<open>
  \<open>try_dequeue\<close> scans the slots from the first (\<open>split_index\<close> is 0) and claims the first
  one that is enqueued and not in progress.
\<close>

fun try_dequeue_from :: "nat \<Rightarrow> nat \<Rightarrow> complex_queue \<Rightarrow> (nat option \<times> complex_queue) outcome" where
  "try_dequeue_from 0 i q = Ok (None, q)"
| "try_dequeue_from (Suc n) i q =
     (let (ok, slot) = try_process (queue q ! i) in
      if \<not> ok then try_dequeue_from n (Suc i) q
      else bind_outcome (decrement_jobs_available (q\<lparr>queue := (queue q)[i := slot]\<rparr>))
             (\<lambda>(_, q'). Ok (Some i, q')))"

definition try_dequeue :: "complex_queue \<Rightarrow> (bucket_index option \<times> complex_queue) outcome" where
  "try_dequeue q =
     bind_outcome (try_dequeue_from (length (queue q)) 0 q) (\<lambda>(found, q').
       Ok (map_option (\<lambda>i. \<lparr>bi_identifier = 0, bi_index = of_nat i\<rparr>) found, q'))"

text \<open>
  \<open>blocking_dequeue\<close> with no other thread running: it claims a bucket, or the thread waits
  for ever (\<open>None\<close>). The waiting with other threads is in \<open>Queue_Concurrent\<close>.
\<close>

partial_function (option) blocking_dequeue ::
    "complex_queue \<Rightarrow> (bucket_index \<times> complex_queue) outcome option" where
  "blocking_dequeue q =
     (case wait_active (jobs_in_queue q) of
        None \<Rightarrow> None
      | Some n \<Rightarrow>
          (case try_dequeue q of
             Inl p \<Rightarrow> Some (Panic p)
           | Inr (Some b, q') \<Rightarrow> Some (Ok (b, q'))
           | Inr (None, q') \<Rightarrow> blocking_dequeue q'))"

subsection \<open>Well-formed queues\<close>

text \<open>A slot whose bucket a worker can claim: enqueued and not in progress.\<close>

definition claimable :: "queue_slot \<Rightarrow> bool" where
  "claimable s \<longleftrightarrow> flags s = ENQUEUED_BIT"

definition slot_ok :: "queue_slot \<Rightarrow> bool" where
  "slot_ok s \<longleftrightarrow> flags s \<in> {0, ENQUEUED_BIT, IN_PROGRESS_BIT, ENQUEUED_BIT OR IN_PROGRESS_BIT}"

text \<open>
  Between calls the flags of a slot are its two bits, and the count is the number of claimable slots.
\<close>

definition queue_inv :: "complex_queue \<Rightarrow> bool" where
  "queue_inv q \<longleftrightarrow>
     list_all slot_ok (queue q) \<and>
     unat (jobs_in_queue q) = count_if claimable (queue q) \<and>
     length (queue q) < 2 ^ 32 - 1"

text \<open>The effect of an enqueue on the slot of its bucket, as a specification.\<close>

definition enqueue_slot :: "nat \<Rightarrow> queue_slot \<Rightarrow> queue_slot" where
  "enqueue_slot offset s = 
    (if bit (jobs s) offset then s else s\<lparr>jobs := set_bit offset (jobs s), flags := flags s OR ENQUEUED_BIT\<rparr>)"

subsection \<open>Lemmas\<close>

lemmas flag_defs = ENQUEUED_BIT_def IN_PROGRESS_BIT_def

lemma trailing_zeros_spec:
  fixes w :: "'a::len word"
  assumes "w \<noteq> 0"
  shows "trailing_zeros w < LENGTH('a)" and "bit w (trailing_zeros w)"
    and "j < trailing_zeros w \<Longrightarrow> \<not> bit w j"
proof -
  let ?P = "\<lambda>i. \<not> bit w i" and ?xs = "[0..<LENGTH('a)]"
  obtain i where "bit w i" using assms by (auto simp: bit_eq_iff)
  then have "i \<in> set ?xs" and "\<not> ?P i" by (auto dest: bit_imp_le_length)
  then have "takeWhile ?P ?xs \<noteq> ?xs" by (metis takeWhile_eq_all_conv)
  then show len: "trailing_zeros w < LENGTH('a)"
    unfolding trailing_zeros_def
    by (metis length_takeWhile_le le_neq_implies_less length_upt minus_nat.diff_0 takeWhile_eq_take take_all_iff)
  then show "bit w (trailing_zeros w)"
    unfolding trailing_zeros_def using nth_length_takeWhile [of ?P ?xs] by simp
  show "j < trailing_zeros w \<Longrightarrow> \<not> bit w j"
    using len unfolding trailing_zeros_def
    by (metis (no_types, lifting) add_0 nth_mem nth_upt order_less_trans set_takeWhileD takeWhile_nth)
qed

lemma bit_shl1: "n < 64 \<Longrightarrow> bit (shl1 n) i \<longleftrightarrow> i = n"
  by (auto simp: shl1_def bit_exp_iff)

lemma shl1_trailing_zeros:
  "v \<noteq> 0 \<Longrightarrow> v AND NOT (shl1 (trailing_zeros v)) = unset_bit (trailing_zeros v) v" for v :: u64
  using trailing_zeros_spec(1) [of v]
  by (intro bit_word_eqI) (auto simp: bit_and_iff bit_not_iff bit_unset_bit_iff bit_shl1)

lemma and_shl1_eq_0: "n < 64 \<Longrightarrow> w AND shl1 n = 0 \<longleftrightarrow> \<not> bit w n" 
  by (auto simp: bit_eq_iff [of _ "0 :: u64"] bit_and_iff bit_shl1)

lemma or_shl1: "n < 64 \<Longrightarrow> w OR shl1 n = set_bit n w"
  by (intro bit_word_eqI) (auto simp: bit_or_iff bit_set_bit_iff bit_shl1)

lemma dequeue_slot_None: "dequeue_slot s = (None, s') \<longleftrightarrow> jobs s = 0 \<and> s' = s"
  by (auto simp: dequeue_slot_def Let_def)

lemma dequeue_slot_Some:
  assumes "dequeue_slot s = (Some i, s')"
  shows "bit (jobs s) i" and "i < 64" and "\<forall>j < i. \<not> bit (jobs s) j"
    and "s' = s\<lparr>jobs := unset_bit i (jobs s)\<rparr>"
  using assms trailing_zeros_spec [of "jobs s"] shl1_trailing_zeros [of "jobs s"]
  by (auto simp: dequeue_slot_def Let_def fetch_and_def split: if_splits)

lemma try_process_claimable [simp]:
  "claimable s \<Longrightarrow> try_process s = (True, s\<lparr>flags := IN_PROGRESS_BIT\<rparr>)"
  "\<not> claimable s \<Longrightarrow> try_process s = (False, s)"
  by (auto simp: try_process_def claimable_def compare_exchange_def)

lemma slot_ok_cases:
  assumes "slot_ok s"
  obtains "flags s = 0" | "flags s = 1" | "flags s = 2" | "flags s = 3"
  using assms by (auto simp: slot_ok_def flag_defs)

lemma mark_enqueued_flags:
  "flags s = 0 \<Longrightarrow> mark_enqueued s = (\<lparr>is_enqueued = False, is_in_progress = False\<rparr>, s\<lparr>flags := 1\<rparr>)"
  "flags s = 1 \<Longrightarrow> mark_enqueued s = (\<lparr>is_enqueued = True, is_in_progress = False\<rparr>, s\<lparr>flags := 1\<rparr>)"
  "flags s = 2 \<Longrightarrow> mark_enqueued s = (\<lparr>is_enqueued = False, is_in_progress = True\<rparr>, s\<lparr>flags := 3\<rparr>)"
  "flags s = 3 \<Longrightarrow> mark_enqueued s = (\<lparr>is_enqueued = True, is_in_progress = True\<rparr>, s\<lparr>flags := 3\<rparr>)"
  by (simp_all add: mark_enqueued_def fetch_or_def flag_defs)

lemma done_with_bucket_flags:
  "done_with_bucket s =
     (if flags s = 3 then Ok (GoAgain, s\<lparr>flags := 2\<rparr>)
      else if flags s = 2 then Ok (Done, s\<lparr>flags := 0\<rparr>)
      else Panic AssertFailed)"
  by (simp add: done_with_bucket_def compare_exchange_def flag_defs numeral_2_eq_2)

lemma increment_active_Ok:
  "unat g < 2 ^ 32 - 1 \<Longrightarrow> increment_active g = Ok (g + 1) \<and> unat (g + 1) = Suc (unat g)" for g :: u32
  using checked_inc_below [of g] by (auto simp: increment_active_def checked_inc_def unat_plus_one split: if_splits)

lemma decrement_active_Ok:
  "0 < unat g \<Longrightarrow> decrement_active g = Ok (g - 1) \<and> Suc (unat (g - 1)) = unat g" for g :: u32
  using checked_dec_pos [of g] by (auto simp: decrement_active_def checked_dec_def unat_minus_one_pos split: if_splits)

lemma queue_inv_update:
  assumes inv: "queue_inv q" and b: "b < length (queue q)" and s: "slot_ok s"
    and q': "queue q' = (queue q)[b := s]"
    and c: "unat (jobs_in_queue q') + (if claimable (queue q ! b) then 1 else 0) =
      unat (jobs_in_queue q) + (if claimable s then 1 else 0)"
  shows "queue_inv q'"
proof -
  have "list_all slot_ok ((queue q)[b := s])"
    using inv b s by (auto simp: queue_inv_def list_all_length nth_list_update)
  then show ?thesis
    using inv c q' count_if_update [OF b, of claimable s] by (simp add: queue_inv_def)
qed

lemma helper_spec:
  assumes inv: "queue_inv q" and b: "bucket < length (queue q)" and off: "offset < 64"
  shows "\<exists>q'. helper bucket offset q = 
      Ok (\<not> bit (jobs (queue q ! bucket)) offset \<and> flags (queue q ! bucket) = 0, q') \<and> 
     queue q' = (queue q)[bucket := enqueue_slot offset (queue q ! bucket)] \<and> 
     cq_io_resources q' = cq_io_resources q \<and> queue_inv q'"
proof -
  let ?s = "queue q ! bucket"
  have ok: "slot_ok ?s" and cnt: "unat (jobs_in_queue q) = count_if claimable (queue q)"
    and len: "length (queue q) < 2 ^ 32 - 1"
    using inv b by (auto simp: queue_inv_def list_all_length)
  have "unat (jobs_in_queue q) < 2 ^ 32 - 1" 
    using cnt len count_if_le [of claimable "queue q"] by simp
  note inc = increment_active_Ok [OF this]
  note dec = decrement_active_Ok [of "jobs_in_queue q + 1"]
  show ?thesis
  proof (cases "bit (jobs ?s) offset")
    case True
    then have "jobs ?s AND shl1 offset \<noteq> 0" "jobs ?s OR shl1 offset = jobs ?s"
      using off by (auto simp: and_shl1_eq_0 or_shl1 set_bit_eq_idem_iff)
    then show ?thesis using True inv
      by (simp add: helper_def fetch_or_def enqueue_slot_def)
  next
    case False
    then have m: "jobs ?s AND shl1 offset = 0" "jobs ?s OR shl1 offset = set_bit offset (jobs ?s)"
      using off by (auto simp: and_shl1_eq_0 or_shl1)
    show ?thesis
    using ok proof (cases rule: slot_ok_cases)
      case 1
      with False m inc dec b cnt inv show ?thesis
        using queue_inv_update [OF inv b, of "enqueue_slot offset ?s"]
        by (simp add: helper_def Let_def fetch_or_def mark_enqueued_flags increment_jobs_available_def
          decrement_jobs_available_def enqueue_slot_def slot_ok_def claimable_def flag_defs)
    next
      case 2
      with False m inc dec b cnt inv show ?thesis
        using queue_inv_update [OF inv b, of "enqueue_slot offset ?s"]
        by (simp add: helper_def Let_def fetch_or_def mark_enqueued_flags increment_jobs_available_def
          decrement_jobs_available_def enqueue_slot_def slot_ok_def claimable_def flag_defs)
    next
      case 3
      with False m inc dec b cnt inv show ?thesis
        using queue_inv_update [OF inv b, of "enqueue_slot offset ?s"]
        by (simp add: helper_def Let_def fetch_or_def mark_enqueued_flags increment_jobs_available_def
          decrement_jobs_available_def enqueue_slot_def slot_ok_def claimable_def flag_defs)
    next
      case 4
      with False m inc dec b cnt inv show ?thesis
        using queue_inv_update [OF inv b, of "enqueue_slot offset ?s"]
        by (simp add: helper_def Let_def fetch_or_def mark_enqueued_flags increment_jobs_available_def
          decrement_jobs_available_def enqueue_slot_def slot_ok_def claimable_def flag_defs)
    qed
  qed
qed

lemma helper_claimable:
  assumes a: "queue_inv q" "b < length (queue q)" "i < 64" and h: "helper b i q = Ok (w, q')"
  shows "(b' < length (queue q') \<and> claimable (queue q' ! b')) =
     (b' < length (queue q) \<and> claimable (queue q ! b') \<or> b' = b \<and> w)"
proof -
  have "slot_ok (queue q ! b)" using a by (auto simp: queue_inv_def list_all_length)
  then show ?thesis
  using helper_spec [OF a] h a(2)
    by (cases rule: slot_ok_cases)
     (auto simp: nth_list_update enqueue_slot_def claimable_def flag_defs split: if_splits)
qed

lemma try_dequeue_from_spec:
  assumes "queue_inv q" and "i + n = length (queue q)"
  shows "(case find (\<lambda>k. claimable (queue q ! k)) [i..<length (queue q)] of
      None \<Rightarrow> try_dequeue_from n i q = Ok (None, q)
    | Some k \<Rightarrow> \<exists>q'. try_dequeue_from n i q = Ok (Some k, q') \<and> queue_inv q' \<and>
        queue q' = (queue q)[k := (queue q ! k)\<lparr>flags := IN_PROGRESS_BIT\<rparr>] \<and>
        cq_io_resources q' = cq_io_resources q)"
  using assms
proof (induction n arbitrary: i)
  case 0
  then show ?case by simp
next
  case (Suc n)
  then have i: "i < length (queue q)" by simp
  show ?case
  proof (cases "claimable (queue q ! i)")
    case True
    have "0 < unat (jobs_in_queue q)"
      using Suc.prems(1) count_if_pos [of i _ claimable, OF i True] by (simp add: queue_inv_def)
    note dec = decrement_active_Ok [OF this]
    have "find (\<lambda>k. claimable (queue q ! k)) [i..<length (queue q)] = Some i"
      using i True by (simp add: upt_conv_Cons)
    moreover have "slot_ok ((queue q ! i)\<lparr>flags := IN_PROGRESS_BIT\<rparr>)"
      by (simp add: slot_ok_def)
    ultimately show ?thesis
      using dec True queue_inv_update [OF Suc.prems(1) i, of "(queue q ! i)\<lparr>flags := IN_PROGRESS_BIT\<rparr>"]
      by (simp add: decrement_jobs_available_def claimable_def flag_defs)
  next
    case False
    then have "find (\<lambda>k. claimable (queue q ! k)) [i..<length (queue q)] = 
       find (\<lambda>k. claimable (queue q ! k)) [Suc i..<length (queue q)]"
      using i by (simp add: upt_conv_Cons)
    moreover have "try_dequeue_from (Suc n) i q = try_dequeue_from n (Suc i) q"
      using False by simp
    ultimately show ?thesis
      using Suc.IH [of "Suc i"] Suc.prems by (simp only:)
  qed
qed

lemma find_upt_least:
  "find P [0..<n] = Some k \<longleftrightarrow> k < n \<and> P k \<and> (\<forall>j<k. \<not> P j)"
  by (auto simp: find_Some_iff)

lemma find_upt_None: "find P [0..<n] = None \<longleftrightarrow> (\<forall>j<n. \<not> P j)"
  by (auto simp: find_None_iff)


text \<open>Claiming a bucket: the first claimable slot, or nothing when there is none.\<close>

lemma try_dequeue_None:
  assumes "queue_inv q" and "\<forall>k < length (queue q). \<not> claimable (queue q ! k)"
  shows "try_dequeue q = Ok (None, q)"
  using try_dequeue_from_spec [OF assms(1), of 0 "length (queue q)"] assms(2)
  by (simp add: try_dequeue_def flip: find_upt_None)

lemma try_dequeue_Some:
  assumes inv: "queue_inv q" and k: "k < length (queue q)" "claimable (queue q ! k)"
    and least: "\<forall>j < k. \<not> claimable (queue q ! j)"
  shows "\<exists>q'. try_dequeue q = Ok (Some \<lparr>bi_identifier = 0, bi_index = of_nat k\<rparr>, q') \<and> queue_inv q' \<and>
    queue q' = (queue q)[k := (queue q ! k)\<lparr>flags := IN_PROGRESS_BIT\<rparr>] \<and>
    cq_io_resources q' = cq_io_resources q"
proof -
  have "find (\<lambda>k. claimable (queue q ! k)) [0..<length (queue q)] = Some k"
    using k least by (simp add: find_upt_least)
  then show ?thesis
    using try_dequeue_from_spec [OF inv, of 0 "length (queue q)"] by (auto simp: try_dequeue_def)
qed

lemma first_claimable:
  assumes "queue_inv q" and "jobs_in_queue q \<noteq> 0"
  obtains k where "k < length (queue q)" "claimable (queue q ! k)" "\<forall>j < k. \<not> claimable (queue q ! j)"
proof -
  have "0 < count_if claimable (queue q)"
    using assms by (simp add: queue_inv_def flip: unat_gt_0)
  then obtain i where "i < length (queue q) \<and> claimable (queue q ! i)"
    by (auto simp: count_if_pos_iff)
  from exists_least_iff [of "\<lambda>i. i < length (queue q) \<and> claimable (queue q ! i)"] this that
  show thesis by (metis order_less_trans)
qed

lemma initial_enqueue_helper:
  assumes wf: "io_wf (cq_io_resources q)"
    and qi: "unat (qi_index qi) =
      k * (unat (tcp_streams (cq_io_resources q)) + unat (http_connections (cq_io_resources q))) + j"
    and j: "j < unat (tcp_streams (cq_io_resources q)) + unat (http_connections (cq_io_resources q))"
    and k: "k < 1000" "k < length (queue q)"
  shows "initial_enqueue qi q = helper k j q"
proof -
  let ?r = "cq_io_resources q"
  note per = unat_per_bucket [OF wf] unat_per_bucket_u32 [OF wf]
  have n: "unat ((ucast (qi_index qi) :: usize) mod per_bucket ?r) = j"
    using per_bucket_mod [OF wf qi j] .
  have nz: "per_bucket ?r \<noteq> 0" using per(1) j by (metis less_nat_zero_code unat_0)
  show ?thesis
    using to_bucket_index_spec [OF wf qi j k(1)] nz n k
    by (simp add: initial_enqueue_def Let_def unat_of_nat)
qed

subsection \<open>The contract the executor relies on\<close>

text \<open>
  Enqueuing records the job and makes the bucket claimable exactly when it reports a wake-up;
  claiming returns a claimable bucket whenever there is one.
\<close>

locale job_queue =
  fixes inv :: "'q \<Rightarrow> bool"
    and slots :: "'q \<Rightarrow> nat"
    and ready :: "'q \<Rightarrow> nat \<Rightarrow> bool"
    and pending :: "'q \<Rightarrow> nat \<Rightarrow> nat \<Rightarrow> bool"
    and enq :: "nat \<Rightarrow> nat \<Rightarrow> 'q \<Rightarrow> (bool \<times> 'q) outcome"
    and claim :: "'q \<Rightarrow> (bucket_index option \<times> 'q) outcome"
  assumes enq_total: "inv q \<Longrightarrow> b < slots q \<Longrightarrow> i < 64 \<Longrightarrow> \<exists>r. enq b i q = Ok r"
    and enq_inv: "inv q \<Longrightarrow> b < slots q \<Longrightarrow> i < 64 \<Longrightarrow> enq b i q = Ok (w, q') \<Longrightarrow>
      inv q' \<and> slots q' = slots q"
    and enq_pending: "inv q \<Longrightarrow> b < slots q \<Longrightarrow> i < 64 \<Longrightarrow> enq b i q = Ok (w, q') \<Longrightarrow>
      pending q' b' i' \<longleftrightarrow> pending q b' i' \<or> b' = b \<and> i' = i"
    and enq_ready: "inv q \<Longrightarrow> b < slots q \<Longrightarrow> i < 64 \<Longrightarrow> enq b i q = Ok (w, q') \<Longrightarrow>
      ready q' b' \<longleftrightarrow> ready q b' \<or> b' = b \<and> w"
    and claim_none: "inv q \<Longrightarrow> \<forall>b < slots q. \<not> ready q b \<Longrightarrow> claim q = Ok (None, q)"
    and claim_some: "inv q \<Longrightarrow> b < slots q \<Longrightarrow> ready q b \<Longrightarrow>
      \<exists>k q'. claim q = Ok (Some k, q') \<and> unat (bi_index k) \<le> b \<and> ready q (unat (bi_index k)) \<and> inv q'"
begin

fun enq_all :: "(nat \<times> nat) list \<Rightarrow> 'q \<Rightarrow> 'q outcome" where
  "enq_all [] q = Ok q"
| "enq_all ((b, i) # bs) q = bind_outcome (enq b i q) (\<lambda>(_, q'). enq_all bs q')"

lemma enq_all_pending:
  assumes "inv q" and "\<forall>(b, i) \<in> set bs. b < slots q \<and> i < 64"
  shows "\<exists>q'. enq_all bs q = Ok q' \<and> inv q' \<and> slots q' = slots q \<and>
    (\<forall>b i. pending q' b i \<longleftrightarrow> pending q b i \<or> (b, i) \<in> set bs)"
  using assms
proof (induction bs arbitrary: q)
  case Nil
  then show ?case by simp
next
  case (Cons x bs)
  obtain b i where x: "x = (b, i)" by (cases x)
  with Cons.prems have bi: "b < slots q" "i < 64" by auto
  from enq_total [OF Cons.prems(1) bi] obtain w q1 where e: "enq b i q = Ok (w, q1)" by auto
  note q1 = enq_inv [OF Cons.prems(1) bi e] enq_pending [OF Cons.prems(1) bi e]
  have "\<exists>q'. enq_all bs q1 = Ok q' \<and> inv q' \<and> slots q' = slots q1 \<and>
    (\<forall>b i. pending q' b i \<longleftrightarrow> pending q1 b i \<or> (b, i) \<in> set bs)"
    by (rule Cons.IH) (use q1 Cons.prems in auto)
  with q1 e x show ?case by auto
qed

lemma wake_then_claim:
  assumes "inv q" and "b < slots q" and "i < 64" and "enq b i q = Ok (True, q')"
  shows "\<exists>k q''. claim q' = Ok (Some k, q'') \<and> inv q''"
  using claim_some [of q' b] enq_ready [OF assms] enq_inv [OF assms] assms(2) by auto

end

interpretation cq: job_queue queue_inv "\<lambda>q. length (queue q)" "\<lambda>q b. b < length (queue q) \<and> claimable (queue q ! b)"
  "\<lambda>q b i. b < length (queue q) \<and> bit (jobs (queue q ! b)) i" helper try_dequeue
proof unfold_locales
  fix q :: complex_queue and b i :: nat
  assume a: "queue_inv q" "b < length (queue q)" "i < 64"
  show "\<exists>r. helper b i q = Ok r"
    using helper_spec [OF a] by blast
next
  fix q q' :: complex_queue and b i b' i' :: nat and w
  assume a: "queue_inv q" "b < length (queue q)" "i < 64" and h: "helper b i q = Ok (w, q')"
  show "queue_inv q' \<and> length (queue q') = length (queue q)"
    using helper_spec [OF a] h by auto
  show "(b' < length (queue q') \<and> bit (jobs (queue q' ! b')) i') =
     (b' < length (queue q) \<and> bit (jobs (queue q ! b')) i' \<or> b' = b \<and> i' = i)"
    using helper_spec [OF a] h a 
    by (auto simp: nth_list_update enqueue_slot_def bit_set_bit_iff dest: bit_imp_le_length)
  show "(b' < length (queue q') \<and> claimable (queue q' ! b')) =
     (b' < length (queue q) \<and> claimable (queue q ! b') \<or> b' = b \<and> w)"
    using helper_claimable [OF a h] .
next
  fix q :: complex_queue
  assume "queue_inv q" "\<forall>b < length (queue q). \<not> (b < length (queue q) \<and> claimable (queue q ! b))"
  then show "try_dequeue q = Ok (None, q)" by (intro try_dequeue_None) auto
next
  fix q :: complex_queue and b
  assume a: "queue_inv q" "b < length (queue q)" "b < length (queue q) \<and> claimable (queue q ! b)"
  then have "0 < count_if claimable (queue q)" using count_if_pos by blast
  then have "jobs_in_queue q \<noteq> 0" using a(1) by (auto simp: queue_inv_def)
  from first_claimable [OF a(1) this] obtain k where
    k: "k < length (queue q)" "claimable (queue q ! k)" "\<forall>j < k. \<not> claimable (queue q ! j)" .
  have "k \<le> b" using k(3) a(3) by (meson not_le_imp_less)
  moreover have "unat (of_nat k :: u32) = k"
    using k(1) a(1) by (simp add: queue_inv_def unat_of_nat)
  ultimately show "\<exists>k q'. try_dequeue q = Ok (Some k, q') \<and> unat (bi_index k) \<le> b \<and>
      (unat (bi_index k) < length (queue q) \<and> claimable (queue q ! unat (bi_index k))) \<and> queue_inv q'"
    using try_dequeue_Some [OF a(1) k] k by fastforce
qed

lemma blocking_dequeue_returns:
  assumes "queue_inv q" and "jobs_in_queue q \<noteq> 0"
  obtains k q' where "blocking_dequeue q = Some (Ok (\<lparr>bi_identifier = 0, bi_index = of_nat k\<rparr>, q'))"
    "k < length (queue q)" "claimable (queue q ! k)" "\<forall>j < k. \<not> claimable (queue q ! j)" "queue_inv q'"
    "queue q' = (queue q)[k := (queue q ! k)\<lparr>flags := IN_PROGRESS_BIT\<rparr>]"
proof -
  from first_claimable [OF assms] obtain k where
    k: "k < length (queue q)" "claimable (queue q ! k)" "\<forall>j < k. \<not> claimable (queue q ! j)" .
  from try_dequeue_Some [OF assms(1) k] that [of k] k assms(2) show thesis
    by (subst (asm) blocking_dequeue.simps) (auto simp: wait_active_def)
qed

subsection \<open>Properties\<close>

text \<open>
  \<open>QueueSlot::dequeue\<close> returns the lowest set bit of the job mask and clears exactly that bit,
  and returns nothing exactly when the mask is zero.
\<close>

theorem dequeue_takes_lowest_job:
  "case dequeue_slot s of
     (None, s') \<Rightarrow> jobs s = 0 \<and> s' = s
   | (Some i, s') \<Rightarrow> i < 64 \<and> bit (jobs s) i \<and> (\<forall>j. bit (jobs s) j \<longleftrightarrow> j = i \<or> bit (jobs s') j) \<and>
       \<not> bit (jobs s') i \<and> i = (LEAST j. bit (jobs s) j) \<and> flags s' = flags s"
proof (cases "dequeue_slot s")
  case (Pair o' s')
  show ?thesis
  proof (cases o')
    case None
    with Pair dequeue_slot_None [of s s'] show ?thesis by simp
  next
    case (Some i)
    with Pair have d: "dequeue_slot s = (Some i, s')" by simp
    note f = dequeue_slot_Some [OF d]
    have "i = (LEAST j. bit (jobs s) j)"
      using f(1,3) by (metis (mono_tags, lifting) LeastI Least_le le_neq_implies_less)
    moreover have "bit (jobs s) j \<longleftrightarrow> j = i \<or> bit (jobs s') j" for j
      using f by (auto simp: bit_unset_bit_iff)
    moreover have "\<not> bit (jobs s') i" "flags s' = flags s"
      using f(4) by (simp_all add: bit_unset_bit_iff)
    ultimately show ?thesis
      unfolding Pair Some prod.case option.case using f(1,2) by blast
  qed
qed

text \<open>
  C7: an enqueue of a queue index of an existing bucket never panics, sets its job bit, marks the
  bucket enqueued when the bit was new, keeps the count equal to the number of claimable
  buckets, and wakes a worker exactly when the bucket was neither enqueued nor in progress.
\<close>

theorem initial_enqueue_correct:
  assumes inv: "queue_inv q" and wf: "io_wf (cq_io_resources q)"
    and qi: "unat (qi_index qi) = k * unat (per_bucket (cq_io_resources q)) + j"
    and j: "j < unat (per_bucket (cq_io_resources q))"
    and k: "k < 1000" "k < length (queue q)"
  shows "\<exists>q'. initial_enqueue qi q =
      Ok (\<not> bit (jobs (queue q ! k)) j \<and> flags (queue q ! k) = 0, q') \<and>
    queue q' = (queue q)[k := enqueue_slot j (queue q ! k)] \<and> queue_inv q'"
proof -
  have "j < 64" using j wf by (simp add: unat_per_bucket io_wf_def)
  moreover have "initial_enqueue qi q = helper k j q"
    by (rule initial_enqueue_helper) (use wf qi j k in \<open>simp_all add: unat_per_bucket\<close>)
  ultimately show ?thesis using helper_spec [OF inv k(2), of j] by auto
qed

theorem initial_enqueue_correct_witness:
  "\<exists>q'. initial_enqueue \<lparr>qi_identifier = 0, qi_index = 6\<rparr>
      (with_capacity 3 \<lparr>tcp_streams = 1, http_connections = 4\<rparr>) = Ok (True, q') \<and> queue_inv q'"
proof -
  let ?r = "\<lparr>tcp_streams = 1, http_connections = 4\<rparr>" and ?q = "with_capacity 3 \<lparr>tcp_streams = 1, http_connections = 4\<rparr>"
  have "queue_inv ?q" 
    by (simp add: queue_inv_def with_capacity_def empty_slot_def slot_ok_def claimable_def flag_defs list_all_iff)
  from initial_enqueue_correct [OF this, of "\<lparr>qi_identifier = 0, qi_index = 6\<rparr>" 1 1] show ?thesis
    by (auto simp: with_capacity_def io_wf_def per_bucket_def empty_slot_def nth_Cons')
qed

text \<open>
  C8: a worker that dequeues gets the first claimable bucket and marks it in progress; the call
  returns as soon as the count is not zero, and with a zero count the worker sleeps.
\<close>

theorem blocking_dequeue_claims_first:
  assumes inv: "queue_inv q"
  shows "if jobs_in_queue q = 0 then blocking_dequeue q = None
    else \<exists>k q'. blocking_dequeue q = Some (Ok (\<lparr>bi_identifier = 0, bi_index = of_nat k\<rparr>, q')) \<and>
      k < length (queue q) \<and> claimable (queue q ! k) \<and> (\<forall>j < k. \<not> claimable (queue q ! j)) \<and> queue_inv q' \<and>
      queue q' = (queue q)[k := (queue q ! k)\<lparr>flags := IN_PROGRESS_BIT\<rparr>]"
proof (cases "jobs_in_queue q = 0")
  case True
  then show ?thesis by (subst blocking_dequeue.simps) (simp add: wait_active_def)
next
  case False
  from blocking_dequeue_returns [OF inv this] False show ?thesis by metis
qed

theorem blocking_dequeue_claims_first_witness:
  "\<exists>q'. blocking_dequeue \<lparr>queue = [empty_slot, \<lparr>flags = 1, jobs = 1\<rparr>, \<lparr>flags = 1, jobs = 2\<rparr>], jobs_in_queue = 2,
      cq_io_resources = default_io_resources\<rparr> = Some (Ok (\<lparr>bi_identifier = 0, bi_index = 1\<rparr>, q')) \<and>
    queue q' = [empty_slot, \<lparr>flags = 2, jobs = 1\<rparr>, \<lparr>flags = 1, jobs = 2\<rparr>]"
proof -
  let ?q = "\<lparr>queue = [empty_slot, \<lparr>flags = 1, jobs = 1\<rparr>, \<lparr>flags = 1, jobs = 2\<rparr>], jobs_in_queue = 2,
      cq_io_resources = default_io_resources\<rparr>"
  have "queue_inv ?q" by (simp add: queue_inv_def empty_slot_def slot_ok_def claimable_def flag_defs)
  from blocking_dequeue_claims_first [OF this] obtain k q' where
    k: "blocking_dequeue ?q = Some (Ok (\<lparr>bi_identifier = 0, bi_index = of_nat k\<rparr>, q'))"
      "claimable (queue ?q ! k)" "\<forall>j < k. \<not> claimable (queue ?q ! j)" "k < length (queue ?q)"
      "queue q' = (queue ?q)[k := (queue ?q ! k)\<lparr>flags := IN_PROGRESS_BIT\<rparr>]"
    by auto
  have "k \<noteq> 0" using k(2) by (intro notI) (simp add: empty_slot_def claimable_def flag_defs)
  moreover have "\<not> 1 < k" using k(3) by (auto dest: spec [of _ 1] simp: claimable_def flag_defs)
  ultimately have "k = 1" by simp
  then show ?thesis using k(1,5) by (simp add: flag_defs)
qed

end
