(* ===== verification/Queue_Concurrent.thy ===== *)
theory Queue_Concurrent
  imports Queue
begin

section \<open>The job queue under all interleavings\<close>

text \<open>
  The operations of \<^verbatim>\<open>nea/src/queue.rs\<close> split at their atomic accesses and run by any number of
  threads. A thread that enqueues is in a call of \<open>helper\<close>; a worker is in \<open>blocking_dequeue\<close>, in
  \<open>run_bucket\<close> or in \<open>done_with_bucket\<close>. One action is one atomic read-modify-write, one load, or
  one critical section of the count's mutex; the scheduler picks the next action freely.
  Enqueue calls made by a worker while it polls are steps of a thread of their own, which only
  adds interleavings. Atomic accesses are sequentially consistent, which the locked
  read-modify-write instructions of x86-64, the only supported platform, provide.
\<close>

subsection \<open>Program counters\<close>

datatype helper_pc =
    HIdle
  | HSetJob nat nat
  | HIncrement nat
  | HMark nat
  | HNotify
  | HDecrement
  | HPanicked panic

datatype worker_pc =
    WWait
  | WSleep
  | WScan nat
  | WClaimed nat
  | WLoad nat
  | WClear nat nat
  | WPoll nat nat
  | WDone nat nat
  | WClearProgress nat nat
  | WPanicked panic

record qsys =
  qs_slots :: "queue_slot list"
  qs_count :: u32
  qs_helpers :: "helper_pc list"
  qs_workers :: "worker_pc list"

text \<open>
  \<open>Call h b j\<close>: thread \<open>h\<close> enters \<open>helper\<close> for job \<open>j\<close> of bucket \<open>b\<close>. \<open>Helper h\<close> and \<open>Worker w\<close>: the
  next access of that thread. \<open>Notify h w\<close>: \<open>notify_one\<close> of \<open>h\<close> wakes the sleeping worker \<open>w\<close>.
  \<open>Spurious w\<close>: the condition variable wakes \<open>w\<close> for no reason. \<open>Forever w\<close>: the poll ended the
  request, so \<open>run_bucket\<close> returns without looking at the remaining jobs.
\<close>

datatype action =
    Call nat nat nat
  | Helper nat
  | Notify nat nat
  | Worker nat
  | Spurious nat
  | Forever nat

subsection \<open>Steps\<close>

fun helper_step :: "helper_pc \<Rightarrow> queue_slot list \<Rightarrow> u32 \<Rightarrow> helper_pc \<times> queue_slot list \<times> u32" where
  "helper_step (HSetJob b j) slots n =
     (let (old_jobs, new_jobs) = fetch_or (jobs (slots ! b)) (shl1 j)
      in (if old_jobs AND shl1 j \<noteq> 0 then HIdle else HIncrement b,
          slots[b := (slots ! b)\<lparr>jobs := new_jobs\<rparr>], n))"
| "helper_step (HIncrement b) slots n =
     (case increment_active n of
        Inl p \<Rightarrow> (HPanicked p, slots, n)
      | Inr n' \<Rightarrow> (HMark b, slots, n'))"
| "helper_step (HMark b) slots n =
     (let (old, slot) = mark_enqueued (slots ! b)
      in (if \<not> is_enqueued old \<and> \<not> is_in_progress old then HNotify else HDecrement,
          slots[b := slot], n))"
| "helper_step HNotify slots n = (HIdle, slots, n)"
| "helper_step HDecrement slots n =
     (case decrement_active n of
        Inl p \<Rightarrow> (HPanicked p, slots, n)
      | Inr n' \<Rightarrow> (HIdle, slots, n'))"
| "helper_step pc slots n = (pc, slots, n)"

fun worker_step :: "worker_pc \<Rightarrow> queue_slot list \<Rightarrow> u32 \<Rightarrow> worker_pc \<times> queue_slot list \<times> u32" where
  "worker_step WWait slots n =
     (case wait_active n of None \<Rightarrow> (WSleep, slots, n) | Some _ \<Rightarrow> (WScan 0, slots, n))"
| "worker_step (WScan i) slots n =
     (if i < length slots
      then let (ok, slot) = try_process (slots ! i)
           in (if ok then WClaimed i else WScan (Suc i), slots[i := slot], n)
      else (WWait, slots, n))"
| "worker_step (WClaimed i) slots n =
     (case decrement_active n of
        Inl p \<Rightarrow> (WPanicked p, slots, n)
      | Inr n' \<Rightarrow> (WLoad i, slots, n'))"
| "worker_step (WLoad i) slots n =
     (let v = jobs (slots ! i)
      in (if v = 0 then WDone i 2 else WClear i (trailing_zeros v), slots, n))"
| "worker_step (WClear i j) slots n =
     (WPoll i j,
      slots[i := (slots ! i)\<lparr>jobs := snd (fetch_and (jobs (slots ! i)) (NOT (shl1 j)))\<rparr>], n)"
| "worker_step (WPoll i j) slots n = (WLoad i, slots, n)"
| "worker_step (WDone i 0) slots n = (WPanicked Unreachable, slots, n)"
| "worker_step (WDone i (Suc k)) slots n =
     (case compare_exchange (flags (slots ! i)) (ENQUEUED_BIT OR IN_PROGRESS_BIT) IN_PROGRESS_BIT of
        (Inr _, f) \<Rightarrow> (WLoad i, slots[i := (slots ! i)\<lparr>flags := f\<rparr>], n)
      | (Inl state, f) \<Rightarrow>
          (if state \<noteq> IN_PROGRESS_BIT then WPanicked AssertFailed else WClearProgress i k,
           slots[i := (slots ! i)\<lparr>flags := f\<rparr>], n))"
| "worker_step (WClearProgress i k) slots n =
     (case compare_exchange (flags (slots ! i)) IN_PROGRESS_BIT 0 of
        (Inl _, f) \<Rightarrow> (WDone i k, slots[i := (slots ! i)\<lparr>flags := f\<rparr>], n)
      | (Inr _, f) \<Rightarrow> (WWait, slots[i := (slots ! i)\<lparr>flags := f\<rparr>], n))"
| "worker_step pc slots n = (pc, slots, n)"

fun is_poll :: "worker_pc \<Rightarrow> bool" where
  "is_poll (WPoll i j) = True"
| "is_poll _ = False"

fun poll_bucket :: "worker_pc \<Rightarrow> nat" where
  "poll_bucket (WPoll i j) = i"
| "poll_bucket _ = 0"

fun qstep :: "action \<Rightarrow> qsys \<Rightarrow> qsys option" where
  "qstep (Call h b j) s =
     (if h < length (qs_helpers s) \<and> qs_helpers s ! h = HIdle \<and> b < length (qs_slots s) \<and> j < 64
      then Some (s\<lparr>qs_helpers := (qs_helpers s)[h := HSetJob b j]\<rparr>) else None)"
| "qstep (Helper h) s =
     (if h < length (qs_helpers s) \<and> (qs_helpers s ! h = HNotify \<longrightarrow> WSleep \<notin> set (qs_workers s))
      then let (pc, slots, n) = helper_step (qs_helpers s ! h) (qs_slots s) (qs_count s)
           in Some (s\<lparr>qs_slots := slots, qs_count := n, qs_helpers := (qs_helpers s)[h := pc]\<rparr>)
      else None)"
| "qstep (Notify h w) s =
     (if h < length (qs_helpers s) \<and> qs_helpers s ! h = HNotify \<and>
         w < length (qs_workers s) \<and> qs_workers s ! w = WSleep
      then Some (s\<lparr>qs_helpers := (qs_helpers s)[h := HIdle], qs_workers := (qs_workers s)[w := WWait]\<rparr>)
      else None)"
| "qstep (Worker w) s =
     (if w < length (qs_workers s) \<and> qs_workers s ! w \<noteq> WSleep
      then let (pc, slots, n) = worker_step (qs_workers s ! w) (qs_slots s) (qs_count s)
           in Some (s\<lparr>qs_slots := slots, qs_count := n, qs_workers := (qs_workers s)[w := pc]\<rparr>)
      else None)"
| "qstep (Spurious w) s =
     (if w < length (qs_workers s) \<and> qs_workers s ! w = WSleep
      then Some (s\<lparr>qs_workers := (qs_workers s)[w := WWait]\<rparr>) else None)"
| "qstep (Forever w) s =
     (if w < length (qs_workers s) \<and> is_poll (qs_workers s ! w)
      then Some (s\<lparr>qs_workers := (qs_workers s)[w := WDone (poll_bucket (qs_workers s ! w)) 2]\<rparr>)
      else None)"

text \<open>The start: an empty queue, \<open>h\<close> threads that may enqueue, \<open>w\<close> workers.\<close>

definition qinit :: "nat \<Rightarrow> nat \<Rightarrow> nat \<Rightarrow> qsys" where
  "qinit n h w =
     \<lparr>qs_slots = replicate n empty_slot, qs_count = 0,
      qs_helpers = replicate h HIdle, qs_workers = replicate w WWait\<rparr>"

inductive reachable :: "nat \<Rightarrow> nat \<Rightarrow> nat \<Rightarrow> qsys \<Rightarrow> bool" for n h w where
  start: "reachable n h w (qinit n h w)"
| step: "reachable n h w s \<Longrightarrow> qstep a s = Some t \<Longrightarrow> reachable n h w t"

fun qrun :: "action list \<Rightarrow> qsys \<Rightarrow> qsys option" where
  "qrun [] s = Some s"
| "qrun (a # as) s = (case qstep a s of None \<Rightarrow> None | Some t \<Rightarrow> qrun as t)"

subsection \<open>The invariant\<close>

fun owns :: "nat \<Rightarrow> worker_pc \<Rightarrow> bool" where
  "owns i (WClaimed k) = (k = i)"
| "owns i (WLoad k) = (k = i)"
| "owns i (WClear k _) = (k = i)"
| "owns i (WPoll k _) = (k = i)"
| "owns i (WDone k _) = (k = i)"
| "owns i (WClearProgress k _) = (k = i)"
| "owns i _ = False"

fun just_claimed :: "worker_pc \<Rightarrow> bool" where
  "just_claimed (WClaimed k) = True"
| "just_claimed _ = False"

fun searching :: "worker_pc \<Rightarrow> bool" where
  "searching WWait = True"
| "searching (WScan i) = True"
| "searching _ = False"

text \<open>A call that has incremented the count and not yet made a slot claimable or reverted.\<close>

fun counted :: "helper_pc \<Rightarrow> bool" where
  "counted (HMark b) = True"
| "counted HDecrement = True"
| "counted _ = False"

definition in_progress :: "queue_slot \<Rightarrow> bool" where
  "in_progress s \<longleftrightarrow> flags s = 2 \<or> flags s = 3"

fun worker_ok :: "queue_slot list \<Rightarrow> worker_pc \<Rightarrow> bool" where
  "worker_ok slots (WClaimed i) = (i < length slots)"
| "worker_ok slots (WLoad i) = (i < length slots)"
| "worker_ok slots (WClear i j) = (i < length slots \<and> j < 64 \<and> bit (jobs (slots ! i)) j)"
| "worker_ok slots (WPoll i j) = (i < length slots)"
| "worker_ok slots (WDone i k) = (i < length slots \<and> (k = 2 \<or> k = 1 \<and> flags (slots ! i) = 3))"
| "worker_ok slots (WClearProgress i k) = (i < length slots \<and> k = 1)"
| "worker_ok slots (WPanicked p) = False"
| "worker_ok slots pc = True"

fun helper_ok :: "nat \<Rightarrow> helper_pc \<Rightarrow> bool" where
  "helper_ok n (HSetJob b j) = (b < n \<and> j < 64)"
| "helper_ok n (HIncrement b) = (b < n)"
| "helper_ok n (HMark b) = (b < n)"
| "helper_ok n (HPanicked p) = False"
| "helper_ok n pc = True"

definition slots_inv :: "qsys \<Rightarrow> bool" where
  "slots_inv s \<longleftrightarrow> list_all slot_ok (qs_slots s)"

definition count_inv :: "qsys \<Rightarrow> bool" where
  "count_inv s \<longleftrightarrow> unat (qs_count s) =
     count_if claimable (qs_slots s) + count_if counted (qs_helpers s) + count_if just_claimed (qs_workers s)"

definition owner_inv :: "qsys \<Rightarrow> bool" where
  "owner_inv s \<longleftrightarrow> (\<forall>i < length (qs_slots s).
     count_if (owns i) (qs_workers s) = (if in_progress (qs_slots s ! i) then 1 else 0))"

definition threads_inv :: "qsys \<Rightarrow> bool" where
  "threads_inv s \<longleftrightarrow> list_all (worker_ok (qs_slots s)) (qs_workers s) \<and>
     list_all (helper_ok (length (qs_slots s))) (qs_helpers s)"

definition small_inv :: "qsys \<Rightarrow> bool" where
  "small_inv s \<longleftrightarrow> length (qs_slots s) + length (qs_helpers s) + length (qs_workers s) < 2 ^ 32"

definition wake_inv :: "qsys \<Rightarrow> bool" where
  "wake_inv s \<longleftrightarrow> (WSleep \<in> set (qs_workers s) \<longrightarrow>
     count_if claimable (qs_slots s) \<le> count_if ((=) HNotify) (qs_helpers s) + count_if searching (qs_workers s))"

definition qinv :: "qsys \<Rightarrow> bool" where
  "qinv s \<longleftrightarrow> slots_inv s \<and> count_inv s \<and> owner_inv s \<and> threads_inv s \<and> small_inv s \<and> wake_inv s"

text \<open>
  A job is covered when somebody is going to look at it: its bucket is enqueued, an enqueue of
  the bucket is under way, or the bucket's worker has not finished looking for jobs.
\<close>

fun working :: "nat \<Rightarrow> worker_pc \<Rightarrow> bool" where
  "working i (WClaimed k) = (k = i)"
| "working i (WLoad k) = (k = i)"
| "working i (WClear k _) = (k = i)"
| "working i (WPoll k _) = (k = i)"
| "working i _ = False"

fun incoming :: "nat \<Rightarrow> helper_pc \<Rightarrow> bool" where
  "incoming i (HIncrement b) = (b = i)"
| "incoming i (HMark b) = (b = i)"
| "incoming i _ = False"

definition covered :: "nat \<Rightarrow> qsys \<Rightarrow> bool" where
  "covered i s \<longleftrightarrow> jobs (qs_slots s ! i) = 0 \<or> flags (qs_slots s ! i) = 1 \<or> flags (qs_slots s ! i) = 3 \<or>
     list_ex (incoming i) (qs_helpers s) \<or> list_ex (working i) (qs_workers s)"

text \<open>Every thread is at rest: no enqueue under way and every worker asleep.\<close>

definition quiescent :: "qsys \<Rightarrow> bool" where
  "quiescent s \<longleftrightarrow> list_all ((=) HIdle) (qs_helpers s) \<and> list_all ((=) WSleep) (qs_workers s) \<and> qs_workers s \<noteq> []"

text \<open>One atomic step as a function on configurations, to iterate.\<close>

definition hstep :: "helper_pc \<times> queue_slot list \<times> u32 \<Rightarrow> helper_pc \<times> queue_slot list \<times> u32" where
  "hstep = (\<lambda>(pc, slots, n). helper_step pc slots n)"

definition wstep :: "worker_pc \<times> queue_slot list \<times> u32 \<Rightarrow> worker_pc \<times> queue_slot list \<times> u32" where
  "wstep = (\<lambda>(pc, slots, n). worker_step pc slots n)"

text \<open>A slot change that keeps what the slot's owner relies on.\<close>

definition slot_grows :: "queue_slot \<Rightarrow> queue_slot \<Rightarrow> bool" where
  "slot_grows s v \<longleftrightarrow> (\<forall>j. bit (jobs s) j \<longrightarrow> bit (jobs v) j) \<and> (flags s = 3 \<longrightarrow> flags v = 3)"

text \<open>
  No enqueue of the thread can add a job to the mask \<open>m\<close> of the bucket or mark it; an action that wakes
  a job of the bucket wakes one of the mask.
\<close>

fun settled :: "nat \<Rightarrow> u64 \<Rightarrow> helper_pc \<Rightarrow> bool" where
  "settled i m (HSetJob b j) = (b = i \<longrightarrow> bit m j)"
| "settled i m (HIncrement b) = (b \<noteq> i)"
| "settled i m (HMark b) = (b \<noteq> i)"
| "settled i m _ = True"

fun wakes_pending :: "nat \<Rightarrow> u64 \<Rightarrow> action \<Rightarrow> bool" where
  "wakes_pending i m (Call h b j) = (b = i \<longrightarrow> bit m j)"
| "wakes_pending i m _ = True"

text \<open>The jobs \<open>m\<close> of bucket \<open>i\<close> are left to themselves: its worker, if any, is on its way out.\<close>

fun leaving :: "nat \<Rightarrow> worker_pc \<Rightarrow> bool" where
  "leaving i (WDone b k) = (b = i \<and> k = 2)"
| "leaving i (WClearProgress b k) = (b = i \<and> k = 1)"
| "leaving i _ = False"

definition stranded :: "nat \<Rightarrow> u64 \<Rightarrow> qsys \<Rightarrow> bool" where
  "stranded i m s \<longleftrightarrow> i < length (qs_slots s) \<and> jobs (qs_slots s ! i) = m \<and> flags (qs_slots s ! i) \<in> {0, 2} \<and>
     list_all (settled i m) (qs_helpers s) \<and> list_all (\<lambda>p. owns i p \<longrightarrow> leaving i p) (qs_workers s)"

lemmas qinv_defs = qinv_def slots_inv_def count_inv_def owner_inv_def threads_inv_def small_inv_def wake_inv_def

subsection \<open>Every step keeps the invariant\<close>

lemma qinv_slot_ok: "qinv s \<Longrightarrow> i < length (qs_slots s) \<Longrightarrow> slot_ok (qs_slots s ! i)"
  by (simp add: qinv_defs list_all_length)

lemma qinv_worker_ok: "qinv s \<Longrightarrow> w < length (qs_workers s) \<Longrightarrow> worker_ok (qs_slots s) (qs_workers s ! w)"
  by (simp add: qinv_defs list_all_length)

lemma qinv_helper_ok: "qinv s \<Longrightarrow> h < length (qs_helpers s) \<Longrightarrow> helper_ok (length (qs_slots s)) (qs_helpers s ! h)"
  by (simp add: qinv_defs list_all_length)

lemma worker_ok_owns: "worker_ok slots pc \<Longrightarrow> owns i pc \<Longrightarrow> i < length slots"
  by (cases pc) auto

lemma owner_in_progress:
  assumes "qinv s" and "w < length (qs_workers s)" and "owns i (qs_workers s ! w)"
  shows "in_progress (qs_slots s ! i)" and "i < length (qs_slots s)"
proof -
  show i: "i < length (qs_slots s)"
    using worker_ok_owns qinv_worker_ok assms by blast
  have "0 < count_if (owns i) (qs_workers s)" using assms count_if_pos by blast
  then show "in_progress (qs_slots s ! i)"
    using assms(1) i by (auto simp: qinv_defs split: if_splits)
qed

lemma owner_unique:
  assumes "qinv s" and "w < length (qs_workers s)" and "w' < length (qs_workers s)"
    and "owns i (qs_workers s ! w)" and "owns i (qs_workers s ! w')"
  shows "w = w'"
proof -
  have "i < length (qs_slots s)" using owner_in_progress assms by blast
  then have "count_if (owns i) (qs_workers s) \<le> 1"
    using assms(1) by (simp add: qinv_defs)
  then show ?thesis using assms(2-) by (rule count_if_unique)
qed

text \<open>What a worker's program counter says about a slot survives a change of that slot that
  keeps the owned slot's jobs and flags.\<close>

lemma worker_ok_update:
  assumes "worker_ok slots pc" and "owns b pc \<Longrightarrow> slot_grows (slots ! b) v"
  shows "worker_ok (slots[b := v]) pc"
  using assms by (cases pc) (auto simp: nth_update_if slot_grows_def)

lemma qinv_helper_update:
  assumes inv: "qinv s" and h: "h < length (qs_helpers s)" and b: "b < length (qs_slots s)"
    and v: "slot_ok v" "in_progress v = in_progress (qs_slots s ! b)" "slot_grows (qs_slots s ! b) v"
    and pc: "helper_ok (length (qs_slots s)) pc"
    and c: "unat c + (if claimable (qs_slots s ! b) then 1 else 0) + (if counted (qs_helpers s ! h) then 1 else 0) =
      unat (qs_count s) + (if claimable v then 1 else 0) + (if counted pc then 1 else 0)"
    and nt: "(if claimable v then 1 else 0) + (if HNotify = qs_helpers s ! h then 1 else 0) \<le>
      (if claimable (qs_slots s ! b) then 1 else 0 :: nat) + (if HNotify = pc then 1 else 0)"
  shows "qinv (s\<lparr>qs_slots := (qs_slots s)[b := v], qs_count := c, qs_helpers := (qs_helpers s)[h := pc]\<rparr>)"
proof -
  let ?t = "s\<lparr>qs_slots := (qs_slots s)[b := v], qs_count := c, qs_helpers := (qs_helpers s)[h := pc]\<rparr>"
  note upd = count_if_update [OF b, of claimable v] count_if_update [OF h, of counted pc]
    count_if_update [OF h, of "(=) HNotify" pc]
  have "slots_inv ?t" using inv v(1) by (auto simp: qinv_defs list_all_length nth_update_if)
  moreover have "count_inv ?t" using inv c upd by (simp add: qinv_defs)
  moreover have "owner_inv ?t" using inv v(2) b by (auto simp: qinv_defs nth_update_if)
  moreover have "threads_inv ?t"
    using inv pc v(3) worker_ok_update [of "qs_slots s" _ b v]
    by (auto simp: qinv_defs list_all_length nth_update_if)
  moreover have "small_inv ?t" using inv by (simp add: qinv_defs)
  moreover have "wake_inv ?t" using inv nt upd by (auto simp: qinv_defs split: if_splits)
  ultimately show ?thesis by (simp add: qinv_def)
qed

lemma qinv_helper_pc:
  assumes inv: "qinv s" and h: "h < length (qs_helpers s)"
    and pc: "helper_ok (length (qs_slots s)) pc"
    and c: "unat c + (if counted (qs_helpers s ! h) then 1 else 0) =
      unat (qs_count s) + (if counted pc then 1 else 0)"
    and nt: "WSleep \<in> set (qs_workers s) \<Longrightarrow> qs_helpers s ! h \<noteq> HNotify"
  shows "qinv (s\<lparr>qs_count := c, qs_helpers := (qs_helpers s)[h := pc]\<rparr>)"
proof -
  let ?t = "s\<lparr>qs_count := c, qs_helpers := (qs_helpers s)[h := pc]\<rparr>"
  note upd = count_if_update [OF h, of counted pc] count_if_update [OF h, of "(=) HNotify" pc]
  have "count_inv ?t" using inv c upd by (simp add: qinv_defs)
  moreover have "threads_inv ?t"
    using inv pc by (auto simp: qinv_defs list_all_length nth_update_if)
  moreover have "wake_inv ?t" using inv nt upd by (fastforce simp: qinv_defs split: if_splits)
  ultimately show ?thesis using inv by (simp add: qinv_defs)
qed

lemma qinv_worker_update:
  assumes inv: "qinv s" and w: "w < length (qs_workers s)" and b: "b < length (qs_slots s)"
    and v: "slot_ok v"
    and alone: "\<And>w'. w' < length (qs_workers s) \<Longrightarrow> owns b (qs_workers s ! w') \<Longrightarrow> w' = w"
    and pc: "worker_ok ((qs_slots s)[b := v]) pc" "pc \<noteq> WSleep" "qs_workers s ! w \<noteq> WSleep"
    and own: "\<And>i. i \<noteq> b \<Longrightarrow> owns i pc = owns i (qs_workers s ! w)"
      "owns b pc = in_progress v" 
      "owns b (qs_workers s ! w) = in_progress (qs_slots s ! b)" 
    and c: "unat c + (if claimable (qs_slots s ! b) then 1 else 0) + (if just_claimed (qs_workers s ! w) then 1 else 0) =
      unat (qs_count s) + (if claimable v then 1 else 0) + (if just_claimed pc then 1 else 0)"
    and nt: "(if claimable v then 1 else 0) + (if searching (qs_workers s ! w) then 1 else 0) \<le>
      (if claimable (qs_slots s ! b) then 1 else 0 :: nat) + (if searching pc then 1 else 0)"
  shows "qinv (s\<lparr>qs_slots := (qs_slots s)[b := v], qs_count := c, qs_workers := (qs_workers s)[w := pc]\<rparr>)"
proof -
  let ?t = "s\<lparr>qs_slots := (qs_slots s)[b := v], qs_count := c, qs_workers := (qs_workers s)[w := pc]\<rparr>"
  note upd = count_if_update [OF b, of claimable v] count_if_update [OF w, of just_claimed pc]
    count_if_update [OF w, of searching pc]
  have "slots_inv ?t" using inv v(1) by (auto simp: qinv_defs list_all_length nth_update_if)
  moreover have "count_inv ?t" using inv c upd by (simp add: qinv_defs)
  moreover have "owner_inv ?t"
  proof -
    have "count_if (owns i) ((qs_workers s)[w := pc]) = 
      (if in_progress ((qs_slots s)[b := v] ! i) then 1 else 0)" if i: "i < length (qs_slots s)" for i
      using count_if_update [OF w, of "owns i" pc] own inv i b
      by (cases "i = b") (auto simp: qinv_defs split: if_splits)
    then show ?thesis by (simp add: owner_inv_def)
  qed
  moreover have "threads_inv ?t"
  proof -
    have "worker_ok ((qs_slots s)[b := v]) (qs_workers s ! w')" if "w' < length (qs_workers s)" "w' \<noteq> w" for w'
      by (rule worker_ok_update) (use that alone qinv_worker_ok [OF inv] in blast)+
    then show ?thesis
      using inv pc(1) by (auto simp: threads_inv_def qinv_def list_all_length nth_update_if)
  qed
  moreover have "small_inv ?t" using inv by (simp add: qinv_defs)
  moreover have "wake_inv ?t"
  proof -
    have "WSleep \<in> set (qs_workers s)" if "WSleep \<in> set ((qs_workers s)[w := pc])"
      using that pc(2) set_update_subset_insert [of "qs_workers s" w pc] by auto
    then show ?thesis using inv nt upd by (auto simp: qinv_defs split: if_splits)
  qed
  ultimately show ?thesis by (simp add: qinv_def)
qed

lemma qinv_worker_pc:
  assumes inv: "qinv s" and w: "w < length (qs_workers s)"
    and pc: "worker_ok (qs_slots s) pc"
    and own: "\<And>i. owns i pc = owns i (qs_workers s ! w)"
    and c: "unat c + (if just_claimed (qs_workers s ! w) then 1 else 0) =
      unat (qs_count s) + (if just_claimed pc then 1 else 0)"
    and nt: "pc \<noteq> WSleep \<Longrightarrow> searching (qs_workers s ! w) \<Longrightarrow> searching pc"
      "pc = WSleep \<Longrightarrow> qs_count s = 0 \<and> c = 0"
  shows "qinv (s\<lparr>qs_count := c, qs_workers := (qs_workers s)[w := pc]\<rparr>)"
proof -
  let ?t = "s\<lparr>qs_count := c, qs_workers := (qs_workers s)[w := pc]\<rparr>"
  note upd = count_if_update [OF w, of just_claimed pc] count_if_update [OF w, of searching pc]
  have cnt: "count_inv ?t" using inv c upd by (simp add: qinv_defs)
  moreover have "owner_inv ?t"
    using count_if_update [OF w, of "owns _" pc] own inv by (auto simp: qinv_defs split: if_splits)
  moreover have "threads_inv ?t"
    using inv pc by (auto simp: qinv_defs list_all_length nth_update_if)
  moreover have "wake_inv ?t"
  proof (cases "pc = WSleep")
    case True
    then have "count_if claimable (qs_slots s) = 0" using nt(2) cnt by (simp add: count_inv_def)
    then show ?thesis by (simp add: wake_inv_def)
  next
    case False
    then have "WSleep \<in> set (qs_workers s)" if "WSleep \<in> set ((qs_workers s)[w := pc])"
      using that set_update_subset_insert [of "qs_workers s" w pc] by auto
    then show ?thesis using inv nt(1) [OF False] upd by (fastforce simp: qinv_defs split: if_splits)
  qed
  ultimately show ?thesis using inv by (simp add: qinv_defs)
qed

lemma count_bound:
  assumes "qinv s" and "h < length (qs_helpers s)" and "\<not> counted (qs_helpers s ! h)"
  shows "unat (qs_count s) < 2 ^ 32 - 1"
proof -
  have "count_if counted (qs_helpers s) < length (qs_helpers s)"
    using count_if_update [OF assms(2), of counted "HMark 0"] assms(3)
      count_if_le [of counted "(qs_helpers s)[h := HMark 0]"] by simp
  then show ?thesis
    using assms(1) count_if_le [of claimable "qs_slots s"] count_if_le [of just_claimed "qs_workers s"]
    by (simp add: qinv_defs)
qed

lemma count_pos_helper:
  assumes "qinv s" and "h < length (qs_helpers s)" and "counted (qs_helpers s ! h)"
  shows "0 < unat (qs_count s)"
  using assms count_if_pos [of h "qs_helpers s" counted] by (simp add: qinv_defs)

lemma count_pos_worker:
  assumes "qinv s" and "w < length (qs_workers s)" and "just_claimed (qs_workers s ! w)"
  shows "0 < unat (qs_count s)"
  using assms count_if_pos [of w "qs_workers s" just_claimed] by (simp add: qinv_defs)

lemma qinv_call:
  assumes "qinv s" and "qstep (Call h b j) s = Some t"
  shows "qinv t"
  using assms qinv_helper_pc [of s h "HSetJob b j" "qs_count s"] by (simp split: if_splits)

lemma qinv_set_job:
  assumes inv: "qinv s" and h: "h < length (qs_helpers s)" and pc: "qs_helpers s ! h = HSetJob b j"
    and st: "qstep (Helper h) s = Some t"
  shows "qinv t"
proof -
  have bj: "b < length (qs_slots s)" "j < 64" using qinv_helper_ok [OF inv h] pc by simp_all
  let ?v = "(qs_slots s ! b)\<lparr>jobs := set_bit j (jobs (qs_slots s ! b))\<rparr>"
  let ?pc = "if bit (jobs (qs_slots s ! b)) j then HIdle else HIncrement b"
  have t: "t = s\<lparr>qs_slots := (qs_slots s)[b := ?v], qs_count := qs_count s, qs_helpers := (qs_helpers s)[h := ?pc]\<rparr>"
    using st h pc bj by (simp add: fetch_or_def and_shl1_eq_0 or_shl1)
  show ?thesis
    unfolding t using qinv_slot_ok [OF inv bj(1)] bj h pc
    by (intro qinv_helper_update [OF inv])
      (auto simp: slot_ok_def in_progress_def slot_grows_def claimable_def bit_set_bit_iff dest: bit_imp_le_length)
qed

lemma qinv_increment:
  assumes inv: "qinv s" and h: "h < length (qs_helpers s)" and pc: "qs_helpers s ! h = HIncrement b"
    and st: "qstep (Helper h) s = Some t"
  shows "qinv t"
proof -
  have "unat (qs_count s) < 2 ^ 32 - 1" by (rule count_bound [OF inv h]) (simp add: pc)
  note inc = increment_active_Ok [OF this]
  have t: "t = s\<lparr>qs_count := qs_count s + 1, qs_helpers := (qs_helpers s)[h := HMark b]\<rparr>"
    using st h pc inc by simp
  show ?thesis
    unfolding t using inc pc qinv_helper_ok [OF inv h]
    by (intro qinv_helper_pc [OF inv h]) auto
qed

lemma qinv_mark:
  assumes inv: "qinv s" and h: "h < length (qs_helpers s)" and pc: "qs_helpers s ! h = HMark b"
    and st: "qstep (Helper h) s = Some t"
  shows "qinv t"
proof -
  have b: "b < length (qs_slots s)" using qinv_helper_ok [OF inv h] pc by simp
  let ?s = "qs_slots s ! b"
  let ?v = "?s\<lparr>flags := (if in_progress ?s then 3 else 1)\<rparr>"
  let ?pc = "if flags ?s = 0 then HNotify else HDecrement"
  have ok: "slot_ok ?s" using qinv_slot_ok [OF inv b] .
  have t: "t = s\<lparr>qs_slots := (qs_slots s)[b := ?v], qs_count := qs_count s, qs_helpers := (qs_helpers s)[h := ?pc]\<rparr>"
    using ok st h pc by (cases rule: slot_ok_cases) (simp_all add: mark_enqueued_flags in_progress_def)
  show ?thesis
    unfolding t using ok h pc b
    by (intro qinv_helper_update [OF inv])
      (auto simp: slot_ok_def in_progress_def slot_grows_def claimable_def flag_defs)
qed

lemma qinv_revert:
  assumes inv: "qinv s" and h: "h < length (qs_helpers s)" and pc: "qs_helpers s ! h = HDecrement"
    and st: "qstep (Helper h) s = Some t"
  shows "qinv t"
proof -
  have "0 < unat (qs_count s)" by (rule count_pos_helper [OF inv h]) (simp add: pc)
  note dec = decrement_active_Ok [OF this]
  have t: "t = s\<lparr>qs_count := qs_count s - 1, qs_helpers := (qs_helpers s)[h := HIdle]\<rparr>"
    using st h pc dec by simp
  show ?thesis
    unfolding t using dec pc by (intro qinv_helper_pc [OF inv h]) auto
qed

lemma qinv_helper:
  assumes inv: "qinv s" and st: "qstep (Helper h) s = Some t"
  shows "qinv t"
proof -
  have h: "h < length (qs_helpers s)" and nt: "qs_helpers s ! h = HNotify \<Longrightarrow> WSleep \<notin> set (qs_workers s)"
    using st by (auto split: if_splits)
  show ?thesis
  proof (cases "qs_helpers s ! h")
    case HNotify
    then show ?thesis
      using st h nt qinv_helper_pc [OF inv h, of HIdle "qs_count s"] by (simp split: if_splits)
  next
    case (HPanicked p)
    then show ?thesis using qinv_helper_ok [OF inv h] by simp
  next
    case HIdle
    then have "(qs_helpers s)[h := HIdle] = qs_helpers s" by (metis list_update_id)
    then have "t = s" using st h HIdle by simp
    then show ?thesis using inv by simp
  qed (use inv h st qinv_set_job qinv_increment qinv_mark qinv_revert in blast)+
qed

lemma qinv_notify:
  assumes inv: "qinv s" and st: "qstep (Notify h w) s = Some t"
  shows "qinv t"
proof -
  have h: "h < length (qs_helpers s)" "qs_helpers s ! h = HNotify"
    and w: "w < length (qs_workers s)" "qs_workers s ! w = WSleep"
    and t: "t = s\<lparr>qs_helpers := (qs_helpers s)[h := HIdle], qs_workers := (qs_workers s)[w := WWait]\<rparr>"
    using st by (auto split: if_splits)
  note upd = count_if_update [OF h(1), of counted HIdle] count_if_update [OF h(1), of "(=) HNotify" HIdle]
    count_if_update [OF w(1), of just_claimed WWait] count_if_update [OF w(1), of searching WWait]
  have sl: "WSleep \<in> set (qs_workers s)" using w by (metis nth_mem)
  have "count_inv t" using inv upd h w by (simp add: qinv_defs t)
  moreover have "owner_inv t"
    using inv w count_if_update [OF w(1), of "owns _" WWait] by (auto simp: qinv_defs t)
  moreover have "threads_inv t"
    using inv by (auto simp: qinv_defs t intro!: list_all_update)
  moreover have "wake_inv t"
    using inv upd h w sl by (simp add: qinv_defs t)
  ultimately show ?thesis using inv by (simp add: qinv_defs t)
qed

lemma qinv_spurious:
  assumes inv: "qinv s" and st: "qstep (Spurious w) s = Some t"
  shows "qinv t"
  using st inv qinv_worker_pc [OF inv, of w WWait "qs_count s"] by (simp split: if_splits)

lemma qinv_forever:
  assumes inv: "qinv s" and st: "qstep (Forever w) s = Some t"
  shows "qinv t"
proof -
  obtain i j where w: "w < length (qs_workers s)" "qs_workers s ! w = WPoll i j"
    using st by (cases "qs_workers s ! w") (auto split: if_splits)
  then show ?thesis
    using st qinv_worker_ok [OF inv w(1)] qinv_worker_pc [OF inv w(1), of "WDone i 2" "qs_count s"]
    by simp
qed

lemma worker_alone:
  assumes "qinv s" and "w < length (qs_workers s)" and "owns i (qs_workers s ! w)"
    and "w' < length (qs_workers s)" and "owns i (qs_workers s ! w')"
  shows "w' = w"
  using owner_unique [OF assms(1,4,2,5,3)] .

lemma qinv_scan:
  assumes inv: "qinv s" and w: "w < length (qs_workers s)" and pc: "qs_workers s ! w = WScan i"
    and st: "qstep (Worker w) s = Some t"
  shows "qinv t"
proof (cases "i < length (qs_slots s) \<and> claimable (qs_slots s ! i)")
  case True
  let ?v = "(qs_slots s ! i)\<lparr>flags := IN_PROGRESS_BIT\<rparr>"
  have t: "t = s\<lparr>qs_slots := (qs_slots s)[i := ?v], qs_count := qs_count s, qs_workers := (qs_workers s)[w := WClaimed i]\<rparr>"
    using st w pc True by simp
  have free: "\<not> in_progress (qs_slots s ! i)"
    using True by (simp add: claimable_def in_progress_def flag_defs)
  then have "\<not> owns i (qs_workers s ! w')" if "w' < length (qs_workers s)" for w'
    using owner_in_progress(1) [OF inv that] by blast
  then show ?thesis
    unfolding t using True pc free
    by (intro qinv_worker_update [OF inv w])
      (auto simp: slot_ok_def in_progress_def claimable_def flag_defs)
next
  case False
  then have t: "t = s\<lparr>qs_count := qs_count s, qs_workers := (qs_workers s)[w := if i < length (qs_slots s) then WScan (Suc i) else WWait]\<rparr>"
    using st w pc by auto
  show ?thesis
    unfolding t using pc by (intro qinv_worker_pc [OF inv w]) (auto split: if_splits)
qed

lemma qinv_claimed:
  assumes inv: "qinv s" and w: "w < length (qs_workers s)" and pc: "qs_workers s ! w = WClaimed i"
    and st: "qstep (Worker w) s = Some t"
  shows "qinv t"
proof -
  have "0 < unat (qs_count s)" by (rule count_pos_worker [OF inv w]) (simp add: pc)
  note dec = decrement_active_Ok [OF this]
  have t: "t = s\<lparr>qs_count := qs_count s - 1, qs_workers := (qs_workers s)[w := WLoad i]\<rparr>"
    using st w pc dec by simp
  show ?thesis
    unfolding t using dec pc qinv_worker_ok [OF inv w] by (intro qinv_worker_pc [OF inv w]) auto
qed

lemma qinv_load:
  assumes inv: "qinv s" and w: "w < length (qs_workers s)" and pc: "qs_workers s ! w = WLoad i"
    and st: "qstep (Worker w) s = Some t"
  shows "qinv t"
proof -
  let ?v = "jobs (qs_slots s ! i)"
  have t: "t = s\<lparr>qs_count := qs_count s, qs_workers := (qs_workers s)[w := if ?v = 0 then WDone i 2 else WClear i (trailing_zeros ?v)]\<rparr>"
    using st w pc by (auto simp: Let_def)
  show ?thesis
    unfolding t using pc qinv_worker_ok [OF inv w] trailing_zeros_spec [of ?v]
    by (intro qinv_worker_pc [OF inv w]) (auto split: if_splits)
qed

lemma qinv_clear:
  assumes inv: "qinv s" and w: "w < length (qs_workers s)" and pc: "qs_workers s ! w = WClear i j"
    and st: "qstep (Worker w) s = Some t"
  shows "qinv t"
proof -
  let ?v = "(qs_slots s ! i)\<lparr>jobs := jobs (qs_slots s ! i) AND NOT (shl1 j)\<rparr>"
  have t: "t = s\<lparr>qs_slots := (qs_slots s)[i := ?v], qs_count := qs_count s, qs_workers := (qs_workers s)[w := WPoll i j]\<rparr>"
    using st w pc by (simp add: fetch_and_def)
  have own: "owns i (qs_workers s ! w)" using pc by simp
  note ip = owner_in_progress [OF inv w own]
  show ?thesis
    unfolding t using pc ip qinv_slot_ok [OF inv ip(2)] worker_alone [OF inv w own]
    by (intro qinv_worker_update [OF inv w])
      (auto simp: slot_ok_def in_progress_def claimable_def flag_defs)
qed

lemma qinv_done:
  assumes inv: "qinv s" and w: "w < length (qs_workers s)" and pc: "qs_workers s ! w = WDone i k"
    and st: "qstep (Worker w) s = Some t"
  shows "qinv t"
proof -
  have own: "owns i (qs_workers s ! w)" using pc by simp
  note ip = owner_in_progress [OF inv w own]
  obtain k' where k: "k = Suc k'" "k' = 1 \<or> k' = 0 \<and> flags (qs_slots s ! i) = 3"
    using qinv_worker_ok [OF inv w] pc by (cases k) auto
  let ?s = "qs_slots s ! i"
  let ?v = "?s\<lparr>flags := 2\<rparr>"
  have t: "t = s\<lparr>qs_slots := (qs_slots s)[i := ?v], qs_count := qs_count s,
      qs_workers := (qs_workers s)[w := if flags ?s = 3 then WLoad i else WClearProgress i k']\<rparr>"
    using st w pc k(1) ip(1) by (auto simp: compare_exchange_def flag_defs in_progress_def)
  show ?thesis
    unfolding t using pc ip qinv_slot_ok [OF inv ip(2)] worker_alone [OF inv w own] k
    by (intro qinv_worker_update [OF inv w])
      (auto simp: slot_ok_def in_progress_def claimable_def flag_defs)
qed

lemma qinv_clear_progress:
  assumes inv: "qinv s" and w: "w < length (qs_workers s)" and pc: "qs_workers s ! w = WClearProgress i k"
    and st: "qstep (Worker w) s = Some t"
  shows "qinv t"
proof -
  have own: "owns i (qs_workers s ! w)" using pc by simp
  note ip = owner_in_progress [OF inv w own]
  have k: "k = 1" using qinv_worker_ok [OF inv w] pc by simp
  let ?s = "qs_slots s ! i"
  let ?v = "?s\<lparr>flags := if flags ?s = 2 then 0 else 3\<rparr>"
  have t: "t = s\<lparr>qs_slots := (qs_slots s)[i := ?v], qs_count := qs_count s,
      qs_workers := (qs_workers s)[w := if flags ?s = 2 then WWait else WDone i k]\<rparr>"
    using st w pc ip(1) by (auto simp: compare_exchange_def flag_defs in_progress_def)
  show ?thesis
    unfolding t using pc ip qinv_slot_ok [OF inv ip(2)] worker_alone [OF inv w own] k
    by (intro qinv_worker_update [OF inv w])
      (auto simp: slot_ok_def in_progress_def claimable_def flag_defs)
qed

lemma qinv_worker:
  assumes inv: "qinv s" and st: "qstep (Worker w) s = Some t"
  shows "qinv t"
proof -
  have w: "w < length (qs_workers s)" and ns: "qs_workers s ! w \<noteq> WSleep"
    using st by (auto split: if_splits)
  show ?thesis
  proof (cases "qs_workers s ! w")
    case WWait
    then have t: "t = s\<lparr>qs_count := qs_count s, qs_workers := (qs_workers s)[w := if qs_count s = 0 then WSleep else WScan 0]\<rparr>"
      using st w by (auto simp: wait_active_def)
    show ?thesis
      unfolding t using WWait by (intro qinv_worker_pc [OF inv w]) (auto split: if_splits)
  next
    case (WPoll i j)
    then show ?thesis
      using st w qinv_worker_ok [OF inv w] qinv_worker_pc [OF inv w, of "WLoad i" "qs_count s"] by simp
  next
    case (WPanicked p)
    then show ?thesis using qinv_worker_ok [OF inv w] by simp
  next
    case WSleep
    with ns show ?thesis by simp
  next
    case (WScan i)
    then show ?thesis by (rule qinv_scan [OF inv w _ st])
  next
    case (WClaimed i)
    then show ?thesis by (rule qinv_claimed [OF inv w _ st])
  next
    case (WLoad i)
    then show ?thesis by (rule qinv_load [OF inv w _ st])
  next
    case (WClear i j)
    then show ?thesis by (rule qinv_clear [OF inv w _ st])
  next
    case (WDone i k)
    then show ?thesis by (rule qinv_done [OF inv w _ st])
  next
    case (WClearProgress i k)
    then show ?thesis by (rule qinv_clear_progress [OF inv w _ st])
  qed
qed

lemma qstep_qinv: "qinv s \<Longrightarrow> qstep a s = Some t \<Longrightarrow> qinv t"
  by (cases a) (blast intro: qinv_call qinv_helper qinv_notify qinv_worker qinv_spurious qinv_forever)+

lemma qinv_init: "n + h + w < 2 ^ 32 \<Longrightarrow> qinv (qinit n h w)"
  by (simp add: qinv_defs qinit_def list_all_length empty_slot_def slot_ok_def claimable_def in_progress_def flag_defs)

lemma reachable_qinv: "reachable n h w s \<Longrightarrow> n + h + w < 2 ^ 32 \<Longrightarrow> qinv s"
  by (induction rule: reachable.induct) (auto intro: qinv_init qstep_qinv)

lemma qrun_reachable: "reachable n h w s \<Longrightarrow> qrun as s = Some t \<Longrightarrow> reachable n h w t"
  by (induction as arbitrary: s) (auto split: option.splits intro: reachable.step)

subsection \<open>Jobs stay covered\<close>

lemma covered_helper_step:
  assumes inv: "qinv s" and i: "i < length (qs_slots s)" and cov: "covered i s"
    and st: "qstep (Helper h) s = Some t"
  shows "covered i t"
proof -
  have h: "h < length (qs_helpers s)" using st by (auto split: if_splits)
  note ok = qinv_helper_ok [OF inv h]
  show ?thesis
  proof (cases "qs_helpers s ! h")
    case (HSetJob b j)
    then have bj: "b < length (qs_slots s)" "j < 64" using ok by simp_all
    then show ?thesis using HSetJob st h i cov
      by (cases "b = i") (auto simp: fetch_or_def and_shl1_eq_0 or_shl1 covered_def list_ex_update list_ex_update_True set_bit_idem)
  next
    case (HIncrement b)
    then have "unat (qs_count s) < 2 ^ 32 - 1" by (intro count_bound [OF inv h]) simp
    note inc = increment_active_Ok [OF this]
    then show ?thesis using HIncrement st h cov by (cases "b = i") (auto simp: covered_def list_ex_update list_ex_update_True)
  next
    case (HMark b)
    then have b: "b < length (qs_slots s)" using ok by simp
    have sl: "slot_ok (qs_slots s ! b)" by (rule qinv_slot_ok [OF inv b])
    show ?thesis
    proof (cases "b = i")
      case True
      from sl show ?thesis using HMark st h b True
        by (cases rule: slot_ok_cases) (auto simp: mark_enqueued_flags covered_def)
    next
      case False
      then show ?thesis using HMark st h cov
        by (auto simp: covered_def list_ex_update list_ex_update_True Let_def split: prod.splits if_splits)
    qed
  next
    case HDecrement
    then have "0 < unat (qs_count s)" by (intro count_pos_helper [OF inv h]) simp
    note dec = decrement_active_Ok [OF this]
    then show ?thesis using HDecrement st h cov by (auto simp: covered_def list_ex_update list_ex_update_True)
  qed (use st h cov ok in \<open>auto simp: covered_def list_ex_update list_ex_update_True split: if_splits\<close>)
qed

lemma covered_worker_step:
  assumes inv: "qinv s" and i: "i < length (qs_slots s)" and cov: "covered i s"
    and st: "qstep (Worker w) s = Some t"
  shows "covered i t"
proof -
  have w: "w < length (qs_workers s)" using st by (auto split: if_splits)
  note ok = qinv_worker_ok [OF inv w]
  show ?thesis
  proof (cases "qs_workers s ! w")
    case WWait
    then show ?thesis using st w cov by (auto simp: covered_def list_ex_update list_ex_update_True wait_active_def split: if_splits)
  next
    case (WScan k)
    show ?thesis
    proof (cases "k < length (qs_slots s) \<and> claimable (qs_slots s ! k)")
      case True
      then show ?thesis using WScan st w cov
        by (cases "k = i") (auto simp: covered_def list_ex_update list_ex_update_True)
    next
      case False
      then show ?thesis using WScan st w cov by (auto simp: covered_def list_ex_update list_ex_update_True split: if_splits)
    qed
  next
    case (WClaimed k)
    then have "0 < unat (qs_count s)" by (intro count_pos_worker [OF inv w]) simp
    note dec = decrement_active_Ok [OF this]
    then show ?thesis using WClaimed st w cov by (cases "k = i") (auto simp: covered_def list_ex_update list_ex_update_True)
  next
    case (WLoad k)
    then show ?thesis using st w cov
      by (cases "k = i") (auto simp: covered_def list_ex_update list_ex_update_True Let_def split: if_splits)
  next
    case (WClear k j)
    then show ?thesis using st w cov
      by (cases "k = i") (auto simp: covered_def list_ex_update list_ex_update_True)
  next
    case (WPoll k j)
    then show ?thesis using st w cov
      by (cases "k = i") (auto simp: covered_def list_ex_update list_ex_update_True)
  next
    case (WDone k n)
    have "in_progress (qs_slots s ! k)" "n = 1 \<or> n = 2" "k < length (qs_slots s)"
      using owner_in_progress [OF inv w] WDone ok by auto
    then show ?thesis using WDone st w cov i
      by (cases "k = i") (auto simp: covered_def list_ex_update list_ex_update_True in_progress_def compare_exchange_def flag_defs numeral_2_eq_2 split: if_splits)
  next
    case (WClearProgress k n)
    have "in_progress (qs_slots s ! k)" "k < length (qs_slots s)"
      using owner_in_progress [OF inv w] WClearProgress ok by auto
    then show ?thesis using WClearProgress st w cov i
      by (cases "k = i") (auto simp: covered_def list_ex_update list_ex_update_True in_progress_def compare_exchange_def flag_defs split: if_splits)
  qed (use st w cov ok in \<open>auto simp: covered_def list_ex_update list_ex_update_True\<close>)
qed

lemma covered_step:
  assumes inv: "qinv s" and i: "i < length (qs_slots s)" and cov: "covered i s"
    and st: "qstep a s = Some t" and a: "\<forall>w. a \<noteq> Forever w"
  shows "covered i t"
proof (cases a)
  case (Helper h)
  then show ?thesis using covered_helper_step [OF inv i cov] st by blast
next
  case (Worker w)
  then show ?thesis using covered_worker_step [OF inv i cov] st by blast
next
  case (Forever w)
  then show ?thesis using a by blast
qed (use st cov in \<open>auto simp: covered_def list_ex_update list_ex_update_True split: if_splits\<close>)

lemma qstep_length: "qstep a s = Some t \<Longrightarrow> length (qs_slots t) = length (qs_slots s) \<and>
   length (qs_helpers t) = length (qs_helpers s) \<and> length (qs_workers t) = length (qs_workers s)"
proof (cases a)
  case (Helper h)
  then show "qstep a s = Some t \<Longrightarrow> ?thesis"
    by (cases "qs_helpers s ! h") (auto simp: Let_def split: if_splits prod.splits sum.splits)
next
  case (Worker w)
  moreover have "length (fst (snd (worker_step pc slots n))) = length slots" for pc slots n
    by (cases "(pc, slots, n)" rule: worker_step.cases) (auto simp: Let_def split: if_splits prod.splits sum.splits option.splits)
  ultimately show "qstep a s = Some t \<Longrightarrow> ?thesis"
    by (auto split: if_splits prod.splits) (metis fst_conv snd_conv)
qed (auto split: if_splits)

lemma qrun_covered:
  assumes "qinv s" and "\<forall>i < length (qs_slots s). covered i s" and "qrun as s = Some t"
    and "\<forall>a \<in> set as. \<forall>w. a \<noteq> Forever w"
  shows "qinv t \<and> (\<forall>i < length (qs_slots s). covered i t) \<and> length (qs_slots t) = length (qs_slots s) \<and>
    length (qs_workers t) = length (qs_workers s)"
  using assms
proof (induction as arbitrary: s)
  case Nil
  then show ?case by simp
next
  case (Cons a as)
  then obtain u where u: "qstep a s = Some u" and run: "qrun as u = Some t" by (auto split: option.splits)
  note len = qstep_length [OF u]
  have "\<forall>i < length (qs_slots u). covered i u"
    using covered_step [OF Cons.prems(1) _ _ u] Cons.prems(2,4) len by auto
  then show ?case
    using Cons.IH [OF qstep_qinv [OF Cons.prems(1) u] _ run] Cons.prems(4) len by auto
qed

lemma quiescent_flags:
  assumes inv: "qinv s" and q: "quiescent s" and i: "i < length (qs_slots s)"
  shows "flags (qs_slots s ! i) = 0"
proof -
  have hel: "qs_helpers s ! h = HIdle" if "h < length (qs_helpers s)" for h
    using q that by (simp add: quiescent_def list_all_length)
  have wor: "qs_workers s ! k = WSleep" if "k < length (qs_workers s)" for k
    using q that by (simp add: quiescent_def list_all_length)
  have "WSleep \<in> set (qs_workers s)"
    using q wor [of 0] by (metis quiescent_def length_greater_0_conv nth_mem)
  moreover have "count_if ((=) HNotify) (qs_helpers s) = 0" "count_if searching (qs_workers s) = 0"
    using hel wor by (simp_all add: count_if_0_iff)
  ultimately have "count_if claimable (qs_slots s) = 0"
    using inv by (simp add: qinv_defs)
  then have "\<not> claimable (qs_slots s ! i)" using i by (simp add: count_if_0_iff)
  moreover have "count_if (owns i) (qs_workers s) = 0" using wor by (simp add: count_if_0_iff)
  then have "\<not> in_progress (qs_slots s ! i)" using inv i by (auto simp: qinv_defs split: if_splits)
  ultimately show ?thesis
    using qinv_slot_ok [OF inv i] by (auto simp: slot_ok_def claimable_def in_progress_def flag_defs)
qed

lemma quiescent_covered:
  assumes inv: "qinv s" and q: "quiescent s" and i: "i < length (qs_slots s)" and cov: "covered i s"
  shows "jobs (qs_slots s ! i) = 0"
proof -
  have "\<not> list_ex (incoming i) (qs_helpers s)" "\<not> list_ex (working i) (qs_workers s)"
    using q by (auto simp: quiescent_def list_ex_iff list_all_iff)
  then show ?thesis using cov quiescent_flags [OF inv q i] by (simp add: covered_def)
qed

text \<open>Uninterrupted runs are the calls of the sequential model.\<close>

lemma helper_atomic:
  "case helper b j q of
     Inr (woken, q') \<Rightarrow>
       (hstep ^^ 4) (HSetJob b j, queue q, jobs_in_queue q) = (HIdle, queue q', jobs_in_queue q') \<and>
       (woken \<longleftrightarrow> fst ((hstep ^^ 3) (HSetJob b j, queue q, jobs_in_queue q)) = HNotify)
   | Inl p \<Rightarrow> fst ((hstep ^^ 4) (HSetJob b j, queue q, jobs_in_queue q)) = HPanicked p"
  by (auto simp: helper_def hstep_def Let_def numeral_eq_Suc increment_jobs_available_def decrement_jobs_available_def
     bind_outcome_def mark_enqueued_def fetch_or_def split: if_splits sum.splits prod.splits)

lemma done_atomic:
  "case done_with_bucket (slots ! i) of
     Inr (Done, s') \<Rightarrow> (wstep ^^ 2) (WDone i 2, slots, n) = (WWait, slots[i := s'], n)
   | Inr (GoAgain, s') \<Rightarrow> wstep (WDone i 2, slots, n) = (WLoad i, slots[i := s'], n)
   | Inl p \<Rightarrow> fst (wstep (WDone i 2, slots, n)) = WPanicked p"
  by (cases "i < length slots")
    (auto simp: done_with_bucket_flags wstep_def compare_exchange_def flag_defs numeral_2_eq_2 not_less
      list_update_beyond)

subsection \<open>Stranded jobs\<close>

lemma stranded_helper:
  assumes inv: "qinv s" and st: "stranded i m s" and q: "qstep (Helper h) s = Some t"
  shows "stranded i m t"
proof -
  have h: "h < length (qs_helpers s)" using q by (auto split: if_splits)
  have ok: "helper_ok (length (qs_slots s)) (qs_helpers s ! h)" using qinv_helper_ok [OF inv h] .
  have se: "settled i m (qs_helpers s ! h)" using st h by (simp add: stranded_def list_all_length)
  show ?thesis
  proof (cases "qs_helpers s ! h")
    case (HSetJob b j)
    show ?thesis
    proof (cases "b = i")
      case True
      then have "m OR shl1 j = m" "m AND shl1 j \<noteq> 0" "jobs (qs_slots s ! i) = m"
        using se ok HSetJob st by (auto simp: or_shl1 and_shl1_eq_0 set_bit_eq_idem_iff stranded_def)
      then show ?thesis using HSetJob True q st h
        by (auto simp: stranded_def fetch_or_def intro!: list_all_update)
    qed (use HSetJob q st h in \<open>auto simp: stranded_def fetch_or_def Let_def intro!: list_all_update split: if_splits\<close>)
  qed (use q st se h in \<open>auto simp: stranded_def Let_def split: if_splits prod.splits sum.splits intro!: list_all_update\<close>)
qed

lemma stranded_worker:
  assumes inv: "qinv s" and st: "stranded i m s" and q: "qstep (Worker w) s = Some t"
  shows "stranded i m t"
proof -
  have w: "w < length (qs_workers s)" using q by (auto split: if_splits)
  have own: "owns i (qs_workers s ! w) \<Longrightarrow> leaving i (qs_workers s ! w)"
    using st w by (simp add: stranded_def list_all_length)
  have fl: "flags (qs_slots s ! i) = 0 \<or> flags (qs_slots s ! i) = 2" and len: "i < length (qs_slots s)"
    using st by (auto simp: stranded_def)
  have ip: "flags (qs_slots s ! i) = 2" if "owns i (qs_workers s ! w)"
    using owner_in_progress(1) [OF inv w that] fl by (auto simp: in_progress_def)
  show ?thesis
  proof (cases "qs_workers s ! w")
    case (WScan k)
    have "\<not> claimable (qs_slots s ! i)" using fl by (auto simp: claimable_def flag_defs)
    then show ?thesis using WScan q st w
      by (cases "k = i"; cases "k < length (qs_slots s) \<and> claimable (qs_slots s ! k)")
        (auto simp: stranded_def intro!: list_all_update split: if_splits)
  next
    case (WClear k j)
    then have "k \<noteq> i" using own by auto
    then show ?thesis using WClear q st w by (auto simp: stranded_def intro!: list_all_update)
  next
    case (WDone k n)
    show ?thesis
    proof (cases "k = i")
      case True
      then have "n = Suc (Suc 0)" using own WDone by auto
      then show ?thesis using True WDone q st w own ip
        by (auto simp: stranded_def compare_exchange_def flag_defs intro!: list_all_update)
    next
      case False
      then show ?thesis using WDone q st w
        by (cases n) (auto simp: stranded_def compare_exchange_def intro!: list_all_update split: if_splits)
    qed
  next
    case (WClearProgress k n)
    show ?thesis
    proof (cases "k = i")
      case True
      then have "\<not> owns i (qs_workers s ! v)" if "v < length (qs_workers s)" "v \<noteq> w" for v
        using owner_unique [OF inv w that(1)] WClearProgress that(2) by auto
      then show ?thesis using True WClearProgress q st w own ip
        by (auto simp: stranded_def compare_exchange_def flag_defs list_all_length nth_list_update)
    next
      case False
      then show ?thesis using WClearProgress q st w
        by (auto simp: stranded_def compare_exchange_def intro!: list_all_update split: if_splits)
    qed
  qed (use q st w own in \<open>auto simp: stranded_def Let_def wait_active_def intro!: list_all_update split: if_splits sum.splits\<close>)
qed

lemma stranded_step:
  assumes inv: "qinv s" and st: "stranded i m s" and q: "qstep a s = Some t" and a: "wakes_pending i m a"
  shows "stranded i m t"
proof (cases a)
  case (Helper h)
  then show ?thesis using stranded_helper [OF inv st] q by blast
next
  case (Worker w)
  then show ?thesis using stranded_worker [OF inv st] q by blast
next
  case (Forever w)
  then have w: "w < length (qs_workers s)" "is_poll (qs_workers s ! w)" using q by (auto split: if_splits)
  then have "owns i (qs_workers s ! w) \<Longrightarrow> leaving i (qs_workers s ! w)" using st by (simp add: stranded_def list_all_length)
  then have "poll_bucket (qs_workers s ! w) \<noteq> i" using w(2) by (cases "qs_workers s ! w") auto
  then show ?thesis using Forever q st by (auto simp: stranded_def intro!: list_all_update split: if_splits)
qed (use q st a in \<open>auto simp: stranded_def intro!: list_all_update split: if_splits\<close>)

lemma stranded_run:
  "qinv s \<Longrightarrow> stranded i m s \<Longrightarrow> list_all (wakes_pending i m) as \<Longrightarrow> qrun as s = Some t \<Longrightarrow> stranded i m t \<and> qinv t"
proof (induction as arbitrary: s)
  case (Cons a as)
  then obtain u where u: "qstep a s = Some u" "qrun as u = Some t" by (auto split: option.splits)
  then show ?case using Cons qstep_qinv [OF Cons.prems(1) u(1)] stranded_step [OF Cons.prems(1,2) u(1)] by simp
qed simp

lemma forever_strands:
  assumes inv: "qinv s" and v: "v < length (qs_workers s)" "qs_workers s ! v = WPoll i k"
    and f: "flags (qs_slots s ! i) = 2" and h: "list_all (settled i (jobs (qs_slots s ! i))) (qs_helpers s)"
  shows "stranded i (jobs (qs_slots s ! i)) (s\<lparr>qs_workers := (qs_workers s)[v := WDone i 2]\<rparr>)"
proof -
  have "\<not> owns i (qs_workers s ! u)" if "u < length (qs_workers s)" "u \<noteq> v" for u
    using owner_unique [OF inv v(1) that(1)] v(2) that(2) by auto
  then show ?thesis
    using owner_in_progress(2) [OF inv v(1)] v f h by (auto simp: stranded_def list_all_length nth_list_update)
qed

lemma leaving_not_working: "leaving i p \<Longrightarrow> \<not> working i p"
  by (cases p) auto

lemma working_owns: "working i p \<Longrightarrow> owns i p"
  by (cases p) auto

subsection \<open>Properties\<close>

text \<open>
  C3: whatever the interleaving, no thread of the queue panics: the count neither overflows nor
  underflows, \<open>done_with_bucket\<close> never finds its bucket not in progress, and its two attempts are
  enough (its \<open>unreachable!\<close> is unreachable).
\<close>

theorem queue_threads_never_panic:
  assumes "reachable n h w s" and "n + h + w < 2 ^ 32"
  shows "HPanicked p \<notin> set (qs_helpers s) \<and> WPanicked p \<notin> set (qs_workers s)"
  using reachable_qinv [OF assms] by (auto simp: qinv_defs list_all_iff)

theorem queue_threads_never_panic_witness:
  "HPanicked Overflow \<notin> set (qs_helpers (qinit 64 6 4)) \<and> WPanicked Overflow \<notin> set (qs_workers (qinit 64 6 4))"
  by (rule queue_threads_never_panic [OF reachable.start]) simp

text \<open>
  C4: a bucket is worked on by at most one worker at a time, and exactly while its in-progress bit
  is set.
\<close>

theorem bucket_has_one_worker:
  assumes r: "reachable n h w s" "n + h + w < 2 ^ 32" and i: "i < length (qs_slots s)"
  shows "count_if (owns i) (qs_workers s) = (if flags (qs_slots s ! i) AND IN_PROGRESS_BIT \<noteq> 0 then 1 else 0)"
proof -
  note inv = reachable_qinv [OF r]
  have "in_progress (qs_slots s ! i) \<longleftrightarrow> flags (qs_slots s ! i) AND IN_PROGRESS_BIT \<noteq> 0"
    using qinv_slot_ok [OF inv i] by (cases rule: slot_ok_cases) (simp_all add: in_progress_def flag_defs)
  then show ?thesis using inv i by (simp add: qinv_defs)
qed

theorem bucket_has_one_worker_witness:
  "count_if (owns 0) (qs_workers (qinit 1 1 1)) =
     (if flags (qs_slots (qinit 1 1 1) ! 0) AND IN_PROGRESS_BIT \<noteq> 0 then 1 else 0)"
  by (rule bucket_has_one_worker [OF reachable.start]) (simp_all add: qinit_def)

text \<open>
  C5: the count of available jobs is exactly the number of claimable buckets plus the threads that
  are between touching the count and touching the slot, so a worker that sees zero misses no
  bucket.
\<close>

theorem count_is_claimable_buckets:
  assumes "reachable n h w s" and "n + h + w < 2 ^ 32"
  shows "unat (qs_count s) = count_if claimable (qs_slots s) + count_if counted (qs_helpers s) +
    count_if just_claimed (qs_workers s)"
  using reachable_qinv [OF assms] by (simp add: qinv_defs)

theorem count_is_claimable_buckets_witness:
  "unat (qs_count (qinit 64 6 4)) = count_if claimable (qs_slots (qinit 64 6 4)) +
     count_if counted (qs_helpers (qinit 64 6 4)) + count_if just_claimed (qs_workers (qinit 64 6 4))"
  by (rule count_is_claimable_buckets [OF reachable.start]) simp

text \<open>
  C2: no lost wake-up. While some worker sleeps, every claimable bucket is matched by a pending
  notification or by a worker that is already looking for work.
\<close>

theorem sleeping_worker_means_enough_searchers:
  assumes "reachable n h w s" and "n + h + w < 2 ^ 32" and "WSleep \<in> set (qs_workers s)"
  shows "count_if claimable (qs_slots s) \<le>
    count_if ((=) HNotify) (qs_helpers s) + count_if searching (qs_workers s)"
  using reachable_qinv [OF assms(1,2)] assms(3) by (simp add: qinv_defs)

theorem sleeping_worker_means_enough_searchers_witness:
  "\<exists>s. qrun [Worker 0] (qinit 1 1 1) = Some s \<and> WSleep \<in> set (qs_workers s) \<and>
     count_if claimable (qs_slots s) \<le>
       count_if ((=) HNotify) (qs_helpers s) + count_if searching (qs_workers s)"
proof -
  let ?s = "\<lparr>qs_slots = [empty_slot], qs_count = 0, qs_helpers = [HIdle], qs_workers = [WSleep]\<rparr>"
  have run: "qrun [Worker 0] (qinit 1 1 1) = Some ?s"
    by (simp add: qinit_def wait_active_def)
  note r = qrun_reachable [OF reachable.start run]
  show ?thesis using run sleeping_worker_means_enough_searchers [OF r] by auto
qed

text \<open>
  C1: no lost job. In any run in which no poll ends a request early, once every enqueue has
  returned and every worker sleeps, all job masks are empty: every job that was enqueued has
  been taken by a worker.
\<close>

theorem quiescent_queue_has_no_jobs:
  assumes run: "qrun as (qinit n h w) = Some s" and small: "n + h + w < 2 ^ 32"
    and nf: "\<forall>a \<in> set as. \<forall>k. a \<noteq> Forever k" and q: "quiescent s" and i: "i < n"
  shows "jobs (qs_slots s ! i) = 0 \<and> flags (qs_slots s ! i) = 0"
proof -
  have "\<forall>k < length (qs_slots (qinit n h w)). covered k (qinit n h w)"
    by (simp add: covered_def qinit_def empty_slot_def)
  from qrun_covered [OF qinv_init [OF small] this run nf] i
  have inv: "qinv s" and cov: "covered i s" and len: "i < length (qs_slots s)"
    by (simp_all add: qinit_def)
  show ?thesis using quiescent_covered [OF inv q len cov] quiescent_flags [OF inv q len] by simp
qed

theorem quiescent_queue_has_no_jobs_witness:
  "\<exists>s. qrun [Call 0 0 0, Helper 0, Helper 0, Helper 0, Helper 0, Worker 0, Worker 0, Worker 0,
      Worker 0, Worker 0, Worker 0, Worker 0, Worker 0, Worker 0, Worker 0] (qinit 1 1 1) = Some s \<and>
     jobs (qs_slots s ! 0) = 0 \<and> flags (qs_slots s ! 0) = 0"
proof -
  let ?as = "[Call 0 0 0, Helper 0, Helper 0, Helper 0, Helper 0, Worker 0, Worker 0, Worker 0,
      Worker 0, Worker 0, Worker 0, Worker 0, Worker 0, Worker 0, Worker 0]"
  let ?s = "\<lparr>qs_slots = [empty_slot], qs_count = 0, qs_helpers = [HIdle], qs_workers = [WSleep]\<rparr>"
  have run: "qrun ?as (qinit 1 1 1) = Some ?s"
    by code_simp
  have "quiescent ?s" by (simp add: quiescent_def)
  from quiescent_queue_has_no_jobs [OF run _ _ this] show ?thesis using run by auto
qed

text \<open>
  With polls that end their request early, a quiescent queue still has no enqueued and no
  in-progress bucket.
\<close>

theorem quiescent_queue_has_no_claimable_bucket:
  assumes "reachable n h w s" and "n + h + w < 2 ^ 32" and "quiescent s" and "i < length (qs_slots s)"
  shows "flags (qs_slots s ! i) = 0"
  using quiescent_flags [OF reachable_qinv [OF assms(1,2)] assms(3,4)] .

theorem quiescent_queue_has_no_claimable_bucket_witness:
  "flags (qs_slots (\<lparr>qs_slots = [empty_slot], qs_count = 0, qs_helpers = [HIdle], qs_workers = [WSleep]\<rparr> :: qsys) ! 0) = 0"
proof -
  let ?s = "\<lparr>qs_slots = [empty_slot], qs_count = 0, qs_helpers = [HIdle], qs_workers = [WSleep]\<rparr>"
  have "qrun [Worker 0] (qinit 1 1 1) = Some ?s" by (simp add: qinit_def wait_active_def)
  note r = qrun_reachable [OF reachable.start this]
  show ?thesis
    by (rule quiescent_queue_has_no_claimable_bucket [OF r]) (simp_all add: quiescent_def)
qed

text \<open>
  C6: a poll that ends its request while another job of the bucket is pending. If the bucket was enqueued
  meanwhile (flags 3), \<open>done_with_bucket\<close> sends the worker back to the job mask. If it was not (flags 2), the pending
  jobs are stranded: however the threads go on, as long as the only jobs of the bucket that are woken are
  pending ones, the mask stays as it is and no worker looks at it again. This holds for
  every wake-up of a pending job too, because \<open>helper\<close> takes it for enqueued and returns.
\<close>

theorem forever_strands_pending_job:
  assumes "reachable n h w s" and "n + h + w < 2 ^ 32"
    and "v < length (qs_workers s)" and "qs_workers s ! v = WPoll i k"
  shows "(flags (qs_slots s ! i) = 3 \<longrightarrow> qrun [Forever v, Worker v] s =
      Some (s\<lparr>qs_slots := (qs_slots s)[i := (qs_slots s ! i)\<lparr>flags := 2\<rparr>], qs_workers := (qs_workers s)[v := WLoad i]\<rparr>)) \<and>
    (flags (qs_slots s ! i) = 2 \<longrightarrow> list_all (settled i (jobs (qs_slots s ! i))) (qs_helpers s) \<longrightarrow>
      (\<forall>as t. list_all (wakes_pending i (jobs (qs_slots s ! i))) as \<longrightarrow> qrun (Forever v # as) s = Some t \<longrightarrow>
        jobs (qs_slots t ! i) = jobs (qs_slots s ! i) \<and> list_all (\<lambda>p. \<not> working i p) (qs_workers t) \<and>
        (quiescent t \<longrightarrow> flags (qs_slots t ! i) = 0)))"
proof (intro conjI impI allI)
  note inv = reachable_qinv [OF assms(1,2)]
  note i = owner_in_progress(2) [OF inv assms(3), of i, unfolded assms(4), simplified]
  assume "flags (qs_slots s ! i) = 3"
  then show "qrun [Forever v, Worker v] s = Some (s\<lparr>qs_slots := (qs_slots s)[i := (qs_slots s ! i)\<lparr>flags := 2\<rparr>],
      qs_workers := (qs_workers s)[v := WLoad i]\<rparr>)"
    using assms(3,4) i by (simp add: compare_exchange_def flag_defs numeral_2_eq_2)
next
  note inv = reachable_qinv [OF assms(1,2)]
  fix as t
  assume f: "flags (qs_slots s ! i) = 2" and h: "list_all (settled i (jobs (qs_slots s ! i))) (qs_helpers s)"
    and as: "list_all (wakes_pending i (jobs (qs_slots s ! i))) as" and run: "qrun (Forever v # as) s = Some t"
  let ?u = "s\<lparr>qs_workers := (qs_workers s)[v := WDone i 2]\<rparr>"
  have u: "qstep (Forever v) s = Some ?u" using assms(3,4) by simp
  then have "qrun as ?u = Some t" using run by (simp split: option.splits)
  from stranded_run [OF qstep_qinv [OF inv u] forever_strands [OF inv assms(3,4) f h] as this]
  have st: "stranded i (jobs (qs_slots s ! i)) t" "qinv t" by simp_all
  then show "jobs (qs_slots t ! i) = jobs (qs_slots s ! i)" by (simp add: stranded_def)
  show "list_all (\<lambda>p. \<not> working i p) (qs_workers t)"
    using st(1) leaving_not_working working_owns by (fastforce simp: stranded_def list_all_iff)
  assume "quiescent t"
  then show "flags (qs_slots t ! i) = 0" using quiescent_flags [OF st(2)] st(1) by (simp add: stranded_def)
qed

text \<open>
  Two jobs of a bucket are pending when its worker claims it; the poll of the first ends the request.
  The second stays, with all threads at rest, and waking it again changes nothing.
\<close>

theorem forever_strands_pending_job_witness:
  "\<exists>t. qrun [Call 0 0 0, Helper 0, Helper 0, Helper 0, Helper 0, Call 0 0 1, Helper 0, Helper 0, Helper 0, Helper 0,
       Worker 0, Worker 0, Worker 0, Worker 0, Worker 0, Forever 0, Worker 0, Worker 0, Worker 0, Call 0 0 1, Helper 0]
       (qinit 1 1 1) = Some t \<and>
     quiescent t \<and> jobs (qs_slots t ! 0) = 2 \<and> flags (qs_slots t ! 0) = 0"
proof -
  let ?s = "\<lparr>qs_slots = [\<lparr>flags = 2, jobs = 2\<rparr>], qs_count = 0, qs_helpers = [HIdle], qs_workers = [WPoll 0 0]\<rparr> :: qsys"
  let ?t = "\<lparr>qs_slots = [\<lparr>flags = 0, jobs = 2\<rparr>], qs_count = 0, qs_helpers = [HIdle], qs_workers = [WSleep]\<rparr> :: qsys"
  let ?as = "[Worker 0, Worker 0, Worker 0, Call 0 0 1, Helper 0]"
  have 1: "qrun [Call 0 0 0, Helper 0, Helper 0, Helper 0, Helper 0,
       Call 0 0 1, Helper 0, Helper 0, Helper 0, Helper 0,
       Worker 0, Worker 0, Worker 0, Worker 0, Worker 0] (qinit 1 1 1) = Some ?s" by code_simp
  have 2: "qrun (Forever 0 # ?as) ?s = Some ?t" by code_simp
  have 3: "quiescent ?t" by (simp add: quiescent_def)
  have p: "list_all (wakes_pending 0 (jobs (qs_slots ?s ! 0))) ?as" by simp
  have "jobs (qs_slots ?t ! 0) = jobs (qs_slots ?s ! 0) \<and> flags (qs_slots ?t ! 0) = 0"
    using forever_strands_pending_job [OF qrun_reachable [OF reachable.start 1], of 0 0 0] p 2 3 by fastforce
  moreover have "qrun (xs @ ys) s = (case qrun xs s of None \<Rightarrow> None | Some u \<Rightarrow> qrun ys u)" for xs ys s
    by (induction xs arbitrary: s) (auto split: option.splits)
  note this [of _ "Forever 0 # ?as" "qinit 1 1 1"]
  note this [of "[Call 0 0 0, Helper 0, Helper 0, Helper 0, Helper 0,
       Call 0 0 1, Helper 0, Helper 0, Helper 0, Helper 0,
       Worker 0, Worker 0, Worker 0, Worker 0, Worker 0]", unfolded 1 option.case 2 append.simps]
  ultimately show ?thesis using 3 by (intro exI [of _ ?t]) simp
qed

end
