(* ===== verification/Index_Tests.thy ===== *)
theory Index_Tests
  imports Index Text
begin

section \<open>Printing and the unit tests of the indices (nea/src/index.rs)\<close>

text \<open>
  The \<open>Debug\<close> instances of the index types, and the module \<open>tests\<close> of the source as it is written
  there: every test is a sequence of \<open>assert_eq!\<close>, a failing one is a panic. Running the tests on the
  model compares the model of \<open>from_index\<close>, \<open>from_connection_index\<close> and \<open>from_bucket_index\<close> with the
  values their authors expect.
\<close>

subsection \<open>Debug\<close>

record http2_future_index =
  hi_identifier :: u32
  hi_index :: u32

definition debug_http2_future_index :: "http2_future_index \<Rightarrow> string" where
  "debug_http2_future_index x = ''Http2FutureIndex { index: '' @ show_nat (unat (hi_index x)) @ '' }''"

definition debug_connection_index :: "connection_index \<Rightarrow> string" where
  "debug_connection_index x = ''ConnectionIndex { index: '' @ show_nat (unat (ci_index x)) @ '' }''"

definition debug_bucket_index :: "bucket_index \<Rightarrow> string" where
  "debug_bucket_index x = ''BucketIndex { index: '' @ show_nat (unat (bi_index x)) @ '' }''"

definition debug_queue_index :: "queue_index \<Rightarrow> string" where
  "debug_queue_index x = ''QueueIndex { index: '' @ show_nat (unat (qi_index x)) @ '' }''"

text \<open>The printed text determines the index, and not the identifier.\<close>

lemma show_nat_inj [simp]: "show_nat m = show_nat n \<longleftrightarrow> m = n"
  by (metis show_nat_value)

lemma unat_inj: "unat a = unat b \<longleftrightarrow> a = b" for a b :: "'a::len word"
  by (auto intro: unsigned_word_eqI)

lemma debug_injective:
  "debug_queue_index x = debug_queue_index y \<longleftrightarrow> qi_index x = qi_index y"
  "debug_bucket_index a = debug_bucket_index b \<longleftrightarrow> bi_index a = bi_index b"
  "debug_connection_index c = debug_connection_index d \<longleftrightarrow> ci_index c = ci_index d"
  "debug_http2_future_index h = debug_http2_future_index k \<longleftrightarrow> hi_index h = hi_index k"
  by (simp_all add: debug_queue_index_def debug_bucket_index_def debug_connection_index_def
      debug_http2_future_index_def unat_inj)

subsection \<open>Tests\<close>

definition assert_eq :: "'a \<Rightarrow> 'a \<Rightarrow> unit outcome" where
  "assert_eq a b = (if a = b then Ok () else Panic AssertFailed)"

fun run_asserts :: "unit outcome list \<Rightarrow> unit outcome" where
  "run_asserts [] = Ok ()"
| "run_asserts (t # ts) = bind_outcome t (\<lambda>_. run_asserts ts)"

lemma run_asserts_Ok: "run_asserts ts = Ok () \<longleftrightarrow> list_all (\<lambda>t. t = Ok ()) ts"
  by (induction ts) (auto simp: bind_outcome_Ok_iff)

definition queue_to_bucket_1 :: "unit outcome" where
  "queue_to_bucket_1 =
     (let io = \<lparr>tcp_streams = 1, http_connections = 4\<rparr> in
      run_asserts
        [assert_eq (from_index io \<lparr>qi_identifier = 0, qi_index = 0\<rparr>)
           (Ok (InputStream \<lparr>bi_identifier = 0, bi_index = 0\<rparr>)),
         assert_eq (from_index io \<lparr>qi_identifier = 1, qi_index = 5\<rparr>)
           (Ok (InputStream \<lparr>bi_identifier = 1, bi_index = 1\<rparr>))])"

definition queue_to_bucket_2 :: "unit outcome" where
  "queue_to_bucket_2 =
     (let io = \<lparr>tcp_streams = 2, http_connections = 4\<rparr> in
      run_asserts
        [assert_eq (from_index io \<lparr>qi_identifier = 0, qi_index = 0\<rparr>)
           (Ok (InputStream \<lparr>bi_identifier = 0, bi_index = 0\<rparr>)),
         assert_eq (from_index io \<lparr>qi_identifier = 1, qi_index = 6\<rparr>)
           (Ok (InputStream \<lparr>bi_identifier = 1, bi_index = 1\<rparr>))])"

definition queue_to_connection :: "unit outcome" where
  "queue_to_connection =
     (let io = \<lparr>tcp_streams = 1, http_connections = 4\<rparr> in
      run_asserts
        [assert_eq (from_index io \<lparr>qi_identifier = 0, qi_index = 1\<rparr>)
           (Ok (HttpConnection \<lparr>ci_identifier = 0, ci_index = 0\<rparr>)),
         assert_eq (from_index io \<lparr>qi_identifier = 0, qi_index = 2\<rparr>)
           (Ok (HttpConnection \<lparr>ci_identifier = 0, ci_index = 1\<rparr>)),
         assert_eq (from_index io \<lparr>qi_identifier = 0, qi_index = 6\<rparr>)
           (Ok (HttpConnection \<lparr>ci_identifier = 0, ci_index = 4\<rparr>))])"

definition connection_to_queue :: "unit outcome" where
  "connection_to_queue =
     (let io = \<lparr>tcp_streams = 1, http_connections = 4\<rparr> in
      run_asserts
        [assert_eq (from_connection_index io \<lparr>ci_identifier = 0, ci_index = 0\<rparr>)
           (Ok \<lparr>qi_identifier = 0, qi_index = 1\<rparr>),
         assert_eq (from_connection_index io \<lparr>ci_identifier = 0, ci_index = 1\<rparr>)
           (Ok \<lparr>qi_identifier = 0, qi_index = 2\<rparr>),
         assert_eq (from_connection_index io \<lparr>ci_identifier = 0, ci_index = 4\<rparr>)
           (Ok \<lparr>qi_identifier = 0, qi_index = 6\<rparr>)])"

definition bucket_to_queue :: "unit outcome" where
  "bucket_to_queue =
     (let io = \<lparr>tcp_streams = 1, http_connections = 4\<rparr>;
          io2 = \<lparr>tcp_streams = 2, http_connections = 4\<rparr> in
      run_asserts
        [assert_eq (from_bucket_index io \<lparr>bi_identifier = 0, bi_index = 0\<rparr>)
           \<lparr>qi_identifier = 0, qi_index = 0\<rparr>,
         assert_eq (from_bucket_index io \<lparr>bi_identifier = 1, bi_index = 1\<rparr>)
           \<lparr>qi_identifier = 1, qi_index = 5\<rparr>,
         assert_eq (from_bucket_index io2 \<lparr>bi_identifier = 0, bi_index = 0\<rparr>)
           \<lparr>qi_identifier = 0, qi_index = 0\<rparr>,
         assert_eq (from_bucket_index io2 \<lparr>bi_identifier = 1, bi_index = 1\<rparr>)
           \<lparr>qi_identifier = 1, qi_index = 6\<rparr>])"

lemmas index_test_defs = run_asserts_Ok assert_eq_def Let_def from_index_def from_bucket_index_def
  from_connection_index_def to_bucket_index_def to_connection_index_def per_bucket_def

lemma index_tests_pass:
  "queue_to_bucket_1 = Ok ()" "queue_to_bucket_2 = Ok ()" "queue_to_connection = Ok ()"
  "connection_to_queue = Ok ()" "bucket_to_queue = Ok ()"
  by (simp_all add: queue_to_bucket_1_def queue_to_bucket_2_def queue_to_connection_def
      connection_to_queue_def bucket_to_queue_def index_test_defs)

end
