(* ===== verification/Setjmp.thy ===== *)
theory Setjmp
  imports Prelude
begin

section \<open>Non-local jumps (shared/src/setjmp\_longjmp.rs)\<close>

text \<open>
  The two assembly routines, instruction by instruction, on the part of an x86-64 processor they
  use: general registers, the carry flag, the instruction pointer and memory read and written in
  eight-byte cells (every access of the two routines is an aligned quadword).
\<close>

datatype reg = RAX | RBX | RBP | RSP | RDI | RSI | RDX | R12 | R13 | R14 | R15

text \<open>Memory operands are a base register and a displacement.\<close>

datatype instr =
    MovStore reg usize reg
  | MovLoad reg reg usize
  | Lea reg reg usize
  | Xor32 reg reg
  | Cmp32 reg u32
  | Adc32 reg reg
  | Ret
  | JmpMem reg usize

record cpu =
  regs :: "reg \<Rightarrow> usize"
  cells :: "usize \<Rightarrow> usize"
  carry :: bool
  rip :: usize

definition set_reg :: "reg \<Rightarrow> usize \<Rightarrow> cpu \<Rightarrow> cpu" where
  "set_reg r v c = c\<lparr>regs := (regs c)(r := v)\<rparr>"

text \<open>The lower half of a register; writing it clears the upper half.\<close>

definition low32 :: "cpu \<Rightarrow> reg \<Rightarrow> u32" where
  "low32 c r = ucast (regs c r)"

fun step_instr :: "instr \<Rightarrow> cpu \<Rightarrow> cpu" where
  "step_instr (MovStore b d r) c = c\<lparr>cells := (cells c)(regs c b + d := regs c r)\<rparr>"
| "step_instr (MovLoad r b d) c = set_reg r (cells c (regs c b + d)) c"
| "step_instr (Lea r b d) c = set_reg r (regs c b + d) c"
| "step_instr (Xor32 a b) c = (set_reg a (ucast (low32 c a XOR low32 c b)) c)\<lparr>carry := False\<rparr>"
| "step_instr (Cmp32 a v) c = c\<lparr>carry := (low32 c a < v)\<rparr>"
| "step_instr (Adc32 a b) c =
     (let full = unat (low32 c a) + unat (low32 c b) + (if carry c then 1 else 0)
      in (set_reg a (ucast (of_nat full :: u32)) c)\<lparr>carry := (2 ^ 32 \<le> full)\<rparr>)"
| "step_instr Ret c = (set_reg RSP (regs c RSP + 8) c)\<lparr>rip := cells c (regs c RSP)\<rparr>"
| "step_instr (JmpMem b d) c = c\<lparr>rip := cells c (regs c b + d)\<rparr>"

text \<open>\<open>JumpBuf\<close>: eight machine words; \<open>buffer_at\<close> reads the one at an address.\<close>

type_synonym jump_buf = "usize list"

definition new_jump_buf :: jump_buf where
  "new_jump_buf = replicate 8 0"

definition buffer_at :: "usize \<Rightarrow> cpu \<Rightarrow> jump_buf" where
  "buffer_at a c = map (\<lambda>k. cells c (a + of_nat (8 * k))) [0..<8]"

definition setjmp_code :: "instr list" where
  "setjmp_code =
     [MovStore RDI 0 RBX,
      MovStore RDI 8 RBP,
      MovStore RDI 16 R12,
      MovStore RDI 24 R13,
      MovStore RDI 32 R14,
      MovStore RDI 40 R15,
      Lea RDX RSP 8,
      MovStore RDI 48 RDX,
      MovLoad RDX RSP 0,
      MovStore RDI 56 RDX,
      Xor32 RAX RAX,
      Ret]"

definition longjmp_code :: "instr list" where
  "longjmp_code =
     [Xor32 RAX RAX,
      Cmp32 RSI 1,
      Adc32 RAX RSI,
      MovLoad RBX RDI 0,
      MovLoad RBP RDI 8,
      MovLoad R12 RDI 16,
      MovLoad R13 RDI 24,
      MovLoad R14 RDI 32,
      MovLoad R15 RDI 40,
      MovLoad RSP RDI 48,
      JmpMem RDI 56]"

definition setjmp :: "cpu \<Rightarrow> cpu" where
  "setjmp c = fold step_instr setjmp_code c"

definition longjmp :: "cpu \<Rightarrow> cpu" where
  "longjmp c = fold step_instr longjmp_code c"

text \<open>The registers a called function has to preserve.\<close>

definition callee_saved :: "reg set" where
  "callee_saved = {RBX, RBP, R12, R13, R14, R15}"

text \<open>The buffer does not cover the cell that holds the return address.\<close>

definition buffer_off_stack :: "cpu \<Rightarrow> bool" where
  "buffer_off_stack c = list_all (\<lambda>k. regs c RSP \<noteq> regs c RDI + of_nat (8 * k)) [0..<8]"

lemma upt_8: "[0..<8] = [0, 1, 2, 3, 4, 5, 6, 7 :: nat]"
  by code_simp

lemma ucast_up_down [simp]: "(ucast (ucast (w :: u32) :: usize) :: u32) = w"
  by (rule bit_word_eqI) (auto simp: bit_simps)

text \<open>What \<open>setjmp\<close> leaves in the registers and in the buffer.\<close>

lemma setjmp_effect:
  assumes "buffer_off_stack c"
  shows "rip (setjmp c) = cells c (regs c RSP)"
    and "regs (setjmp c) RSP = regs c RSP + 8"
    and "regs (setjmp c) RAX = 0"
    and "r \<in> callee_saved \<Longrightarrow> regs (setjmp c) r = regs c r"
    and "buffer_at (regs c RDI) (setjmp c) =
      [regs c RBX, regs c RBP, regs c R12, regs c R13, regs c R14, regs c R15, regs c RSP + 8,
       cells c (regs c RSP)]"
  using assms
  by (auto simp: setjmp_def setjmp_code_def set_reg_def buffer_off_stack_def upt_8 low32_def
      callee_saved_def buffer_at_def)

lemma longjmp_effect:
  assumes "buffer_at (regs c RDI) c = [b0, b1, b2, b3, b4, b5, b6, b7]"
  shows "rip (longjmp c) = b7" and "regs (longjmp c) RSP = b6"
    and "regs (longjmp c) RBX = b0" and "regs (longjmp c) RBP = b1"
    and "regs (longjmp c) R12 = b2" and "regs (longjmp c) R13 = b3"
    and "regs (longjmp c) R14 = b4" and "regs (longjmp c) R15 = b5"
  using assms
  by (auto simp: longjmp_def longjmp_code_def set_reg_def buffer_at_def upt_8 Let_def low32_def)

lemma longjmp_value:
  "low32 (longjmp c) RAX = (if low32 c RSI = 0 then 1 else low32 c RSI)"
proof -
  have "low32 c RSI < 1 \<longleftrightarrow> low32 c RSI = 0" by (simp add: word_less_nat_alt unat_eq_0)
  then show ?thesis
    by (auto simp: longjmp_def longjmp_code_def set_reg_def Let_def low32_def)
qed

text \<open>
  C36: \<open>setjmp\<close> returns twice, as its contract says. It first returns 0 to its caller with every
  preserved register intact. When \<open>longjmp\<close> is later called on a buffer with the same contents
  (wherever it was copied), execution continues at that same return address with the same stack
  pointer and the same preserved registers, and the call appears to return the given value, or 1
  when that value was 0.
\<close>

theorem longjmp_resumes_setjmp:
  assumes "buffer_off_stack c"
    and "buffer_at (regs d RDI) d = buffer_at (regs c RDI) (setjmp c)"
  shows "low32 (setjmp c) RAX = 0 \<and>
    rip (longjmp d) = rip (setjmp c) \<and>
    regs (longjmp d) RSP = regs (setjmp c) RSP \<and>
    (\<forall>r \<in> callee_saved. regs (longjmp d) r = regs c r \<and> regs (setjmp c) r = regs c r) \<and>
    low32 (longjmp d) RAX = (if low32 d RSI = 0 then 1 else low32 d RSI)"
proof -
  note s = setjmp_effect [OF assms(1)]
  note l = longjmp_effect [OF assms(2) [unfolded s(5)]]
  have "\<forall>r \<in> callee_saved. regs (longjmp d) r = regs c r \<and> regs (setjmp c) r = regs c r"
    using s(4) l(3-) by (auto simp: callee_saved_def)
  with s(1-3) l(1,2) longjmp_value [of d] show ?thesis by (simp add: low32_def)
qed

definition example_cpu :: cpu where
  "example_cpu =
     \<lparr>regs = (\<lambda>r. case r of RBX \<Rightarrow> 11 | RBP \<Rightarrow> 12 | RSP \<Rightarrow> 0x2000 | RDI \<Rightarrow> 0x1000 | R12 \<Rightarrow> 13 | _ \<Rightarrow> 7),
      cells = (\<lambda>a. if a = 0x2000 then 0x400123 else 0), carry = False, rip = 0x500000\<rparr>"

text \<open>The state after the application has overwritten every register and called \<open>longjmp\<close>.\<close>

definition example_after :: cpu where
  "example_after = (setjmp example_cpu)
     \<lparr>regs := (\<lambda>r. case r of RDI \<Rightarrow> 0x1000 | RSI \<Rightarrow> 1 | _ \<Rightarrow> 99), rip := 0x600000\<rparr>"

theorem longjmp_resumes_setjmp_witness:
  "rip (longjmp example_after) = 0x400123 \<and> regs (longjmp example_after) RSP = 0x2008 \<and>
   regs (longjmp example_after) RBX = 11 \<and> low32 (longjmp example_after) RAX = 1"
proof -
  have off: "buffer_off_stack example_cpu"
    by (simp add: buffer_off_stack_def example_cpu_def upt_8)
  have buf: "buffer_at (regs example_after RDI) example_after =
      buffer_at (regs example_cpu RDI) (setjmp example_cpu)"
    by (simp add: buffer_at_def example_after_def example_cpu_def)
  note t = longjmp_resumes_setjmp [OF off buf]
  have "low32 example_after RSI = 1" by (simp add: low32_def example_after_def)
  with t setjmp_effect(1,2) [OF off] show ?thesis
    by (simp add: example_cpu_def callee_saved_def)
qed
end
