(* ===== verification/Indexer.thy ===== *)
theory Indexer
  imports Prelude
begin

section \<open>The table of file descriptors (shared/src/indexer.rs)\<close>

text \<open>
  A fixed table of atomic words, 0 meaning free. \<open>insert\<close> stores a descriptor in the first free
  entry. A descriptor is an \<open>i32\<close>; the cast to \<open>u64\<close> extends its sign.
\<close>

type_synonym i32 = "32 word"

record indexer =
  ix_handles :: "u64 list"

definition new_indexer :: indexer where
  "new_indexer = \<lparr>ix_handles = []\<rparr>"

definition initialize :: "nat \<Rightarrow> indexer \<Rightarrow> indexer" where
  "initialize n x = x\<lparr>ix_handles := replicate n 0\<rparr>"

text \<open>The loop of \<open>insert\<close> over the entries from position \<open>i\<close> on.\<close>

fun insert_loop :: "i32 \<Rightarrow> nat \<Rightarrow> u64 list \<Rightarrow> nat option \<times> u64 list" where
  "insert_loop fd i [] = (None, [])"
| "insert_loop fd i (stored # rest) =
     (case compare_exchange stored 0 (scast fd) of
        (Inl _, stored') \<Rightarrow> (case insert_loop fd (Suc i) rest of (r, rest') \<Rightarrow> (r, stored' # rest'))
      | (Inr _, stored') \<Rightarrow> (Some i, stored' # rest))"

definition insert_fd :: "i32 \<Rightarrow> indexer \<Rightarrow> nat option \<times> indexer" where
  "insert_fd fd x = (case insert_loop fd 0 (ix_handles x) of (r, hs) \<Rightarrow> (r, x\<lparr>ix_handles := hs\<rparr>))"

definition remove_fd :: "nat \<Rightarrow> indexer \<Rightarrow> indexer outcome" where
  "remove_fd i x =
     bind_outcome (index_slice (ix_handles x) i) (\<lambda>_. Ok (x\<lparr>ix_handles := (ix_handles x)[i := 0]\<rparr>))"

lemma insert_loop_spec:
  "insert_loop fd i hs =
     (case find (\<lambda>k. hs ! k = 0) [0..<length hs] of
        None \<Rightarrow> (None, hs)
      | Some k \<Rightarrow> (Some (i + k), hs[k := scast fd]))"
proof (induction hs arbitrary: i)
  case (Cons h hs)
  have "find (\<lambda>k. (h # hs) ! k = 0) [0..<length (h # hs)] =
      (if h = 0 then Some 0 else map_option Suc (find (\<lambda>k. hs ! k = 0) [0..<length hs]))"
  proof -
    have "[0..<length (h # hs)] = 0 # map Suc [0..<length hs]"
      by (simp add: map_Suc_upt upt_conv_Cons del: upt_Suc)
    moreover have "find (\<lambda>k. (h # hs) ! k = 0) (map Suc xs) = map_option Suc (find (\<lambda>k. hs ! k = 0) xs)"
      for xs by (induction xs) auto
    ultimately show ?thesis by simp
  qed
  then show ?case
    by (auto simp: compare_exchange_def Cons.IH [of "Suc i"] split: option.splits)
qed simp

text \<open>Only a zero descriptor casts to zero.\<close>

lemma scast_eq_0: "(scast (fd :: i32) :: u64) = 0 \<longleftrightarrow> fd = 0"
proof (auto simp: bit_eq_iff bit_simps)
  fix n assume all: "\<forall>n<64. \<not> bit fd (min 31 n)" and n: "n < 32" "bit fd n"
  then have "n < 64" by simp
  with all have "\<not> bit fd (min 31 n)" by blast
  moreover have "min 31 n = n" using n(1) by simp
  ultimately show False using n(2) by simp
qed

lemma insert_fd_result:
  "fst (insert_fd fd x) = find (\<lambda>k. ix_handles x ! k = 0) [0..<length (ix_handles x)]"
  by (auto simp: insert_fd_def insert_loop_spec split: option.splits)

lemma find_least:
  "find P [0..<n] = Some k \<longleftrightarrow> k < n \<and> P k \<and> (\<forall>j<k. \<not> P j)"
  by (auto simp: find_Some_iff)

text \<open>
  C38: \<open>insert\<close> gives the lowest free entry and fails exactly when the table is full; the entry then
  holds the descriptor and, unless the descriptor is 0, is not given out again before it is
  removed; \<open>remove\<close> makes it free again and no other entry changes.
\<close>

theorem indexer_insert_remove:
  assumes "insert_fd fd x = (r, x')" and "fd \<noteq> 0"
  shows "case r of
      None \<Rightarrow> (\<forall>k < length (ix_handles x). ix_handles x ! k \<noteq> 0) \<and> x' = x
    | Some i \<Rightarrow> i < length (ix_handles x) \<and> ix_handles x ! i = 0 \<and> (\<forall>k < i. ix_handles x ! k \<noteq> 0) \<and>
        ix_handles x' = (ix_handles x)[i := scast fd] \<and>
        fst (insert_fd fd' x') \<noteq> Some i \<and>
        remove_fd i x' = Ok x"
proof (cases "find (\<lambda>k. ix_handles x ! k = 0) [0..<length (ix_handles x)]")
  case None
  then show ?thesis
    using assms None by (simp add: insert_fd_def insert_loop_spec) (auto simp: find_None_iff)
next
  case (Some i)
  then have i: "i < length (ix_handles x)" "ix_handles x ! i = 0" "\<forall>k < i. ix_handles x ! k \<noteq> 0"
    by (simp_all add: find_least)
  have x': "r = Some i" "x' = x\<lparr>ix_handles := (ix_handles x)[i := scast fd]\<rparr>"
    using assms(1) Some by (auto simp: insert_fd_def insert_loop_spec)
  have "fst (insert_fd fd' x') \<noteq> Some i"
    using i assms(2) x'(2)
    by (auto simp: insert_fd_result find_least scast_eq_0)
  moreover have "(ix_handles x)[i := 0] = ix_handles x" using i(2) by (metis list_update_id)
  then have "remove_fd i x' = Ok x"
    using i(1) x'(2) by (simp add: remove_fd_def index_slice_def)
  ultimately show ?thesis using i x' by simp
qed

theorem indexer_insert_remove_witness:
  "remove_fd 1 \<lparr>ix_handles = [5, 7, 0]\<rparr> = Ok \<lparr>ix_handles = [5, 0, 0]\<rparr>"
proof -
  have "insert_fd 7 \<lparr>ix_handles = [5, 0, 0]\<rparr> = (Some 1, \<lparr>ix_handles = [5, 7, 0]\<rparr>)"
    by (simp add: insert_fd_def compare_exchange_def)
  from indexer_insert_remove [OF this, of 0] show ?thesis by simp
qed

text \<open>
  Descriptor 0 is a descriptor like any other, but the table cannot hold it: \<open>insert\<close> reports an
  entry for it and leaves that entry free, so the next insertion reports the same entry.
\<close>

theorem indexer_loses_descriptor_zero:
  assumes "insert_fd 0 x = (Some i, x')"
  shows "x' = x \<and> fst (insert_fd fd x') = Some i"
proof -
  have i: "find (\<lambda>k. ix_handles x ! k = 0) [0..<length (ix_handles x)] = Some i"
    using assms insert_fd_result [of 0 x] by simp
  then have "ix_handles x ! i = 0" by (simp add: find_least)
  then have "(ix_handles x)[i := 0] = ix_handles x" by (metis list_update_id)
  then have "x' = x" using assms i by (auto simp: insert_fd_def insert_loop_spec)
  with i show ?thesis by (simp add: insert_fd_result)
qed

theorem indexer_loses_descriptor_zero_witness:
  "fst (insert_fd 9 \<lparr>ix_handles = [5, 0, 0]\<rparr>) = Some 1"
proof -
  have "insert_fd 0 \<lparr>ix_handles = [5, 0, 0]\<rparr> = (Some 1, \<lparr>ix_handles = [5, 0, 0]\<rparr>)"
    by (simp add: insert_fd_def compare_exchange_def)
  from indexer_loses_descriptor_zero [OF this, of 9] show ?thesis by simp
qed
end
