(* ===== verification/Allocator.thy ===== *)
theory Allocator
  imports Prelude
begin

section \<open>The arena allocator (shared/src/allocator.rs)\<close>

text \<open>
  Every arena is a block of memory that is handed out from its end towards its start. The
  \<open>remaining\<close> counter is both the number of free bytes and the offset below which the next
  block has to end. The initial arena is part of the allocator object itself; the buckets of
  the requests are cut from one mapping. Nothing is freed one by one: \<open>clear_bucket\<close> resets the
  counter of a bucket.

  The interface \<open>bump_arena\<close> states what an arena promises. The client lemmas on sequences of
  allocations are proved in it once and hold for the initial arena and for every bucket.
\<close>

subsection \<open>Layouts\<close>

text \<open>\<open>std::alloc::Layout\<close> with its contract: the alignment is a power of two and the size,
  rounded up to it, fits \<open>isize\<close>.\<close>

record layout =
  lay_size :: usize
  lay_align :: usize

definition is_power_of_two :: "usize \<Rightarrow> bool" where
  "is_power_of_two a = list_ex (\<lambda>k. a = 2 ^ k) [0..<64]"

definition from_size_align :: "usize \<Rightarrow> usize \<Rightarrow> layout option" where
  "from_size_align sz align =
     (if is_power_of_two align \<and> unat sz \<le> 2 ^ 63 - unat align
      then Some \<lparr>lay_size = sz, lay_align = align\<rparr> else None)"

definition layout_ok :: "layout \<Rightarrow> bool" where
  "layout_ok l = (from_size_align (lay_size l) (lay_align l) \<noteq> None)"

subsection \<open>State and operations\<close>

definition INITIAL_ARENA_SIZE :: usize where
  "INITIAL_ARENA_SIZE = 4096 * 128"

definition MAX_SUPPORTED_ALIGN :: usize where
  "MAX_SUPPORTED_ALIGN = 4096"

record bucket =
  bk_start :: usize
  bk_size :: usize
  bk_remaining :: usize

text \<open>\<open>sa_arena\<close> is the address of the field \<open>initial_arena\<close>.\<close>

record server_alloc =
  sa_arena :: usize
  sa_arena_remaining :: usize
  sa_buckets :: "bucket list"

definition new_server_alloc :: "usize \<Rightarrow> server_alloc" where
  "new_server_alloc address =
     \<lparr>sa_arena = address, sa_arena_remaining = INITIAL_ARENA_SIZE, sa_buckets = []\<rparr>"

text \<open>
  \<open>try_alloc_help\<close>: the pointer or \<open>None\<close>, and the new value of the counter.
\<close>

definition try_alloc_help :: "layout \<Rightarrow> usize \<Rightarrow> usize \<Rightarrow> usize option \<times> usize" where
  "try_alloc_help layout origin remaining =
     (let sz = lay_size layout;
          align = lay_align layout;
          align_mask_to_round_down = NOT (align - 1)
      in if align > MAX_SUPPORTED_ALIGN then (None, remaining)
         else case fetch_update remaining
                (\<lambda>r. if sz > r then None else Some ((r - sz) AND align_mask_to_round_down)) of
           (Inl _, remaining') \<Rightarrow> (None, remaining')
         | (Inr _, allocated) \<Rightarrow> (non_null_new (origin + allocated), allocated))"

definition try_allocate_in_initial_bucket ::
    "layout \<Rightarrow> server_alloc \<Rightarrow> (usize option \<times> server_alloc) outcome" where
  "try_allocate_in_initial_bucket layout s =
     (case non_null_new (sa_arena s) of
        None \<Rightarrow> Panic Unwrap
      | Some origin \<Rightarrow>
          (case try_alloc_help layout origin (sa_arena_remaining s) of
             (p, r) \<Rightarrow> Ok (p, s\<lparr>sa_arena_remaining := r\<rparr>)))"

definition try_allocate_in_bucket ::
    "layout \<Rightarrow> nat \<Rightarrow> server_alloc \<Rightarrow> usize option \<times> server_alloc" where
  "try_allocate_in_bucket layout i s =
     (if i < length (sa_buckets s) then
        (let b = sa_buckets s ! i in
         case try_alloc_help layout (bk_start b) (bk_remaining b) of
           (p, r) \<Rightarrow> (p, s\<lparr>sa_buckets := (sa_buckets s)[i := b\<lparr>bk_remaining := r\<rparr>]\<rparr>))
      else (None, s))"

definition clear_bucket :: "nat \<Rightarrow> server_alloc \<Rightarrow> server_alloc outcome" where
  "clear_bucket i s =
     bind_outcome (index_slice (sa_buckets s) i) (\<lambda>b.
       Ok (s\<lparr>sa_buckets := (sa_buckets s)[i := b\<lparr>bk_remaining := bk_size b\<rparr>]\<rparr>))"

text \<open>
  \<open>mmap\<close>, over the system call: \<open>libc_mmap len\<close> is the address it returns for an anonymous
  private mapping of \<open>len\<close> bytes (all ones on failure) and \<open>errno\<close> is the error it leaves.
\<close>

definition mmap ::
    "(usize \<Rightarrow> usize) \<Rightarrow> io_error \<Rightarrow> usize \<Rightarrow> usize \<Rightarrow> usize io_result outcome" where
  "mmap libc_mmap errno number_of_buckets bucket_size =
     (let len = number_of_buckets * bucket_size;
          ptr = libc_mmap len
      in if ptr = - 1 then Ok (Inl errno)
         else case non_null_new ptr of
           None \<Rightarrow> Panic (Explicit ''mmap should give an error, or a valid pointer!'')
         | Some non_null \<Rightarrow> Ok (Inr non_null))"

definition new_bucket :: "usize \<Rightarrow> usize \<Rightarrow> nat \<Rightarrow> bucket" where
  "new_bucket ptr bucket_size i =
     \<lparr>bk_start = ptr + of_nat i * bucket_size, bk_size = bucket_size, bk_remaining = bucket_size\<rparr>"

definition initialize_buckets ::
    "(usize \<Rightarrow> usize) \<Rightarrow> io_error \<Rightarrow> usize \<Rightarrow> usize \<Rightarrow> server_alloc \<Rightarrow>
     (unit io_result \<times> server_alloc) outcome" where
  "initialize_buckets libc_mmap errno number_of_buckets bucket_size s =
     bind_outcome (mmap libc_mmap errno number_of_buckets bucket_size) (\<lambda>res.
       case res of
         Inl e \<Rightarrow> Ok (Inl e, s)
       | Inr ptr \<Rightarrow>
           Ok (Inr (), s\<lparr>sa_buckets :=
             map (new_bucket ptr bucket_size) [0..<unat number_of_buckets]\<rparr>))"

subsection \<open>Rounding down\<close>

lemma and_not_mask_div: "w AND NOT (mask k) = push_bit k (drop_bit k w)" for w :: "'a::len word"
  by (rule bit_word_eqI) (auto simp: bit_simps)

lemma unat_and_not_mask:
  fixes w :: "'a::len word"
  shows "unat (w AND NOT (mask k)) = unat w div 2 ^ k * 2 ^ k"
proof -
  have "unat (push_bit k (drop_bit k w)) = take_bit LENGTH('a) (unat w div 2 ^ k * 2 ^ k)"
    unfolding unsigned_push_bit_eq unsigned_drop_bit_eq
    by (simp add: push_bit_eq_mult drop_bit_eq_div take_bit_nat_eq_self)
  moreover have "unat w div 2 ^ k * 2 ^ k < 2 ^ LENGTH('a)"
    by (rule le_less_trans [OF div_times_less_eq_dividend unsigned_less])
  ultimately show ?thesis by (simp add: and_not_mask_div take_bit_nat_eq_self)
qed

lemma unat_exp_small: "k < LENGTH('a) \<Longrightarrow> unat (2 ^ k :: 'a::len word) = 2 ^ k"
  using unat_of_nat_small [of "2 ^ k", where 'a = 'a] by simp

lemma is_power_of_two_iff: "is_power_of_two a \<longleftrightarrow> (\<exists>k<64. a = 2 ^ k)"
  by (auto simp: is_power_of_two_def list_ex_iff)

lemma round_down_unat:
  assumes "is_power_of_two a"
  shows "unat (w AND NOT (a - 1)) = unat w div unat a * unat a" and "0 < unat a"
proof -
  obtain k where k: "k < 64" "a = 2 ^ k" using assms by (auto simp: is_power_of_two_iff)
  then have "a - 1 = mask k" by (simp add: mask_eq_decr_exp)
  moreover have "unat a = 2 ^ k" using k unat_exp_small [where 'a = 64] by simp
  ultimately show "unat (w AND NOT (a - 1)) = unat w div unat a * unat a" and "0 < unat a"
    by (simp_all add: unat_and_not_mask)
qed

subsection \<open>One allocation\<close>

text \<open>
  An arena at address \<open>origin\<close> of \<open>sz\<close> bytes: aligned to the largest supported alignment, and a
  range of addresses that does not wrap.
\<close>

definition arena_ok :: "usize \<Rightarrow> usize \<Rightarrow> usize \<Rightarrow> bool" where
  "arena_ok origin sz remaining \<longleftrightarrow>
     origin \<noteq> 0 \<and> 4096 dvd unat origin \<and> unat origin + unat sz < 2 ^ 64 \<and> remaining \<le> sz"

lemma layout_ok_power: "layout_ok l \<Longrightarrow> is_power_of_two (lay_align l)"
  by (auto simp: layout_ok_def from_size_align_def split: if_splits)

lemma align_dvd_4096:
  assumes "layout_ok l" and "\<not> lay_align l > MAX_SUPPORTED_ALIGN"
  shows "unat (lay_align l) dvd 4096"
proof -
  obtain k where k: "k < 64" "lay_align l = 2 ^ k"
    using layout_ok_power [OF assms(1)] by (auto simp: is_power_of_two_iff)
  then have a: "unat (lay_align l) = 2 ^ k" using unat_exp_small [where 'a = 64] by simp
  with assms(2) have "(2::nat) ^ k \<le> 2 ^ 12"
    by (simp add: MAX_SUPPORTED_ALIGN_def not_less word_le_nat_alt)
  then have "k \<le> 12" by (rule power_le_imp_le_exp [rotated]) simp
  then have "(2::nat) ^ k dvd 2 ^ 12" by (rule le_imp_power_dvd)
  with a show ?thesis by simp
qed

lemma try_alloc_help_fails:
  "lay_align l > MAX_SUPPORTED_ALIGN \<or> lay_size l > remaining \<Longrightarrow>
   try_alloc_help l origin remaining = (None, remaining)"
  by (auto simp: try_alloc_help_def fetch_update_def Let_def)

text \<open>The offset an allocation gets.\<close>

definition bump :: "layout \<Rightarrow> usize \<Rightarrow> usize" where
  "bump l remaining = (remaining - lay_size l) AND NOT (lay_align l - 1)"

lemma bump_spec:
  assumes "layout_ok l" and "lay_size l \<le> remaining"
  shows "unat (bump l remaining) + unat (lay_size l) \<le> unat remaining"
    and "unat remaining < unat (bump l remaining) + unat (lay_size l) + unat (lay_align l)"
    and "unat (lay_align l) dvd unat (bump l remaining)"
proof -
  let ?a = "unat (lay_align l)" and ?d = "unat remaining - unat (lay_size l)"
  note p = layout_ok_power [OF assms(1)]
  have le: "unat (lay_size l) \<le> unat remaining" using assms(2) by (simp add: word_le_nat_alt)
  have b: "unat (bump l remaining) = ?d div ?a * ?a"
    using assms(2) by (simp add: bump_def round_down_unat(1) [OF p] unat_sub)
  have "?d div ?a * ?a \<le> ?d" by (rule div_times_less_eq_dividend)
  moreover have "?d < ?d div ?a * ?a + ?a" 
    using dividend_less_div_times [OF round_down_unat(2) [OF p], of ?d] by linarith
  ultimately show "unat (bump l remaining) + unat (lay_size l) \<le> unat remaining"
    and "unat remaining < unat (bump l remaining) + unat (lay_size l) + ?a"
    and "?a dvd unat (bump l remaining)"
    using b le by (linarith, linarith, simp)
qed

lemma bump_le: "layout_ok l \<Longrightarrow> lay_size l \<le> remaining \<Longrightarrow> bump l remaining \<le> remaining"
  using bump_spec(1) [of l remaining] by (simp add: word_le_nat_alt)

lemma try_alloc_help_succeeds:
  assumes "arena_ok origin sz remaining" and "layout_ok l"
    and "lay_align l \<le> MAX_SUPPORTED_ALIGN" and "lay_size l \<le> remaining"
  shows "try_alloc_help l origin remaining =
           (Some (origin + bump l remaining), bump l remaining)"
    and "unat (origin + bump l remaining) = unat origin + unat (bump l remaining)"
    and "unat (lay_align l) dvd unat (origin + bump l remaining)"
proof -
  have "unat (bump l remaining) \<le> unat sz"
    using bump_le [OF assms(2,4)] assms(1) by (simp add: arena_ok_def word_le_nat_alt)
  then show u: "unat (origin + bump l remaining) = unat origin + unat (bump l remaining)"
    using assms(1) by (intro unat_add_lem [THEN iffD1]) (simp add: arena_ok_def)
  then have "origin + bump l remaining \<noteq> 0"
    using assms(1) by (auto simp: arena_ok_def unat_eq_0 [symmetric])
  then show "try_alloc_help l origin remaining =
      (Some (origin + bump l remaining), bump l remaining)"
    using assms(3,4)
    by (simp add: try_alloc_help_def fetch_update_def Let_def bump_def non_null_new_def not_less)
  have "unat (lay_align l) dvd 4096" using assms(2,3) by (intro align_dvd_4096) simp_all
  then have "unat (lay_align l) dvd unat origin"
    using assms(1) by (auto simp: arena_ok_def intro: dvd_trans)
  then show "unat (lay_align l) dvd unat (origin + bump l remaining)"
    unfolding u using bump_spec(3) [OF assms(2,4)] by (rule dvd_add)
qed

lemma arena_ok_bump:
  "arena_ok origin sz remaining \<Longrightarrow> layout_ok l \<Longrightarrow> lay_size l \<le> remaining \<Longrightarrow>
   arena_ok origin sz (bump l remaining)"
  using bump_le [of l remaining] by (auto simp: arena_ok_def)

text \<open>All three cases of an allocation.\<close>

lemma try_alloc_help_cases:
  assumes "arena_ok origin sz remaining" and "layout_ok l"
  obtains
    (fails) "lay_align l > MAX_SUPPORTED_ALIGN \<or> lay_size l > remaining"
      "try_alloc_help l origin remaining = (None, remaining)"
  | (succeeds) "lay_align l \<le> MAX_SUPPORTED_ALIGN" "lay_size l \<le> remaining"
      "try_alloc_help l origin remaining = (Some (origin + bump l remaining), bump l remaining)"
  using try_alloc_help_fails [of l remaining origin] try_alloc_help_succeeds(1) [OF assms]
  by (metis not_less)

subsection \<open>The arena interface\<close>

text \<open>The bytes a sequence of allocations may need: each size, with its alignment as slack.\<close>

definition worst_case :: "layout list \<Rightarrow> nat" where
  "worst_case ls = sum_list (map (\<lambda>l. unat (lay_size l) + unat (lay_align l)) ls)"

text \<open>
  What an arena promises. \<open>base\<close> is the address of its first byte, \<open>free\<close> the number of bytes it can
  still hand out; \<open>take\<close> allocates.
\<close>

locale bump_arena =
  fixes take_layout :: "layout \<Rightarrow> 's \<Rightarrow> usize option \<times> 's"
    and base :: "'s \<Rightarrow> nat"
    and free :: "'s \<Rightarrow> nat"
    and ok :: "'s \<Rightarrow> bool"
  assumes take_None: "ok s \<Longrightarrow> layout_ok l \<Longrightarrow> take_layout l s = (None, s') \<Longrightarrow>
      s' = s \<and> (free s < unat (lay_size l) \<or> MAX_SUPPORTED_ALIGN < lay_align l)"
    and take_Some: "ok s \<Longrightarrow> layout_ok l \<Longrightarrow> take_layout l s = (Some p, s') \<Longrightarrow>
      ok s' \<and> base s' = base s \<and> unat p = base s + free s' \<and>
      free s' + unat (lay_size l) \<le> free s \<and>
      free s < free s' + unat (lay_size l) + unat (lay_align l) \<and>
      unat (lay_align l) dvd unat p"
begin

text \<open>A sequence of allocations: the pairs of address and size of those that succeed.\<close>

fun take_all :: "layout list \<Rightarrow> 's \<Rightarrow> (nat \<times> nat) list \<times> 's" where
  "take_all [] s = ([], s)"
| "take_all (l # ls) s =
     (case take_layout l s of
        (None, s') \<Rightarrow> take_all ls s'
      | (Some p, s') \<Rightarrow>
          (case take_all ls s' of (rs, t) \<Rightarrow> ((unat p, unat (lay_size l)) # rs, t)))"

lemma take_ok: "ok s \<Longrightarrow> layout_ok l \<Longrightarrow> take_layout l s = (r, s') \<Longrightarrow> ok s' \<and> base s' = base s \<and> free s' \<le> free s"
  using take_None [of s l s'] take_Some [of s l _ s'] by (cases r) fastforce+

lemma take_all_ok:
  "ok s \<Longrightarrow> list_all layout_ok ls \<Longrightarrow> take_all ls s = (rs, t) \<Longrightarrow>
   ok t \<and> base t = base s \<and> free t \<le> free s"
proof (induction ls arbitrary: s rs)
  case (Cons l ls)
  obtain r s' where r: "take_layout l s = (r, s')" by (cases "take_layout l s")
  obtain rs' where "take_all ls s' = (rs', t)"
    using Cons.prems(3) r by (auto split: option.splits prod.splits)
  with Cons.IH [of s' rs'] take_ok [OF Cons.prems(1) _ r] Cons.prems(2) show ?case by auto
qed simp

text \<open>The blocks of a sequence lie between the two values of the counter, each below its predecessors.\<close>

lemma take_all_blocks:
  "ok s \<Longrightarrow> list_all layout_ok ls \<Longrightarrow> take_all ls s = (rs, t) \<Longrightarrow>
   (\<forall>(a, n) \<in> set rs. base s + free t \<le> a \<and> a + n \<le> base s + free s) \<and>
   sorted_wrt (\<lambda>(a, n) (b, m). b + m \<le> a) rs"
proof (induction ls arbitrary: s rs)
  case (Cons l ls)
  obtain r s' where r: "take_layout l s = (r, s')" by (cases "take_layout l s")
  obtain rs' where rs': "take_all ls s' = (rs', t)"
    using Cons.prems(3) r by (auto split: option.splits prod.splits)
  have s': "ok s' \<and> base s' = base s \<and> free s' \<le> free s"
    using take_ok [OF Cons.prems(1) _ r] Cons.prems(2) by simp
  have IH: "(\<forall>(a, n) \<in> set rs'. base s + free t \<le> a \<and> a + n \<le> base s + free s') \<and>
      sorted_wrt (\<lambda>(a, n) (b, m). b + m \<le> a) rs'"
    using Cons.IH [OF _ _ rs'] s' Cons.prems(2) by simp
  have t: "free t \<le> free s'" using take_all_ok [OF _ _ rs'] s' Cons.prems(2) by simp
  show ?case
  proof (cases r)
    case None
    then have "rs = rs'" using Cons.prems(3) r rs' by simp
    with IH s' show ?thesis by fastforce
  next
    case (Some p)
    then have "rs = (unat p, unat (lay_size l)) # rs'" using Cons.prems(3) r rs' by simp
    moreover have "unat p = base s + free s'" "free s' + unat (lay_size l) \<le> free s"
      using take_Some [OF Cons.prems(1) _ r [unfolded Some]] Cons.prems(2) by simp_all
    ultimately show ?thesis using IH s' t by fastforce
  qed
qed simp

lemma take_all_bytes:
  "ok s \<Longrightarrow> list_all layout_ok ls \<Longrightarrow> take_all ls s = (rs, t) \<Longrightarrow>
   sum_list (map snd rs) + free t \<le> free s"
proof (induction ls arbitrary: s rs)
  case (Cons l ls)
  obtain r s' where r: "take_layout l s = (r, s')" by (cases "take_layout l s")
  obtain rs' where rs': "take_all ls s' = (rs', t)"
    using Cons.prems(3) r by (auto split: option.splits prod.splits)
  have s': "ok s' \<and> free s' \<le> free s"
    using take_ok [OF Cons.prems(1) _ r] Cons.prems(2) by simp
  then have IH: "sum_list (map snd rs') + free t \<le> free s'"
    using Cons.IH [OF _ _ rs'] Cons.prems(2) by simp
  show ?case
    using IH s' Cons.prems(2,3) r rs' take_Some [OF Cons.prems(1), of l _ s']
    by (cases r) fastforce+
qed simp

text \<open>Enough room: no allocation of a sequence fails whose worst case fits into the free bytes.\<close>

lemma take_all_succeeds:
  "ok s \<Longrightarrow> list_all layout_ok ls \<Longrightarrow> list_all (\<lambda>l. lay_align l \<le> MAX_SUPPORTED_ALIGN) ls \<Longrightarrow>
   worst_case ls \<le> free s \<Longrightarrow> map snd (fst (take_all ls s)) = map (\<lambda>l. unat (lay_size l)) ls"
proof (induction ls arbitrary: s)
  case (Cons l ls)
  have "unat (lay_size l) \<le> free s" using Cons.prems(4) by (simp add: worst_case_def)
  then obtain p s' where p: "take_layout l s = (Some p, s')"
    using take_None [OF Cons.prems(1), of l] Cons.prems(2,3)
    by (cases "take_layout l s"; cases "fst (take_layout l s)") (auto simp: not_less)
  then have s': "ok s'" "free s < free s' + unat (lay_size l) + unat (lay_align l)"
    using take_Some [OF Cons.prems(1) _ p] Cons.prems(2) by simp_all
  then have "worst_case ls \<le> free s'" using Cons.prems(4) by (simp add: worst_case_def)
  then show ?case using Cons.IH [OF s'(1)] Cons.prems(2,3) p by (auto split: prod.splits)
qed simp

end

subsection \<open>The arenas of the server\<close>

text \<open>
  An arena is named by its owner: \<open>None\<close> is the initial arena, \<open>Some i\<close> the bucket \<open>i\<close>. \<open>arenas\<close> gives
  the address, the size and the counter of an arena.
\<close>

type_synonym arena_map = "nat option \<rightharpoonup> usize \<times> usize \<times> usize"

definition arenas :: "server_alloc \<Rightarrow> arena_map" where
  "arenas s owner =
     (case owner of
        None \<Rightarrow> Some (sa_arena s, INITIAL_ARENA_SIZE, sa_arena_remaining s)
      | Some i \<Rightarrow>
          (if i < length (sa_buckets s)
           then let b = sa_buckets s ! i in Some (bk_start b, bk_size b, bk_remaining b)
           else None))"

definition ranges_disjoint :: "nat \<times> nat \<Rightarrow> nat \<times> nat \<Rightarrow> bool" where
  "ranges_disjoint x y \<longleftrightarrow> fst x + snd x \<le> fst y \<or> fst y + snd y \<le> fst x"

definition arenas_ok :: "arena_map \<Rightarrow> bool" where
  "arenas_ok A \<longleftrightarrow>
     (\<forall>ow b n r. A ow = Some (b, n, r) \<longrightarrow> arena_ok b n r) \<and>
     (\<forall>ow ow' b n r b' n' r'. ow \<noteq> ow' \<longrightarrow> A ow = Some (b, n, r) \<longrightarrow> A ow' = Some (b', n', r') \<longrightarrow>
        ranges_disjoint (unat b, unat n) (unat b', unat n'))"

lemma arenas_okD: "arenas_ok A \<Longrightarrow> A ow = Some (b, n, r) \<Longrightarrow> arena_ok b n r"
  by (auto simp: arenas_ok_def)

lemma arenas_ok_disjoint:
  "arenas_ok A \<Longrightarrow> ow \<noteq> ow' \<Longrightarrow> A ow = Some (b, n, r) \<Longrightarrow> A ow' = Some (b', n', r') \<Longrightarrow>
   ranges_disjoint (unat b, unat n) (unat b', unat n')"
  unfolding arenas_ok_def by blast

lemma arenas_ok_update:
  "arenas_ok A \<Longrightarrow> A ow = Some (b, n, r) \<Longrightarrow> r' \<le> n \<Longrightarrow> arenas_ok (A(ow \<mapsto> (b, n, r')))"
  unfolding arenas_ok_def arena_ok_def by (auto split: if_splits)

text \<open>The three operations, as updates of one arena.\<close>

lemma arenas_initial:
  "arenas (s\<lparr>sa_arena_remaining := r\<rparr>) = (arenas s)(None \<mapsto> (sa_arena s, INITIAL_ARENA_SIZE, r))"
  by (rule ext) (auto simp: arenas_def split: option.splits)

lemma arenas_bucket:
  "i < length (sa_buckets s) \<Longrightarrow>
   arenas (s\<lparr>sa_buckets := (sa_buckets s)[i := (sa_buckets s ! i)\<lparr>bk_remaining := r\<rparr>]\<rparr>) =
   (arenas s)(Some i \<mapsto> (bk_start (sa_buckets s ! i), bk_size (sa_buckets s ! i), r))"
  by (rule ext) (auto simp: arenas_def Let_def nth_update_if split: option.splits)

lemma arenas_bucket_at:
  "i < length (sa_buckets s) \<Longrightarrow>
   arenas s (Some i) =
     Some (bk_start (sa_buckets s ! i), bk_size (sa_buckets s ! i), bk_remaining (sa_buckets s ! i))"
  by (simp add: arenas_def Let_def)

lemma arenas_Some_iff:
  "arenas s (Some i) = Some (b, n, r) \<longleftrightarrow>
   i < length (sa_buckets s) \<and> sa_buckets s ! i = \<lparr>bk_start = b, bk_size = n, bk_remaining = r\<rparr>"
  by (auto simp: arenas_def Let_def split: if_splits)

text \<open>The initial arena and every bucket are arenas in the sense of the interface.\<close>

definition take_initial :: "layout \<Rightarrow> server_alloc \<Rightarrow> usize option \<times> server_alloc" where
  "take_initial l s =
     (case try_allocate_in_initial_bucket l s of Inr x \<Rightarrow> x | Inl _ \<Rightarrow> (None, s))"

definition arena_base :: "nat option \<Rightarrow> server_alloc \<Rightarrow> nat" where
  "arena_base ow s = (case arenas s ow of Some (b, _, _) \<Rightarrow> unat b | None \<Rightarrow> 0)"

definition arena_free :: "nat option \<Rightarrow> server_alloc \<Rightarrow> nat" where
  "arena_free ow s = (case arenas s ow of Some (_, _, r) \<Rightarrow> unat r | None \<Rightarrow> 0)"

definition server_ok :: "nat option \<Rightarrow> server_alloc \<Rightarrow> bool" where
  "server_ok ow s \<longleftrightarrow> arenas_ok (arenas s) \<and> arenas s ow \<noteq> None"

lemma arena_base_free:
  "arenas s ow = Some (b, n, r) \<Longrightarrow> arena_base ow s = unat b \<and> arena_free ow s = unat r"
  by (simp add: arena_base_def arena_free_def)

lemma take_initial_eq:
  "arenas_ok (arenas s) \<Longrightarrow>
   take_initial l s =
     (case try_alloc_help l (sa_arena s) (sa_arena_remaining s) of
        (p, r) \<Rightarrow> (p, s\<lparr>sa_arena_remaining := r\<rparr>))"
  using arenas_okD [of "arenas s" None]
  by (auto simp: take_initial_def try_allocate_in_initial_bucket_def non_null_new_def arenas_def
      arena_ok_def split: prod.splits)

text \<open>One allocation in the arena \<open>ow\<close>, whichever operation performs it.\<close>

lemma allocation_spec:
  assumes ok: "server_ok ow s" and l: "layout_ok l"
    and A: "arenas s ow = Some (b, n, r)"
    and step: "try_alloc_help l b r = (p, r')"
    and upd: "arenas s' = (arenas s)(ow \<mapsto> (b, n, r'))"
  shows "p = None \<Longrightarrow> r' = r \<and> (arena_free ow s < unat (lay_size l) \<or> MAX_SUPPORTED_ALIGN < lay_align l)"
    and "p = Some a \<Longrightarrow>
      server_ok ow s' \<and> arena_base ow s' = arena_base ow s \<and>
      unat a = arena_base ow s + arena_free ow s' \<and>
      arena_free ow s' + unat (lay_size l) \<le> arena_free ow s \<and>
      arena_free ow s < arena_free ow s' + unat (lay_size l) + unat (lay_align l) \<and>
      unat (lay_align l) dvd unat a"
proof -
  have ao: "arena_ok b n r" using ok A arenas_okD by (auto simp: server_ok_def)
  note bf = arena_base_free [OF A]
  have bf': "arena_base ow s' = unat b" "arena_free ow s' = unat r'"
    using arena_base_free [of s' ow b n r'] upd by simp_all
  show "p = None \<Longrightarrow> r' = r \<and> (arena_free ow s < unat (lay_size l) \<or> MAX_SUPPORTED_ALIGN < lay_align l)"
    by (rule try_alloc_help_cases [OF ao l]) (use step bf in \<open>auto simp: word_less_nat_alt\<close>)
  assume p: "p = Some a"
  have "lay_align l \<le> MAX_SUPPORTED_ALIGN \<and> lay_size l \<le> r \<and> r' = bump l r \<and> a = b + bump l r"
    by (rule try_alloc_help_cases [OF ao l]) (use step p in simp_all)
  then have c: "lay_align l \<le> MAX_SUPPORTED_ALIGN" "lay_size l \<le> r" "r' = bump l r" "a = b + bump l r"
    by simp_all
  have "arena_ok b n r'" using arena_ok_bump [OF ao l c(2)] c(3) by simp
  then have "arenas_ok (arenas s')"
    unfolding upd using ok A by (intro arenas_ok_update) (auto simp: server_ok_def arena_ok_def)
  then have "server_ok ow s'" by (simp add: server_ok_def upd)
  with bf bf' c bump_spec [OF l c(2)] try_alloc_help_succeeds(2,3) [OF ao l c(1,2)]
  show "server_ok ow s' \<and> arena_base ow s' = arena_base ow s \<and>
      unat a = arena_base ow s + arena_free ow s' \<and>
      arena_free ow s' + unat (lay_size l) \<le> arena_free ow s \<and>
      arena_free ow s < arena_free ow s' + unat (lay_size l) + unat (lay_align l) \<and>
      unat (lay_align l) dvd unat a"
    by simp
qed

interpretation initial: bump_arena take_initial "arena_base None" "arena_free None" "server_ok None"
proof unfold_locales
  fix s l p s'
  assume ok: "server_ok None s" and l: "layout_ok l"
  have A: "arenas s None = Some (sa_arena s, INITIAL_ARENA_SIZE, sa_arena_remaining s)"
    by (simp add: arenas_def)
  obtain q r' where h: "try_alloc_help l (sa_arena s) (sa_arena_remaining s) = (q, r')"
    by (cases "try_alloc_help l (sa_arena s) (sa_arena_remaining s)")
  have e: "take_initial l s = (q, s\<lparr>sa_arena_remaining := r'\<rparr>)"
    using ok h by (simp add: take_initial_eq server_ok_def)
  note spec = allocation_spec [OF ok l A h arenas_initial]
  show "take_initial l s = (None, s') \<Longrightarrow>
      s' = s \<and> (arena_free None s < unat (lay_size l) \<or> MAX_SUPPORTED_ALIGN < lay_align l)"
    using spec(1) e by auto
  show "take_initial l s = (Some p, s') \<Longrightarrow>
      server_ok None s' \<and> arena_base None s' = arena_base None s \<and>
      unat p = arena_base None s + arena_free None s' \<and>
      arena_free None s' + unat (lay_size l) \<le> arena_free None s \<and>
      arena_free None s < arena_free None s' + unat (lay_size l) + unat (lay_align l) \<and>
      unat (lay_align l) dvd unat p"
    using spec(2) e by auto
qed

interpretation bucket: bump_arena "\<lambda>l. try_allocate_in_bucket l i" "arena_base (Some i)"
  "arena_free (Some i)" "server_ok (Some i)" for i
proof unfold_locales
  fix s l p s'
  assume ok: "server_ok (Some i) s" and l: "layout_ok l"
  have i: "i < length (sa_buckets s)" using ok by (auto simp: server_ok_def arenas_def split: if_splits)
  let ?b = "sa_buckets s ! i"
  note A = arenas_bucket_at [OF i]
  obtain q r' where h: "try_alloc_help l (bk_start ?b) (bk_remaining ?b) = (q, r')"
    by (cases "try_alloc_help l (bk_start ?b) (bk_remaining ?b)")
  have e: "try_allocate_in_bucket l i s =
      (q, s\<lparr>sa_buckets := (sa_buckets s)[i := ?b\<lparr>bk_remaining := r'\<rparr>]\<rparr>)"
    using i h by (simp add: try_allocate_in_bucket_def Let_def)
  note spec = allocation_spec [OF ok l A h arenas_bucket [OF i]]
  show "try_allocate_in_bucket l i s = (None, s') \<Longrightarrow>
      s' = s \<and> (arena_free (Some i) s < unat (lay_size l) \<or> MAX_SUPPORTED_ALIGN < lay_align l)"
    using spec(1) e by auto
  show "try_allocate_in_bucket l i s = (Some p, s') \<Longrightarrow>
      server_ok (Some i) s' \<and> arena_base (Some i) s' = arena_base (Some i) s \<and>
      unat p = arena_base (Some i) s + arena_free (Some i) s' \<and>
      arena_free (Some i) s' + unat (lay_size l) \<le> arena_free (Some i) s \<and>
      arena_free (Some i) s < arena_free (Some i) s' + unat (lay_size l) + unat (lay_align l) \<and>
      unat (lay_align l) dvd unat p"
    using spec(2) e by auto
qed

subsection \<open>The mapping of the buckets\<close>

text \<open>
  What the allocator relies on: the linker places it (its type is aligned to 4096) and the
  kernel answers the mapping of all buckets with a page-aligned range of fresh addresses.
\<close>

definition placement_ok :: "usize \<Rightarrow> usize \<Rightarrow> usize \<Rightarrow> usize \<Rightarrow> bool" where
  "placement_ok address ptr n sz \<longleftrightarrow>
     address \<noteq> 0 \<and> 4096 dvd unat address \<and> unat address + unat INITIAL_ARENA_SIZE < 2 ^ 64 \<and>
     ptr \<noteq> 0 \<and> 4096 dvd unat ptr \<and> 4096 dvd unat sz \<and>
     unat ptr + unat n * unat sz < 2 ^ 64 \<and>
     ranges_disjoint (unat address, unat INITIAL_ARENA_SIZE) (unat ptr, unat n * unat sz)"

lemma placement_not_failed: "placement_ok address ptr n sz \<Longrightarrow> ptr \<noteq> - 1"
  by (auto simp: placement_ok_def unsigned_minus_1_eq_mask mask_eq_exp_minus_1)

lemma initialize_buckets_eq:
  assumes "placement_ok address (libc_mmap (n * sz)) n sz"
  shows "initialize_buckets libc_mmap errno n sz s =
    Ok (Inr (), s\<lparr>sa_buckets := map (new_bucket (libc_mmap (n * sz)) sz) [0..<unat n]\<rparr>)"
  using placement_not_failed [OF assms] assms
  by (simp add: initialize_buckets_def mmap_def Let_def non_null_new_def placement_ok_def)

lemma new_bucket_start:
  assumes "placement_ok address ptr n sz" and "i < unat n"
  shows "unat (bk_start (new_bucket ptr sz i)) = unat ptr + i * unat sz"
proof -
  have "Suc i * unat sz \<le> unat n * unat sz" using assms(2) by (intro mult_le_mono1) simp
  then have b: "unat ptr + i * unat sz < 2 ^ 64" using assms(1) by (simp add: placement_ok_def)
  have "unat n < 2 ^ LENGTH(64)" by (rule unsigned_less)
  then have i: "i < 2 ^ 64" using assms(2) by simp
  have "unat (of_nat i * sz) = i * unat sz"
    using b i by (simp add: unat_word_ariths unat_of_nat)
  then show ?thesis using b by (simp add: new_bucket_def unat_word_ariths)
qed

lemma initialized_arenas:
  assumes P: "placement_ok address ptr n sz"
  shows "arenas_ok (arenas ((new_server_alloc address)
    \<lparr>sa_buckets := map (new_bucket ptr sz) [0..<unat n]\<rparr>))" (is "arenas_ok (arenas ?s)")
proof -
  have size: "i * unat sz + unat sz \<le> unat n * unat sz" if "i < unat n" for i
    using that mult_le_mono1 [of "Suc i" "unat n" "unat sz"] by simp
  have bucket: "arenas ?s (Some i) = Some (b, m, r) \<Longrightarrow>
      i < unat n \<and> m = sz \<and> r = sz \<and> unat b = unat ptr + i * unat sz" for i b m r
    using new_bucket_start [OF P, of i]
    by (auto simp: arenas_Some_iff new_bucket_def)
  have initial: "arenas ?s None = Some (address, INITIAL_ARENA_SIZE, INITIAL_ARENA_SIZE)"
    by (simp add: arenas_def new_server_alloc_def)
  have sep: "i < j \<Longrightarrow> i * unat sz + unat sz \<le> j * unat sz" for i j
    using mult_le_mono1 [of "Suc i" j "unat sz"] by simp
  have ok_bucket: "arena_ok b m r" if "arenas ?s (Some i) = Some (b, m, r)" for i b m r
    using bucket [OF that] P size [of i]
    by (auto simp: arena_ok_def placement_ok_def unat_eq_0 [symmetric] simp del: unat_eq_0)
  have ok_initial: "arena_ok address INITIAL_ARENA_SIZE INITIAL_ARENA_SIZE"
    using P by (simp add: arena_ok_def placement_ok_def)
  have buckets: "ranges_disjoint (unat b, unat m) (unat b', unat m')"
    if "i \<noteq> j" "arenas ?s (Some i) = Some (b, m, r)" "arenas ?s (Some j) = Some (b', m', r')"
    for i j b m r b' m' r'
    using bucket [OF that(2)] bucket [OF that(3)] sep [of i j] sep [of j i] that(1)
    by (auto simp: ranges_disjoint_def linorder_neq_iff)
  have mixed: "ranges_disjoint (unat address, unat INITIAL_ARENA_SIZE) (unat b, unat m)"
    and mixed': "ranges_disjoint (unat b, unat m) (unat address, unat INITIAL_ARENA_SIZE)"
    if "arenas ?s (Some i) = Some (b, m, r)" for i b m r
    using bucket [OF that] P size [of i] by (auto simp: ranges_disjoint_def placement_ok_def)
  have "arena_ok b m r" if "arenas ?s ow = Some (b, m, r)" for ow b m r
    using that initial ok_initial ok_bucket by (cases ow) auto
  moreover have "ranges_disjoint (unat b, unat m) (unat b', unat m')"
    if "ow \<noteq> ow'" "arenas ?s ow = Some (b, m, r)" "arenas ?s ow' = Some (b', m', r')"
    for ow ow' b m r b' m' r'
    using that initial mixed mixed' buckets by (cases ow; cases ow') auto
  ultimately show ?thesis unfolding arenas_ok_def by blast
qed

subsection \<open>All allocations of the server\<close>

text \<open>
  The calls the program makes, in any order, with the blocks in use: a block belongs to the arena
  it was taken from and stays in use until its bucket is cleared.
\<close>

datatype alloc_op = AllocInitial layout | AllocBucket nat layout | ClearBucket nat

type_synonym block = "nat option \<times> nat \<times> nat"

fun alloc_step :: "alloc_op \<Rightarrow> server_alloc \<times> block list \<Rightarrow> server_alloc \<times> block list" where
  "alloc_step (AllocInitial l) (s, live) =
     (case try_allocate_in_initial_bucket l s of
        Inl _ \<Rightarrow> (s, live)
      | Inr (None, s') \<Rightarrow> (s', live)
      | Inr (Some p, s') \<Rightarrow> (s', (None, unat p, unat (lay_size l)) # live))"
| "alloc_step (AllocBucket i l) (s, live) =
     (case try_allocate_in_bucket l i s of
        (None, s') \<Rightarrow> (s', live)
      | (Some p, s') \<Rightarrow> (s', (Some i, unat p, unat (lay_size l)) # live))"
| "alloc_step (ClearBucket i) (s, live) =
     (case clear_bucket i s of
        Inl _ \<Rightarrow> (s, live)
      | Inr s' \<Rightarrow> (s', filter (\<lambda>b. fst b \<noteq> Some i) live))"

fun op_ok :: "alloc_op \<Rightarrow> bool" where
  "op_ok (AllocInitial l) = layout_ok l"
| "op_ok (AllocBucket i l) = layout_ok l"
| "op_ok (ClearBucket i) = True"

definition in_arena :: "arena_map \<Rightarrow> block \<Rightarrow> bool" where
  "in_arena A blk \<longleftrightarrow>
     (\<exists>b n r. A (fst blk) = Some (b, n, r) \<and> unat b + unat r \<le> fst (snd blk) \<and>
        fst (snd blk) + snd (snd blk) \<le> unat b + unat n)"

definition live_inv :: "arena_map \<Rightarrow> block list \<Rightarrow> bool" where
  "live_inv A live \<longleftrightarrow>
     arenas_ok A \<and> list_all (in_arena A) live \<and>
     sorted_wrt (\<lambda>x y. ranges_disjoint (snd x) (snd y)) live"

lemma in_arena_update:
  "in_arena A blk \<Longrightarrow> A ow = Some (b, n, r) \<Longrightarrow> fst blk \<noteq> ow \<or> r' \<le> r \<Longrightarrow>
   in_arena (A(ow \<mapsto> (b, n, r'))) blk"
  by (auto simp: in_arena_def word_le_nat_alt)

lemma live_inv_alloc:
  assumes inv: "live_inv A live" and A: "A ow = Some (b, n, r)" and l: "layout_ok l"
    and fits: "lay_size l \<le> r" and al: "lay_align l \<le> MAX_SUPPORTED_ALIGN"
  shows "live_inv (A(ow \<mapsto> (b, n, bump l r))) ((ow, unat (b + bump l r), unat (lay_size l)) # live)"
proof -
  have ok: "arenas_ok A" using inv by (simp add: live_inv_def)
  have ao: "arena_ok b n r" using arenas_okD [OF ok A] .
  note addr = try_alloc_help_succeeds(2) [OF ao l al fits] and sp = bump_spec(1) [OF l fits]
  have n: "unat r \<le> unat n" using ao by (simp add: arena_ok_def word_le_nat_alt)
  have le: "bump l r \<le> r" by (rule bump_le [OF l fits])
  have "ranges_disjoint (unat b + unat (bump l r), unat (lay_size l)) (snd blk)"
    if "in_arena A blk" for blk
  proof -
    obtain b' n' r' where blk: "A (fst blk) = Some (b', n', r')" "unat b' + unat r' \<le> fst (snd blk)"
      "fst (snd blk) + snd (snd blk) \<le> unat b' + unat n'" using \<open>in_arena A blk\<close> by (auto simp: in_arena_def)
    show ?thesis
    proof (cases "fst blk = ow")
      case True
      then show ?thesis using blk A sp by (auto simp: ranges_disjoint_def)
    next
      case False
      with arenas_ok_disjoint [OF ok _ A blk(1)] have "ranges_disjoint (unat b, unat n) (unat b', unat n')"
        by simp
      then show ?thesis using blk sp n by (auto simp: ranges_disjoint_def)
    qed
  qed
  moreover have "arenas_ok (A(ow \<mapsto> (b, n, bump l r)))"
    using ok A le ao by (intro arenas_ok_update) (auto simp: arena_ok_def)
  moreover have "list_all (in_arena (A(ow \<mapsto> (b, n, bump l r)))) live"
    using inv in_arena_update [of A _ ow b n r "bump l r"] A le by (auto simp: live_inv_def list_all_iff)
  moreover have "in_arena (A(ow \<mapsto> (b, n, bump l r))) (ow, unat b + unat (bump l r), unat (lay_size l))"
    using sp n by (auto simp: in_arena_def)
  ultimately show ?thesis using inv by (auto simp: live_inv_def addr list_all_iff)
qed

lemma live_inv_clear:
  assumes inv: "live_inv A live" and A: "A ow = Some (b, n, r)"
  shows "live_inv (A(ow \<mapsto> (b, n, n))) (filter (\<lambda>blk. fst blk \<noteq> ow) live)"
  using inv A arenas_ok_update [of A ow b n r n] in_arena_update [of A _ ow b n r n]
  by (auto simp: live_inv_def list_all_iff sorted_wrt_filter)

lemma alloc_step_inv:
  assumes inv: "live_inv (arenas s) live" and "op_ok c" and "alloc_step c (s, live) = (s', live')"
  shows "live_inv (arenas s') live'"
proof (cases c)
  case (AllocInitial l)
  have A: "arenas s None = Some (sa_arena s, INITIAL_ARENA_SIZE, sa_arena_remaining s)"
    by (simp add: arenas_def)
  have ao: "arena_ok (sa_arena s) INITIAL_ARENA_SIZE (sa_arena_remaining s)" and l: "layout_ok l"
    using inv arenas_okD [of "arenas s", OF _ A] assms(2) AllocInitial by (auto simp: live_inv_def)
  then have nn: "non_null_new (sa_arena s) = Some (sa_arena s)"
    by (simp add: non_null_new_def arena_ok_def)
  show ?thesis
    by (rule try_alloc_help_cases [OF ao l])
      (use assms AllocInitial nn live_inv_alloc [OF inv A l] in
        \<open>auto simp: try_allocate_in_initial_bucket_def arenas_initial\<close>)
next
  case (AllocBucket i l)
  show ?thesis
  proof (cases "i < length (sa_buckets s)")
    case i: True
    let ?b = "sa_buckets s ! i"
    note A = arenas_bucket_at [OF i]
    have ao: "arena_ok (bk_start ?b) (bk_size ?b) (bk_remaining ?b)" and l: "layout_ok l"
      using inv arenas_okD [of "arenas s", OF _ A] assms(2) AllocBucket by (auto simp: live_inv_def)
    show ?thesis
      by (rule try_alloc_help_cases [OF ao l])
        (use assms AllocBucket i live_inv_alloc [OF inv A l] in
          \<open>auto simp: try_allocate_in_bucket_def Let_def arenas_bucket\<close>)
  qed (use assms AllocBucket in \<open>auto simp: try_allocate_in_bucket_def\<close>)
next
  case (ClearBucket i)
  then show ?thesis
    using assms live_inv_clear [OF inv arenas_bucket_at, of i]
    by (cases "i < length (sa_buckets s)") (auto simp: clear_bucket_def index_slice_def arenas_bucket)
qed

lemma alloc_run_inv:
  "live_inv (arenas s) live \<Longrightarrow> list_all op_ok cs \<Longrightarrow> fold alloc_step cs (s, live) = (s', live') \<Longrightarrow>
   live_inv (arenas s') live'"
proof (induction cs arbitrary: s live)
  case (Cons c cs)
  obtain s1 live1 where "alloc_step c (s, live) = (s1, live1)" by (cases "alloc_step c (s, live)")
  with Cons show ?case using alloc_step_inv [OF Cons.prems(1), of c s1 live1] by simp
qed simp

lemma bucket_fold_take_all:
  "fold alloc_step (map (AllocBucket i) ls) (s, live) =
     (case bucket.take_all i ls s of
        (rs, t) \<Rightarrow> (t, rev (map (\<lambda>(a, n). (Some i, a, n)) rs) @ live))"
  by (induction ls arbitrary: s live) (auto split: option.splits prod.splits)

lemma clear_bucket_eq:
  "i < length (sa_buckets s) \<Longrightarrow>
   clear_bucket i s = Ok (s\<lparr>sa_buckets := (sa_buckets s)
     [i := (sa_buckets s ! i)\<lparr>bk_remaining := bk_size (sa_buckets s ! i)\<rparr>]\<rparr>)"
  by (simp add: clear_bucket_def index_slice_def)

lemma server_ok_clear:
  assumes "server_ok (Some i) s" and "clear_bucket i s = Ok s'"
  shows "server_ok (Some i) s'" and "arena_free (Some i) s' = unat (bk_size (sa_buckets s ! i))"
proof -
  have i: "i < length (sa_buckets s)"
    using assms(1) by (auto simp: server_ok_def arenas_def split: if_splits)
  let ?b = "sa_buckets s ! i"
  have A: "arenas s' = (arenas s)(Some i \<mapsto> (bk_start ?b, bk_size ?b, bk_size ?b))"
    using assms(2) i by (auto simp: clear_bucket_eq arenas_bucket)
  have "arenas_ok (arenas s')"
    unfolding A using assms(1) arenas_bucket_at [OF i] by (intro arenas_ok_update) (auto simp: server_ok_def)
  then show "server_ok (Some i) s'" by (simp add: server_ok_def A)
  show "arena_free (Some i) s' = unat (bk_size ?b)" by (simp add: arena_free_def A)
qed

subsection \<open>Properties\<close>

text \<open>
  C27: no two live allocations overlap. After the buckets are mapped, whatever sequence of
  allocations (in the initial arena or in any bucket) and bucket resets follows, the blocks in
  use are pairwise disjoint, each inside the arena it was taken from and above that arena's
  counter.
\<close>

theorem live_blocks_never_overlap:
  assumes "placement_ok address (libc_mmap (n * sz)) n sz"
    and "list_all op_ok ops"
  shows "\<exists>s. initialize_buckets libc_mmap errno n sz (new_server_alloc address) = Ok (Inr (), s) \<and>
    (case fold alloc_step ops (s, []) of
       (t, live) \<Rightarrow>
         sorted_wrt (\<lambda>x y. ranges_disjoint (snd x) (snd y)) live \<and>
         list_all (in_arena (arenas t)) live)"
  using alloc_run_inv [OF _ assms(2), of _ "[]"] initialized_arenas [OF assms(1)]
  by (simp add: initialize_buckets_eq [of address libc_mmap, OF assms(1)] live_inv_def split: prod.splits)

text \<open>
  C28: a bucket allocation succeeds exactly when the alignment is supported and the bytes are
  there. A block is then aligned, lies directly above the new counter and wastes less than its
  alignment; a refused request changes nothing; no other arena changes.
\<close>

theorem bucket_allocation_behaviour:
  assumes "server_ok (Some i) s" and "layout_ok l"
    and "try_allocate_in_bucket l i s = (r, s')"
  shows "case r of
      None \<Rightarrow> s' = s \<and> (arena_free (Some i) s < unat (lay_size l) \<or> MAX_SUPPORTED_ALIGN < lay_align l)
    | Some p \<Rightarrow>
        unat (lay_align l) dvd unat p \<and>
        unat p = arena_base (Some i) s + arena_free (Some i) s' \<and>
        arena_free (Some i) s' + unat (lay_size l) \<le> arena_free (Some i) s \<and>
        arena_free (Some i) s < arena_free (Some i) s' + unat (lay_size l) + unat (lay_align l) \<and>
        lay_align l \<le> MAX_SUPPORTED_ALIGN \<and>
        (\<forall>ow. ow \<noteq> Some i \<longrightarrow> arenas s' ow = arenas s ow)"
proof (cases r)
  case None
  then show ?thesis using bucket.take_None [OF assms(1,2)] assms(3) by simp
next
  case (Some p)
  have i: "i < length (sa_buckets s)"
    using assms(1) by (auto simp: server_ok_def arenas_def split: if_splits)
  let ?b = "sa_buckets s ! i"
  obtain q r' where h: "try_alloc_help l (bk_start ?b) (bk_remaining ?b) = (q, r')"
    by (cases "try_alloc_help l (bk_start ?b) (bk_remaining ?b)")
  have "arenas s' = (arenas s)(Some i \<mapsto> (bk_start ?b, bk_size ?b, r'))"
    using assms(3) h i by (auto simp: try_allocate_in_bucket_def Let_def arenas_bucket)
  moreover have "lay_align l \<le> MAX_SUPPORTED_ALIGN"
    using assms(3) h i Some
    by (auto simp: try_allocate_in_bucket_def Let_def try_alloc_help_def split: if_splits)
  ultimately show ?thesis using bucket.take_Some [OF assms(1,2)] assms(3) Some by auto
qed

text \<open>
  C29: a bucket that has been cleared can be reused in full: every sequence of allocations whose
  sizes and alignments add up to at most the bucket's size succeeds completely, and conversely
  the bytes handed out never exceed the size of the bucket.
\<close>

theorem cleared_bucket_is_reusable:
  assumes "server_ok (Some i) s" and "clear_bucket i s = Ok s'"
    and "list_all layout_ok ls"
    and "list_all (\<lambda>l. lay_align l \<le> MAX_SUPPORTED_ALIGN) ls"
  shows "(case fold alloc_step (map (AllocBucket i) ls) (s', []) of
      (t, live) \<Rightarrow>
        sum_list (map (snd \<circ> snd) live) \<le> unat (bk_size (sa_buckets s ! i)) \<and>
        (worst_case ls \<le> unat (bk_size (sa_buckets s ! i)) \<longrightarrow>
         rev (map (snd \<circ> snd) live) = map (\<lambda>l. unat (lay_size l)) ls))"
proof -
  obtain rs t where rs: "bucket.take_all i ls s' = (rs, t)" by (cases "bucket.take_all i ls s'")
  note ok = server_ok_clear [OF assms(1,2)]
  have m: "map (snd \<circ> snd) (rev (map (\<lambda>(a, n). (Some i, a, n)) rs)) = rev (map snd rs)"
    by (auto simp: rev_map case_prod_unfold)
  have "sum_list (map snd rs) \<le> unat (bk_size (sa_buckets s ! i))"
    using bucket.take_all_bytes [OF ok(1) assms(3) rs] ok(2) by simp
  moreover have "map snd rs = map (\<lambda>l. unat (lay_size l)) ls"
    if "worst_case ls \<le> unat (bk_size (sa_buckets s ! i))"
    using bucket.take_all_succeeds [OF ok(1) assms(3,4)] that ok(2) rs by simp
  ultimately show ?thesis
    by (simp only: bucket_fold_take_all rs prod.case append_Nil2 m sum_list_rev rev_rev_ident) simp
qed

text \<open>Concrete runs: two buckets of two pages each.\<close>

abbreviation example_mmap :: "usize \<Rightarrow> usize" where
  "example_mmap \<equiv> \<lambda>len. 0x100000000"

lemma example_placement: "placement_ok 0x1000 0x100000000 2 8192"
  by (simp add: placement_ok_def ranges_disjoint_def INITIAL_ARENA_SIZE_def)

definition example_server :: server_alloc where
  "example_server =
     (new_server_alloc 0x1000)\<lparr>sa_buckets := map (new_bucket 0x100000000 8192) [0..<2]\<rparr>"

lemma example_server_ok: "i < 2 \<Longrightarrow> server_ok (Some i) example_server"
  using initialized_arenas [OF example_placement]
  by (simp add: server_ok_def example_server_def) (auto simp: arenas_def Let_def)

lemma layout_okI:
  "k < 63 \<Longrightarrow> lay_align l = 2 ^ k \<Longrightarrow> unat (lay_size l) + 2 ^ k \<le> 2 ^ 63 \<Longrightarrow> layout_ok l"
  by (auto simp: layout_ok_def from_size_align_def is_power_of_two_iff unat_exp_small intro: exI [of _ k])

lemma example_layouts:
  "layout_ok \<lparr>lay_size = 100, lay_align = 16\<rparr>" "layout_ok \<lparr>lay_size = 5000, lay_align = 4096\<rparr>"
  by (rule layout_okI [of 4], simp_all, rule layout_okI [of 12], simp_all)

theorem live_blocks_never_overlap_witness:
  "\<exists>s. initialize_buckets example_mmap (OtherError 0) 2 8192 (new_server_alloc 0x1000) = Ok (Inr (), s) \<and>
    (case fold alloc_step
       [AllocBucket 0 \<lparr>lay_size = 100, lay_align = 16\<rparr>, AllocInitial \<lparr>lay_size = 100, lay_align = 16\<rparr>,
        AllocBucket 1 \<lparr>lay_size = 5000, lay_align = 4096\<rparr>, ClearBucket 0,
        AllocBucket 0 \<lparr>lay_size = 5000, lay_align = 4096\<rparr>] (s, []) of
       (t, live) \<Rightarrow>
         sorted_wrt (\<lambda>x y. ranges_disjoint (snd x) (snd y)) live \<and>
         list_all (in_arena (arenas t)) live)"
  by (rule live_blocks_never_overlap) (simp_all only: example_placement list.pred_inject op_ok.simps
    example_layouts simp_thms)

theorem bucket_allocation_behaviour_witness:
  "case try_allocate_in_bucket \<lparr>lay_size = 100, lay_align = 16\<rparr> 1 example_server of
     (None, _) \<Rightarrow> False
   | (Some p, s') \<Rightarrow> 16 dvd unat p \<and>
       unat p = arena_base (Some 1) example_server + arena_free (Some 1) s'"
proof -
  let ?l = "\<lparr>lay_size = 100, lay_align = 16\<rparr>"
  obtain r s' where r: "try_allocate_in_bucket ?l 1 example_server = (r, s')"
    by (cases "try_allocate_in_bucket ?l 1 example_server")
  have "fst (try_allocate_in_bucket ?l 1 example_server) \<noteq> None"
    by (simp add: try_allocate_in_bucket_def example_server_def new_bucket_def Let_def
        try_alloc_help_def fetch_update_def MAX_SUPPORTED_ALIGN_def non_null_new_def)
  with r bucket_allocation_behaviour [OF example_server_ok example_layouts(1) r] show ?thesis by auto
qed

theorem cleared_bucket_is_reusable_witness:
  "\<exists>s'. clear_bucket 0 example_server = Ok s' \<and>
    (case fold alloc_step (map (AllocBucket 0)
        [\<lparr>lay_size = 100, lay_align = 16\<rparr>, \<lparr>lay_size = 5000, lay_align = 4096\<rparr>]) (s', []) of
      (t, live) \<Rightarrow> sum_list (map (snd \<circ> snd) live) \<le> 8192)"
proof -
  obtain s' where s': "clear_bucket 0 example_server = Ok s'"
    using clear_bucket_eq [of 0 example_server] by (simp add: example_server_def)
  have b: "bk_size (sa_buckets example_server ! 0) = 8192"
    by (simp add: example_server_def new_bucket_def upt_rec)
  show ?thesis
    using cleared_bucket_is_reusable [OF example_server_ok s', of
        "[\<lparr>lay_size = 100, lay_align = 16\<rparr>, \<lparr>lay_size = 5000, lay_align = 4096\<rparr>]"]
    by (auto simp: s' b example_layouts MAX_SUPPORTED_ALIGN_def)
qed
end
