(* ===== verification/Arena.thy ===== *)
theory Arena
  imports Allocator Text
begin

section \<open>The global allocator and the application's memory calls (nea/src/lib.rs)\<close>

text \<open>
  Every thread has a current arena, a \<open>u32\<close>: four reserved values, or the number of the bucket
  whose request it is running. Allocations of the application that do not fit leave the
  application by \<open>longjmp\<close>. The result of such a call is therefore a value, a jump or a panic.

  Memory is a function from addresses to bytes; \<open>copy_nonoverlapping\<close> of overlapping ranges is
  undefined behaviour and is a result of its own, so that its absence is a theorem. \<open>Abort\<close> is the end of
  the process, which the language prescribes for a panic while another one unwinds.
\<close>

datatype 'a control =
    Return 'a
  | LongJmp u32
  | Unwind panic
  | UndefinedBehaviour
  | Abort

type_synonym memory = "usize \<Rightarrow> u8"

definition ARENA_INDEX_BEFORE_MAIN :: u32 where
  "ARENA_INDEX_BEFORE_MAIN = - 1"

definition ARENA_INDEX_EXECUTOR :: u32 where
  "ARENA_INDEX_EXECUTOR = - 1 - 1"

definition ARENA_INDEX_REACTOR :: u32 where
  "ARENA_INDEX_REACTOR = - 1 - 2"

definition ARENA_INDEX_UNINITIALIZED :: u32 where
  "ARENA_INDEX_UNINITIALIZED = - 1 - 3"

lemmas arena_index_defs = ARENA_INDEX_BEFORE_MAIN_def ARENA_INDEX_EXECUTOR_def
  ARENA_INDEX_REACTOR_def ARENA_INDEX_UNINITIALIZED_def

text \<open>
  \<open>roc_panic\<close>: the message is a pointer to bytes, \<open>None\<close> the null pointer. The saved registers are
  those of the enclosing \<open>setjmp\<close>, which returns 1.
\<close>

definition roc_panic :: "u8 list option \<Rightarrow> u32 \<Rightarrow> 'a control" where
  "roc_panic message_ptr panic_tag =
     (case message_ptr of
        None \<Rightarrow> Unwind AssertFailed
      | Some bytes \<Rightarrow>
          if valid_utf8 (cstr_bytes bytes) then LongJmp 1 else Unwind Unwrap)"

definition oom_message :: "u8 list" where
  "oom_message = bytes_of ''out of memory'' @ [0]"

definition roc_alloc ::
    "u32 \<Rightarrow> usize \<Rightarrow> u32 \<Rightarrow> server_alloc \<Rightarrow> usize control \<times> server_alloc" where
  "roc_alloc current_arena sz alignment s =
     (case from_size_align sz (ucast alignment) of
        None \<Rightarrow> (Unwind Unwrap, s)
      | Some layout \<Rightarrow>
          (case try_allocate_in_bucket layout (unat current_arena) s of
             (None, s') \<Rightarrow> (roc_panic (Some oom_message) 1, s')
           | (Some non_null, s') \<Rightarrow> (Return non_null, s')))"

text \<open>\<open>GlobalAlloc::alloc\<close>; \<open>system_alloc\<close> is the allocator of the operating system.\<close>

definition alloc ::
    "(layout \<Rightarrow> usize) \<Rightarrow> u32 \<Rightarrow> layout \<Rightarrow> server_alloc \<Rightarrow> usize control \<times> server_alloc" where
  "alloc system_alloc current_arena layout s =
     (if current_arena = ARENA_INDEX_BEFORE_MAIN then
        (case try_allocate_in_initial_bucket layout s of
           Inl p \<Rightarrow> (Unwind p, s)
         | Inr (None, s') \<Rightarrow> (Return 0, s')
         | Inr (Some non_null, s') \<Rightarrow> (Return non_null, s'))
      else if current_arena = ARENA_INDEX_EXECUTOR \<or> current_arena = ARENA_INDEX_REACTOR then
        (case try_allocate_in_initial_bucket layout s of
           Inl p \<Rightarrow> (Unwind p, s)
         | Inr (None, s') \<Rightarrow> (Return (system_alloc layout), s')
         | Inr (Some non_null, s') \<Rightarrow> (Return non_null, s'))
      else if current_arena = ARENA_INDEX_UNINITIALIZED then (Return 0, s)
      else
        (case try_allocate_in_bucket layout (unat current_arena) s of
           (None, s') \<Rightarrow> (roc_panic (Some oom_message) 1, s')
         | (Some non_null, s') \<Rightarrow> (Return non_null, s')))"

definition dealloc :: "usize \<Rightarrow> layout \<Rightarrow> server_alloc \<Rightarrow> server_alloc" where
  "dealloc ptr layout s = s"

definition roc_dealloc :: "usize \<Rightarrow> u32 \<Rightarrow> server_alloc \<Rightarrow> server_alloc" where
  "roc_dealloc ptr alignment s = s"

definition copy_nonoverlapping :: "usize \<Rightarrow> usize \<Rightarrow> nat \<Rightarrow> memory \<Rightarrow> memory option" where
  "copy_nonoverlapping src dst n mem =
     (if ranges_disjoint (unat src, n) (unat dst, n)
      then Some (\<lambda>a. if unat dst \<le> unat a \<and> unat a < unat dst + n then mem (src + (a - dst)) else mem a)
      else None)"

text \<open>
  The provided method \<open>GlobalAlloc::realloc\<close>, which \<open>ServerAlloc\<close> does not override: allocate, copy
  the smaller of the two sizes, deallocate.
\<close>

definition realloc ::
    "(layout \<Rightarrow> usize) \<Rightarrow> u32 \<Rightarrow> usize \<Rightarrow> layout \<Rightarrow> usize \<Rightarrow> server_alloc \<times> memory \<Rightarrow>
     usize control \<times> server_alloc \<times> memory" where
  "realloc system_alloc current_arena ptr layout new_size st =
     (case st of (s, mem) \<Rightarrow>
        (case alloc system_alloc current_arena \<lparr>lay_size = new_size, lay_align = lay_align layout\<rparr> s of
           (Return new_ptr, s') \<Rightarrow>
             if new_ptr = 0 then (Return 0, s', mem)
             else (case copy_nonoverlapping ptr new_ptr
                      (min (unat (lay_size layout)) (unat new_size)) mem of
                     None \<Rightarrow> (UndefinedBehaviour, s', mem)
                   | Some mem' \<Rightarrow> (Return new_ptr, dealloc ptr layout s', mem'))
         | (other, s') \<Rightarrow> (other, s', mem)))"

definition roc_realloc ::
    "(layout \<Rightarrow> usize) \<Rightarrow> u32 \<Rightarrow> usize \<Rightarrow> usize \<Rightarrow> usize \<Rightarrow> u32 \<Rightarrow> server_alloc \<times> memory \<Rightarrow>
     usize control \<times> server_alloc \<times> memory" where
  "roc_realloc system_alloc current_arena ptr new_size old_size alignment st =
     (case from_size_align old_size (ucast alignment) of
        None \<Rightarrow> (Unwind Unwrap, st)
      | Some layout \<Rightarrow>
          (case realloc system_alloc current_arena ptr layout new_size st of
             (Return p, st') \<Rightarrow>
               (case non_null_new p of
                  None \<Rightarrow> (roc_panic (Some oom_message) 1, st')
                | Some q \<Rightarrow> (Return q, st'))
           | (other, st') \<Rightarrow> (other, st')))"

subsection \<open>Lemmas\<close>

lemma oom_jumps [simp]: "roc_panic (Some oom_message) tag = LongJmp 1"
proof -
  have "valid_utf8 (cstr_bytes oom_message)"
    by (rule valid_utf8_ascii) (simp add: oom_message_def bytes_of_def cstr_bytes_def)
  then show ?thesis by (simp add: roc_panic_def)
qed

definition bucket_arena :: "u32 \<Rightarrow> bool" where
  "bucket_arena a \<longleftrightarrow> a < ARENA_INDEX_UNINITIALIZED"

lemma bucket_arena_not_reserved:
  "bucket_arena a \<Longrightarrow> a \<noteq> ARENA_INDEX_BEFORE_MAIN \<and> a \<noteq> ARENA_INDEX_EXECUTOR \<and>
     a \<noteq> ARENA_INDEX_REACTOR \<and> a \<noteq> ARENA_INDEX_UNINITIALIZED"
  by (auto simp: bucket_arena_def arena_index_defs)

lemma reserved_values:
  assumes "\<not> a < ARENA_INDEX_UNINITIALIZED"
  shows "a = ARENA_INDEX_BEFORE_MAIN \<or> a = ARENA_INDEX_EXECUTOR \<or> a = ARENA_INDEX_REACTOR \<or>
    a = ARENA_INDEX_UNINITIALIZED"
proof -
  have "unat a < 2 ^ LENGTH(32)" by (rule unsigned_less)
  moreover have "4294967292 \<le> unat a"
    using assms by (simp add: ARENA_INDEX_UNINITIALIZED_def not_less word_le_nat_alt)
  ultimately have "unat a \<in> {4294967292, 4294967293, 4294967294, 4294967295}" by auto
  then have "a \<in> {4294967292, 4294967293, 4294967294, 4294967295}"
    by (auto dest: word_eq_of_nat)
  then show ?thesis by (auto simp: arena_index_defs)
qed

lemma alloc_bucket:
  "bucket_arena a \<Longrightarrow>
   alloc system_alloc a l s =
     (case try_allocate_in_bucket l (unat a) s of
        (None, s') \<Rightarrow> (LongJmp 1, s')
      | (Some p, s') \<Rightarrow> (Return p, s'))"
  using bucket_arena_not_reserved [of a] by (simp add: alloc_def split: prod.splits option.splits)

lemma alloc_bucket_cases:
  assumes "bucket_arena a" and "server_ok (Some (unat a)) s" and "layout_ok l"
  obtains
    (oom) "alloc system_alloc a l s = (LongJmp 1, s)"
      "arena_free (Some (unat a)) s < unat (lay_size l) \<or> MAX_SUPPORTED_ALIGN < lay_align l"
  | (ok) p s' where "alloc system_alloc a l s = (Return p, s')" "server_ok (Some (unat a)) s'"
      "unat p = arena_base (Some (unat a)) s + arena_free (Some (unat a)) s'"
      "arena_free (Some (unat a)) s' + unat (lay_size l) \<le> arena_free (Some (unat a)) s"
      "unat (lay_align l) dvd unat p" "p \<noteq> 0"
proof (cases "try_allocate_in_bucket l (unat a) s")
  case (Pair r s')
  show ?thesis
  proof (cases r)
    case None
    with Pair show ?thesis
      using bucket.take_None [OF assms(2,3)] oom by (simp add: alloc_bucket [OF assms(1)])
  next
    case (Some p)
    note spec = bucket.take_Some [OF assms(2,3) Pair [unfolded Some]]
    have "0 < arena_base (Some (unat a)) s"
      using assms(2) arenas_okD [of "arenas s" "Some (unat a)"]
      by (auto simp: server_ok_def arena_base_def arena_ok_def unat_gt_0)
    then have "p \<noteq> 0" using spec by (auto simp: unat_eq_0 [symmetric] simp del: unat_eq_0)
    with spec Pair Some show ?thesis
      using ok [of p s'] by (auto simp: alloc_bucket [OF assms(1)])
  qed
qed

text \<open>The arenas an allocation may change.\<close>

lemma bucket_alloc_frame:
  "try_allocate_in_bucket l i s = (r, s') \<Longrightarrow> ow \<noteq> Some i \<Longrightarrow> arenas s' ow = arenas s ow"
  by (cases "i < length (sa_buckets s)")
    (auto simp: try_allocate_in_bucket_def Let_def arenas_bucket split: prod.splits)

lemma initial_alloc_frame:
  "try_allocate_in_initial_bucket l s = Ok (r, s') \<Longrightarrow> ow \<noteq> None \<Longrightarrow> arenas s' ow = arenas s ow"
  by (auto simp: try_allocate_in_initial_bucket_def arenas_initial split: option.splits prod.splits)

subsection \<open>Properties\<close>

text \<open>
  C30: a thread allocates only in its own arena. Running a bucket, an allocation changes at most
  that bucket and yields an aligned block of it or jumps out of the application when it does not
  fit; as executor or reactor thread it changes at most the initial arena and never fails while
  the system allocator does not; before a thread has set its arena nothing is allocated.
\<close>

theorem alloc_stays_in_current_arena:
  assumes "layout_ok l" and "alloc system_alloc a l s = (r, s')"
  shows "(bucket_arena a \<longrightarrow>
      (\<forall>ow. ow \<noteq> Some (unat a) \<longrightarrow> arenas s' ow = arenas s ow) \<and>
      (server_ok (Some (unat a)) s \<longrightarrow>
         (case r of
            Return p \<Rightarrow> unat (lay_align l) dvd unat p \<and>
              arena_base (Some (unat a)) s \<le> unat p \<and>
              unat p + unat (lay_size l) \<le>
                arena_base (Some (unat a)) s + arena_free (Some (unat a)) s
          | LongJmp v \<Rightarrow> v = 1 \<and> s' = s \<and>
              (arena_free (Some (unat a)) s < unat (lay_size l) \<or> MAX_SUPPORTED_ALIGN < lay_align l)
          | _ \<Rightarrow> False))) \<and>
    (\<not> bucket_arena a \<longrightarrow> (\<forall>i. arenas s' (Some i) = arenas s (Some i))) \<and>
    (a = ARENA_INDEX_UNINITIALIZED \<longrightarrow> r = Return 0 \<and> s' = s)"
proof -
  have frame: "arenas s' ow = arenas s ow" if "bucket_arena a" "ow \<noteq> Some (unat a)" for ow
    using assms(2) that bucket_alloc_frame [of l "unat a" s]
    by (auto simp: alloc_bucket split: prod.splits option.splits)
  have reserved: "arenas s' (Some i) = arenas s (Some i)" if "\<not> bucket_arena a" for i
  proof -
    have "a = ARENA_INDEX_BEFORE_MAIN \<or> a = ARENA_INDEX_EXECUTOR \<or> a = ARENA_INDEX_REACTOR \<or>
        a = ARENA_INDEX_UNINITIALIZED"
      using that reserved_values [of a] by (simp add: bucket_arena_def)
    then show ?thesis
      using assms(2) initial_alloc_frame [of l s _ _ "Some i"]
      by (auto simp: alloc_def arena_index_defs split: sum.splits prod.splits option.splits if_splits)
  qed
  have "case r of
      Return p \<Rightarrow> unat (lay_align l) dvd unat p \<and> arena_base (Some (unat a)) s \<le> unat p \<and>
        unat p + unat (lay_size l) \<le> arena_base (Some (unat a)) s + arena_free (Some (unat a)) s
    | LongJmp v \<Rightarrow> v = 1 \<and> s' = s \<and>
        (arena_free (Some (unat a)) s < unat (lay_size l) \<or> MAX_SUPPORTED_ALIGN < lay_align l)
    | _ \<Rightarrow> False" if "bucket_arena a" "server_ok (Some (unat a)) s"
    by (rule alloc_bucket_cases [OF that assms(1), of system_alloc]) (use assms(2) in auto)
  moreover have "a = ARENA_INDEX_UNINITIALIZED \<longrightarrow> r = Return 0 \<and> s' = s"
    using assms(2) by (auto simp: alloc_def arena_index_defs)
  ultimately show ?thesis using frame reserved by blast
qed

text \<open>
  C31: reallocation in a bucket keeps the contents. For a block of the current bucket, \<open>roc_realloc\<close>
  either jumps out of the application, with the old block and all memory as they were, or
  returns a new block with the same alignment that holds the leading bytes of the old one; the
  copy never overlaps its source and every byte outside the new block, in particular the old
  block, is unchanged.
\<close>

theorem roc_realloc_keeps_contents:
  assumes "bucket_arena a" and "server_ok (Some (unat a)) s"
    and "from_size_align old_size (ucast alignment) \<noteq> None"
    and "from_size_align new_size (ucast alignment) \<noteq> None"
    and "arena_base (Some (unat a)) s + arena_free (Some (unat a)) s \<le> unat ptr"
    and "roc_realloc system_alloc a ptr new_size old_size alignment (s, mem) = (r, s', mem')"
  shows "case r of
      Return p \<Rightarrow>
        unat p + unat new_size \<le> unat ptr \<and>
        (\<forall>k < min (unat old_size) (unat new_size). mem' (p + of_nat k) = mem (ptr + of_nat k)) \<and>
        (\<forall>x. unat x < unat p \<or> unat p + unat new_size \<le> unat x \<longrightarrow> mem' x = mem x) \<and>
        arena_free (Some (unat a)) s' + unat new_size \<le> arena_free (Some (unat a)) s
    | LongJmp v \<Rightarrow> v = 1 \<and> s' = s \<and> mem' = mem
    | _ \<Rightarrow> False"
proof -
  let ?al = "ucast alignment :: usize"
  let ?n = "min (unat old_size) (unat new_size)"
  let ?l = "\<lparr>lay_size = new_size, lay_align = ?al\<rparr>"
  have l: "layout_ok ?l" using assms(4) by (simp add: layout_ok_def)
  have old: "from_size_align old_size ?al = Some \<lparr>lay_size = old_size, lay_align = ?al\<rparr>"
    using assms(3) by (auto simp: from_size_align_def split: if_splits)
  show ?thesis
  proof (rule alloc_bucket_cases [OF assms(1,2) l, of system_alloc])
    assume "alloc system_alloc a ?l s = (LongJmp 1, s)"
    then show ?thesis using assms(6) old by (auto simp: roc_realloc_def realloc_def)
  next
    fix p t
    assume e: "alloc system_alloc a ?l s = (Return p, t)" and p: "p \<noteq> 0"
      and base: "unat p = arena_base (Some (unat a)) s + arena_free (Some (unat a)) t"
      and size: "arena_free (Some (unat a)) t + unat (lay_size ?l) \<le> arena_free (Some (unat a)) s"
    have above: "unat p + unat new_size \<le> unat ptr" using assms(5) base size by simp
    then have "ranges_disjoint (unat ptr, ?n) (unat p, ?n)" by (auto simp: ranges_disjoint_def)
    then have r: "r = Return p" "s' = t"
      and mem': "mem' = (\<lambda>x. if unat p \<le> unat x \<and> unat x < unat p + ?n then mem (ptr + (x - p)) else mem x)"
      using assms(6) old e p
      by (auto simp: roc_realloc_def realloc_def copy_nonoverlapping_def dealloc_def non_null_new_def)
    have "mem' (p + of_nat k) = mem (ptr + of_nat k)" if "k < ?n" for k
    proof -
      have ub: "unat ptr < 2 ^ LENGTH(64)" by (rule unsigned_less)
      then have "unat (p + of_nat k) = unat p + k"
        using that above by (simp add: unat_word_ariths unat_of_nat)
      then show ?thesis using that by (simp add: mem')
    qed
    moreover have "mem' x = mem x" if "unat x < unat p \<or> unat p + unat new_size \<le> unat x" for x
      using that by (auto simp: mem')
    ultimately show ?thesis using r above size by simp
  qed
qed

text \<open>Concrete calls in bucket 1 of the example server.\<close>

lemma example_bucket_arena: "bucket_arena 1"
  by (simp add: bucket_arena_def arena_index_defs word_less_nat_alt)

lemma example_align: "from_size_align 100 16 \<noteq> None" "from_size_align 200 16 \<noteq> None"
  using layout_okI [of 4 "\<lparr>lay_size = 100, lay_align = 16\<rparr>"] layout_okI [of 4 "\<lparr>lay_size = 200, lay_align = 16\<rparr>"]
  by (simp_all add: layout_ok_def)

lemma example_bucket_values:
  "arenas example_server (Some (Suc 0)) = Some (0x100002000, 8192, 8192)"
  by (simp add: arenas_def example_server_def new_bucket_def)

theorem alloc_stays_in_current_arena_witness:
  "arenas (snd (alloc (\<lambda>_. 0) 1 \<lparr>lay_size = 100, lay_align = 16\<rparr> example_server)) (Some 0) =
     arenas example_server (Some 0) \<and>
   arenas (snd (alloc (\<lambda>_. 0) 1 \<lparr>lay_size = 100, lay_align = 16\<rparr> example_server)) None =
     arenas example_server None"
proof -
  obtain r s' where e: "alloc (\<lambda>_. 0) 1 \<lparr>lay_size = 100, lay_align = 16\<rparr> example_server = (r, s')"
    by (cases "alloc (\<lambda>_. 0) 1 \<lparr>lay_size = 100, lay_align = 16\<rparr> example_server")
  from alloc_stays_in_current_arena [OF example_layouts(1) e] example_bucket_arena e
  show ?thesis by simp
qed

theorem roc_realloc_keeps_contents_witness:
  "\<exists>p s'. roc_realloc (\<lambda>_. 0) 1 0x100004000 200 100 16 (example_server, \<lambda>x. ucast x) =
      (Return p, s', snd (snd (roc_realloc (\<lambda>_. 0) 1 0x100004000 200 100 16 (example_server, \<lambda>x. ucast x)))) \<and>
    unat p + 200 \<le> 0x100004000"
proof -
  obtain r s' mem' where e: "roc_realloc (\<lambda>_. 0) 1 0x100004000 200 100 16 (example_server, \<lambda>x. ucast x) = (r, s', mem')"
    by (cases "roc_realloc (\<lambda>_. 0) 1 0x100004000 200 100 16 (example_server, \<lambda>x. ucast x)")
  have j: "fst (alloc (\<lambda>_. 0) 1 \<lparr>lay_size = 200, lay_align = 16\<rparr> example_server) \<notin> {LongJmp 1, Return 0}"
    by (simp add: alloc_bucket [OF example_bucket_arena] try_allocate_in_bucket_def example_server_def
        new_bucket_def Let_def try_alloc_help_def fetch_update_def MAX_SUPPORTED_ALIGN_def non_null_new_def)
  have "r \<noteq> LongJmp 1"
    using e j example_align
    by (auto simp: roc_realloc_def realloc_def from_size_align_def non_null_new_def
        split: control.splits prod.splits if_splits option.splits)
  then show ?thesis
    using roc_realloc_keeps_contents [OF example_bucket_arena _ _ _ _ e] example_align example_server_ok [of 1]
      e
    by (auto simp: arena_base_def arena_free_def example_bucket_values split: control.splits)
qed
end
