(* ===== verification/Stdlib.thy ===== *)
theory Stdlib
  imports Arena
begin

section \<open>What the request handlers use of the standard library\<close>

text \<open>
  Strings are byte lists that passed \<open>from_utf8\<close>. Searching, splitting at white space and reading a
  number follow \<open>core::str\<close>; a \<open>Cursor\<close> over a fixed array cuts off what does not fit; a vector knows
  its capacity, because growing it allocates.
\<close>

subsection \<open>Strings\<close>

definition from_utf8 :: "u8 list \<Rightarrow> u8 list option" where
  "from_utf8 bs = (if valid_utf8 bs then Some bs else None)"

text \<open>The number of bytes of the character that starts with a given byte.\<close>

definition char_len :: "u8 \<Rightarrow> nat" where
  "char_len a = (if a < 0x80 then 1 else if a < 0xE0 then 2 else if a < 0xF0 then 3 else 4)"

function utf8_chars :: "u8 list \<Rightarrow> u8 list list" where
  "utf8_chars [] = []"
| "utf8_chars (a # bs) = take (char_len a) (a # bs) # utf8_chars (drop (char_len a) (a # bs))"
  by pat_completeness auto

termination
  by (relation "measure length") (auto simp: char_len_def)

text \<open>\<open>char::is_whitespace\<close> on the encoding of a character.\<close>

definition white_space :: "u8 list \<Rightarrow> bool" where
  "white_space c \<longleftrightarrow>
     c \<in> {[9], [10], [11], [12], [13], [32], [0xC2, 0x85], [0xC2, 0xA0], [0xE1, 0x9A, 0x80],
          [0xE2, 0x80, 0xA8], [0xE2, 0x80, 0xA9], [0xE2, 0x80, 0xAF], [0xE2, 0x81, 0x9F], [0xE3, 0x80, 0x80]} \<or>
     (\<exists>x \<in> set [0x80, 0x81, 0x82, 0x83, 0x84, 0x85, 0x86, 0x87, 0x88, 0x89, 0x8A]. c = [0xE2, 0x80, x])"

fun split_on :: "('a \<Rightarrow> bool) \<Rightarrow> 'a list \<Rightarrow> 'a list list" where
  "split_on p [] = [[]]"
| "split_on p (x # xs) =
     (if p x then [] # split_on p xs
      else (x # hd (split_on p xs)) # tl (split_on p xs))"

definition split_whitespace :: "u8 list \<Rightarrow> u8 list list" where
  "split_whitespace bs = filter (\<lambda>w. w \<noteq> []) (map concat (split_on white_space (utf8_chars bs)))"

text \<open>\<open>&s[i..]\<close>: a panic beyond the end and inside a character.\<close>

definition is_char_boundary :: "u8 list \<Rightarrow> nat \<Rightarrow> bool" where
  "is_char_boundary s i \<longleftrightarrow> i = length s \<or> i < length s \<and> \<not> utf8_cont (s ! i)"

definition str_from :: "u8 list \<Rightarrow> nat \<Rightarrow> u8 list outcome" where
  "str_from s i = (if is_char_boundary s i then Ok (drop i s) else Panic IndexOutOfBounds)"

text \<open>\<open>split_once\<close>: the parts before and after the first occurrence of a pattern.\<close>

fun split_once :: "u8 list \<Rightarrow> u8 list \<Rightarrow> (u8 list \<times> u8 list) option" where
  "split_once pat s =
     (if take (length pat) s = pat then Some ([], drop (length pat) s)
      else case s of
          [] \<Rightarrow> None
        | b # bs \<Rightarrow> map_option (\<lambda>(x, y). (b # x, y)) (split_once pat bs))"

declare split_once.simps [simp del]

text \<open>
  \<open>str::parse::<usize>\<close>: an optional plus sign, then at least one decimal digit, and the value has to
  fit.
\<close>

definition string_of :: "u8 list \<Rightarrow> string" where
  "string_of bs = map (\<lambda>b. char_of (unat b)) bs"

definition parse_usize :: "u8 list \<Rightarrow> usize option" where
  "parse_usize s =
     (case parse_digits (string_of (if s \<noteq> [] \<and> hd s = 43 then tl s else s)) of
        None \<Rightarrow> None
      | Some v \<Rightarrow> if v < 2 ^ 64 then Some (of_nat v) else None)"

subsection \<open>Cursors\<close>

text \<open>\<open>Cursor<&mut [u8]>\<close>: the array and the position.\<close>

record cursor =
  cu_buffer :: "u8 list"
  cu_pos :: nat

definition new_cursor :: "u8 list \<Rightarrow> cursor" where
  "new_cursor buf = \<lparr>cu_buffer = buf, cu_pos = 0\<rparr>"

text \<open>\<open>Write::write_all\<close>: what fits is written; it is an error (\<open>WriteZero\<close>) when something is left.\<close>

definition cursor_write_all :: "u8 list \<Rightarrow> cursor \<Rightarrow> bool \<times> cursor" where
  "cursor_write_all bs c =
     (let pos = min (cu_pos c) (length (cu_buffer c));
          n = min (length bs) (length (cu_buffer c) - pos)
      in (n = length bs,
          c\<lparr>cu_buffer := take pos (cu_buffer c) @ take n bs @ drop (pos + n) (cu_buffer c),
            cu_pos := cu_pos c + n\<rparr>))"

text \<open>\<open>Write::write_fmt\<close>: the pieces one by one, up to the first error.\<close>

fun cursor_write_fmt :: "u8 list list \<Rightarrow> cursor \<Rightarrow> bool \<times> cursor" where
  "cursor_write_fmt [] c = (True, c)"
| "cursor_write_fmt (p # ps) c =
     (case cursor_write_all p c of
        (True, c') \<Rightarrow> cursor_write_fmt ps c'
      | (False, c') \<Rightarrow> (False, c'))"

text \<open>The bytes before the position.\<close>

definition cursor_written :: "cursor \<Rightarrow> u8 list" where
  "cursor_written c = take (cu_pos c) (cu_buffer c)"

text \<open>A cursor within its array holds the written text and refuses the rest.\<close>

definition cursor_ok :: "cursor \<Rightarrow> bool" where
  "cursor_ok c \<longleftrightarrow> cu_pos c \<le> length (cu_buffer c)"

lemma new_cursor_ok [simp]:
  "cursor_ok (new_cursor buf)" "cursor_written (new_cursor buf) = []" "cu_buffer (new_cursor buf) = buf"
  by (simp_all add: cursor_ok_def new_cursor_def cursor_written_def)

lemma cursor_write_all_spec:
  assumes "cursor_ok c"
  shows "cursor_ok (snd (cursor_write_all bs c))"
    and "length (cu_buffer (snd (cursor_write_all bs c))) = length (cu_buffer c)"
    and "cursor_written (snd (cursor_write_all bs c)) = take (length (cu_buffer c)) (cursor_written c @ bs)"
    and "fst (cursor_write_all bs c) \<longleftrightarrow> cu_pos c + length bs \<le> length (cu_buffer c)"
    and "\<not> fst (cursor_write_all bs c) \<Longrightarrow>
      cu_pos (snd (cursor_write_all bs c)) = length (cu_buffer (snd (cursor_write_all bs c)))"
  using assms
  by (auto simp: cursor_write_all_def Let_def cursor_ok_def cursor_written_def min_def)

lemma cursor_full:
  assumes "cursor_ok c" and "cu_pos c = length (cu_buffer c)"
  shows "take (length (cu_buffer c)) (cursor_written c @ bs) = cursor_written c"
  using assms by (simp add: cursor_ok_def cursor_written_def)

lemma cursor_write_fmt_spec:
  assumes "cursor_ok c"
  shows "cursor_ok (snd (cursor_write_fmt ps c)) \<and>
    length (cu_buffer (snd (cursor_write_fmt ps c))) = length (cu_buffer c) \<and>
    cursor_written (snd (cursor_write_fmt ps c)) = take (length (cu_buffer c)) (cursor_written c @ concat ps)"
  using assms
proof (induction ps arbitrary: c)
  case Nil
  then show ?case by (simp add: cursor_ok_def cursor_written_def)
next
  case (Cons p ps)
  note w = cursor_write_all_spec [OF Cons.prems, of p]
  obtain r c' where c': "cursor_write_all p c = (r, c')" by (cases "cursor_write_all p c")
  show ?case
  proof (cases r)
    case True
    have len: "length (cursor_written c) + length p \<le> length (cu_buffer c)"
      using w(4) c' True Cons.prems by (simp add: cursor_written_def cursor_ok_def)
    show ?thesis using Cons.IH [of c'] w c' True len by simp
  next
    case False
    then have "take (length (cu_buffer c)) (cursor_written c' @ concat ps) = cursor_written c'"
      using cursor_full [of c' "concat ps"] w c' by simp
    moreover have "length (cursor_written c) + length p \<ge> length (cu_buffer c)"
      using w(4) c' False Cons.prems by (simp add: cursor_written_def cursor_ok_def)
    ultimately show ?thesis using w c' False by simp
  qed
qed

subsection \<open>Lemmas on strings\<close>

lemma split_once_Some:
  "split_once pat s = Some (x, y) \<Longrightarrow>
   s = x @ pat @ y \<and> (\<forall>x' y'. s = x' @ pat @ y' \<longrightarrow> length x \<le> length x')"
proof (induction s arbitrary: x)
  case Nil
  then show ?case by (simp add: split_once.simps [of pat "[]"] split: if_splits)
next
  case (Cons b s)
  show ?case
  proof (cases "take (length pat) (b # s) = pat")
    case True
    then have "x = []" "y = drop (length pat) (b # s)" using Cons.prems by (simp_all add: split_once.simps)
    then show ?thesis using True append_take_drop_id [of "length pat" "b # s"] by simp
  next
    case False
    then obtain x1 where x1: "split_once pat s = Some (x1, y)" "x = b # x1"
      using Cons.prems by (subst (asm) split_once.simps) auto
    note ih = Cons.IH [OF x1(1)]
    have "length x \<le> length x'" if "b # s = x' @ pat @ y'" for x' y'
      using that False ih x1(2) by (cases x') auto
    then show ?thesis using ih x1(2) by auto
  qed
qed

lemma split_once_None: "split_once pat s = None \<longleftrightarrow> (\<nexists>x y. s = x @ pat @ y)"
proof (induction s)
  case Nil
  then show ?case by (simp add: split_once.simps [of pat "[]"])
next
  case (Cons b s)
  show ?case
  proof (cases "take (length pat) (b # s) = pat")
    case True
    then have "\<exists>x y. b # s = x @ pat @ y"
      using append_take_drop_id [of "length pat" "b # s"] by (metis append_Nil)
    moreover have "split_once pat (b # s) \<noteq> None" using True by (simp add: split_once.simps [of pat "b # s"])
    ultimately show ?thesis by blast
  next
    case False
    have "(\<exists>x y. b # s = x @ pat @ y) \<longleftrightarrow> (\<exists>x y. s = x @ pat @ y)"
    proof
      assume "\<exists>x y. b # s = x @ pat @ y"
      then obtain x y where "b # s = x @ pat @ y" by blast
      then show "\<exists>x y. s = x @ pat @ y" using False by (cases x) auto
    next
      assume "\<exists>x y. s = x @ pat @ y"
      then show "\<exists>x y. b # s = x @ pat @ y" by (metis append_Cons)
    qed
    then show ?thesis using False Cons.IH by (simp add: split_once.simps [of pat "b # s"])
  qed
qed

abbreviation ascii :: "u8 list \<Rightarrow> bool" where
  "ascii bs \<equiv> list_all (\<lambda>b. b < 0x80) bs"

lemma utf8_chars_ascii: "ascii a \<Longrightarrow> utf8_chars (a @ bs) = map (\<lambda>b. [b]) a @ utf8_chars bs"
  by (induction a) (simp_all add: char_len_def)

lemma concat_singletons: "concat (map (\<lambda>b. [b]) a) = a"
  by (induction a) simp_all

lemma split_on_ne: "split_on p xs \<noteq> []"
  by (cases xs) simp_all

lemma split_on_append:
  "list_all (\<lambda>x. \<not> p x) ws \<Longrightarrow> p s \<Longrightarrow> split_on p (ws @ s # xs) = ws # split_on p xs"
  by (induction ws) simp_all

text \<open>A word of ASCII characters without white space.\<close>

definition word :: "u8 list \<Rightarrow> bool" where
  "word w \<longleftrightarrow> w \<noteq> [] \<and> ascii w \<and> list_all (\<lambda>b. \<not> white_space [b]) w"

lemma white_space_space: "white_space [32]"
  by (simp add: white_space_def)

lemma split_whitespace_word:
  assumes "word w"
  shows "split_whitespace (w @ 32 # bs) = w # split_whitespace bs"
proof -
  have c: "utf8_chars (w @ 32 # bs) = map (\<lambda>b. [b]) w @ [32] # utf8_chars bs"
    using assms by (simp add: word_def utf8_chars_ascii char_len_def)
  have "list_all (\<lambda>x. \<not> white_space x) (map (\<lambda>b. [b]) w)"
    using assms by (simp add: word_def list_all_iff)
  then have "split_on white_space (map (\<lambda>b. [b]) w @ [32] # utf8_chars bs) =
      map (\<lambda>b. [b]) w # split_on white_space (utf8_chars bs)"
    by (rule split_on_append) (rule white_space_space)
  then show ?thesis using assms by (simp add: split_whitespace_def c concat_singletons word_def)
qed

lemma string_of_bytes_of [simp]: "string_of (bytes_of s) = s"
proof -
  have "unat (of_nat (of_char c :: nat) :: u8) = of_char c" for c :: char
  proof (rule unat_of_nat_small)
    have "(of_char c :: nat) \<in> {0..<256}" using range_nat_of_char by blast
    then show "(of_char c :: nat) < 2 ^ LENGTH(8)" by simp
  qed
  then show ?thesis by (induction s) (simp_all add: string_of_def bytes_of_def)
qed

lemma digit_byte:
  assumes "is_digit c"
  shows "of_nat (of_char c) < (0x80::u8)" and "\<not> white_space [of_nat (of_char c)]"
    and "of_nat (of_char c) \<noteq> (43::u8)" and "\<not> utf8_cont (of_nat (of_char c))"
proof -
  have u: "unat (of_nat (of_char c :: nat) :: u8) = of_char c" "48 \<le> (of_char c :: nat)" "(of_char c :: nat) \<le> 57"
    using assms by (simp_all add: unat_of_nat is_digit_def)
  have ne: "of_nat (of_char c) \<noteq> b" if "unat b < 48" for b :: u8
  proof
    assume "of_nat (of_char c) = b"
    then show False using u(1,2) that by simp
  qed
  show "of_nat (of_char c) < (0x80::u8)" using u by (simp add: word_less_nat_alt)
  show "\<not> white_space [of_nat (of_char c)]" by (simp add: white_space_def ne)
  show "of_nat (of_char c) \<noteq> (43::u8)" by (rule ne) simp
  show "\<not> utf8_cont (of_nat (of_char c))" using u by (simp add: utf8_cont_def word_le_nat_alt)
qed

text \<open>A printed number is a word, and reading it gives the number back exactly when it fits.\<close>

lemma bytes_of_append [simp]: "bytes_of (s @ t) = bytes_of s @ bytes_of t"
  by (simp add: bytes_of_def)

lemma bytes_of_Cons: "bytes_of (c # s) = of_nat (of_char c) # bytes_of s" "bytes_of [] = []"
  by (simp_all add: bytes_of_def)

lemma bytes_of_digits:
  assumes "list_all is_digit s"
  shows "ascii (bytes_of s)" and "list_all (\<lambda>b. \<not> white_space [b]) (bytes_of s)"
    and "list_all (\<lambda>b. b \<noteq> 43 \<and> \<not> utf8_cont b) (bytes_of s)"
  using assms digit_byte by (induction s) (simp_all add: bytes_of_Cons)

lemma parse_usize_show: "parse_usize (bytes_of (show_nat n)) = (if n < 2 ^ 64 then Some (of_nat n) else None)"
proof -
  obtain c s where s: "show_nat n = c # s" using show_nat_ne by (cases "show_nat n") auto
  have "of_nat (of_char c) \<noteq> (43::u8)" using show_nat_digits [of n] s digit_byte(3) by simp
  then have "(if bytes_of (show_nat n) \<noteq> [] \<and> hd (bytes_of (show_nat n)) = 43 then tl (bytes_of (show_nat n))
      else bytes_of (show_nat n)) = bytes_of (show_nat n)"
    by (simp add: s bytes_of_Cons)
  then show ?thesis by (simp add: parse_usize_def parse_show_nat)
qed

end
