(* ===== verification/Reactor.thy ===== *)
theory Reactor
  imports Queue
begin

section \<open>The reactor and the TCP streams (nea/src/reactor.rs)\<close>

text \<open>
  One source per queue slot. A source remembers for each direction whether the operating system
  has reported readiness (\<open>triggered\<close>) and which waker to call when it does (\<open>interest\<close>). The
  streams poll their source before each non-blocking operation; the reactor thread turns the
  events of the poller into triggers and wake-ups.

  A waker is the pointer of the executor's waker table, that is, an encoded queue index. The
  poller, its registry and the sockets belong to the operating system and the \<open>mio\<close> crate; they
  are arguments: the results of registration, the batches of events, the socket operations.

  Both sides hold the lock of the source while they work on it, so one pass of \<open>poll_io\<close> and the
  handling of one event are the atomic steps.
\<close>

subsection \<open>Sources\<close>

datatype direction = Read | Write

primrec dir_index :: "direction \<Rightarrow> nat" where
  "dir_index Read = 0"
| "dir_index Write = 1"

record source =
  so_interest :: "usize option list"
  so_triggered :: "bool list"

definition new_source :: source where
  "new_source = \<lparr>so_interest = [None, None], so_triggered = [False, False]\<rparr>"

definition poll_ready :: "source \<Rightarrow> direction \<Rightarrow> usize \<Rightarrow> unit io_result poll \<times> source" where
  "poll_ready src direction waker =
     (let d = dir_index direction in
      if so_triggered src ! d then (Ready (Inr ()), src)
      else
        let src' =
          (case so_interest src ! d of
             Some existing \<Rightarrow>
               if existing = waker then src
               else src\<lparr>so_interest := (so_interest src)[d := Some waker]\<rparr>
           | None \<Rightarrow> src\<lparr>so_interest := (so_interest src)[d := Some waker]\<rparr>)
        in if so_triggered src' ! d then (Ready (Inr ()), src') else (Pending, src'))"

definition clear_trigger :: "source \<Rightarrow> direction \<Rightarrow> source" where
  "clear_trigger src direction = src\<lparr>so_triggered := (so_triggered src)[dir_index direction := False]\<rparr>"

subsection \<open>The shared state\<close>

text \<open>\<open>sh_registry\<close> is the poller's view: the descriptors it watches, with their tokens.\<close>

record shared =
  sh_registry :: "(int \<times> usize) list"
  sh_sources :: "source option list"
  sh_io_resources :: io_resources

record tcp_stream =
  ts_fd :: int
  ts_token :: usize

definition new_shared :: "usize \<Rightarrow> io_resources \<Rightarrow> shared" where
  "new_shared bucket_count r =
     \<lparr>sh_registry = [], sh_sources = replicate (unat (bucket_count * per_bucket r)) None,
      sh_io_resources = r\<rparr>"

text \<open>
  \<open>Reactor::get_or_init\<close>: the cell \<open>SHARED\<close>, the error of creating the poller and the error of starting
  the thread. The cell is set before the thread is started and stays set when that fails.
\<close>

definition reactor_get_or_init ::
    "io_error option \<Rightarrow> io_error option \<Rightarrow> usize \<Rightarrow> io_resources \<Rightarrow> shared option \<Rightarrow>
     shared io_result \<times> shared option" where
  "reactor_get_or_init poller_error spawn_error bucket_count r cell =
     (case cell of
        None \<Rightarrow>
          (case poller_error of
             Some e \<Rightarrow> (Inl e, None)
           | None \<Rightarrow>
               (let shared = new_shared bucket_count r in
                (case spawn_error of Some e \<Rightarrow> Inl e | None \<Rightarrow> Inr shared, Some shared)))
      | Some shared \<Rightarrow> (Inr shared, cell))"

text \<open>
  A source that was stored stays when the poller refuses the stream. The argument \<open>fd\<close> is a stream that could be
  made non-blocking, as the accept loop does before; \<open>debug_assert!\<close> has no effect in the release profile.
\<close>

definition register ::
    "(int \<Rightarrow> usize \<Rightarrow> unit io_result) \<Rightarrow> queue_index \<Rightarrow> int \<Rightarrow> shared \<Rightarrow> tcp_stream outcome \<times> shared" where
  "register mio_register index fd sh =
     (let token = to_usize index; i = unat (qi_index index) in
      case index_slice (sh_sources sh) i of
        Inl p \<Rightarrow> (Panic p, sh)
      | Inr _ \<Rightarrow>
          (let sh' = sh\<lparr>sh_sources := (sh_sources sh)[i := Some new_source]\<rparr> in
           case mio_register fd token of
             Inl _ \<Rightarrow> (Panic Unwrap, sh')
           | Inr _ \<Rightarrow>
               (Ok \<lparr>ts_fd = fd, ts_token = token\<rparr>,
                sh'\<lparr>sh_registry := (fd, token) # sh_registry sh'\<rparr>)))"

text \<open>\<open>Drop for TcpStream\<close>; the result of \<open>deregister\<close> is ignored.\<close>

definition drop_stream :: "tcp_stream \<Rightarrow> shared \<Rightarrow> unit outcome \<times> shared" where
  "drop_stream ts sh =
     (let index = unat (qi_index (from_usize (ts_token ts)));
          sh' = sh\<lparr>sh_registry := filter (\<lambda>e. fst e \<noteq> ts_fd ts) (sh_registry sh)\<rparr>
      in case index_slice (sh_sources sh') index of
           Inl p \<Rightarrow> (Panic p, sh')
         | Inr old \<Rightarrow>
             (if old = None then Panic AssertFailed else Ok (),
              sh'\<lparr>sh_sources := (sh_sources sh')[index := None]\<rparr>))"

subsection \<open>Non-blocking operations\<close>

text \<open>
  One pass of the loop of \<open>poll_io\<close>. The operation \<open>f\<close> acts on the state \<open>'w\<close> of the socket. The
  result is \<open>None\<close> when the loop goes round again.
\<close>

definition poll_io_pass ::
    "('w \<Rightarrow> 'a io_result \<times> 'w) \<Rightarrow> usize \<Rightarrow> direction \<Rightarrow> usize \<Rightarrow> shared \<times> 'w \<Rightarrow>
     ('a io_result poll option \<times> shared \<times> 'w) outcome" where
  "poll_io_pass f token direction waker st =
     (case st of (sh, w) \<Rightarrow>
        let index = unat (qi_index (from_usize token)) in
        bind_outcome (index_slice (sh_sources sh) index) (\<lambda>guard.
          case guard of
            None \<Rightarrow> Ok (Some Pending, sh, w)
          | Some src \<Rightarrow>
              (case poll_ready src direction waker of
                 (Pending, src') \<Rightarrow>
                   Ok (Some Pending, sh\<lparr>sh_sources := (sh_sources sh)[index := Some src']\<rparr>, w)
               | (Ready (Inl e), src') \<Rightarrow>
                   Ok (Some (Ready (Inl e)), sh\<lparr>sh_sources := (sh_sources sh)[index := Some src']\<rparr>, w)
               | (Ready (Inr _), src') \<Rightarrow>
                   (case f w of
                      (val, w') \<Rightarrow>
                        if val = Inl WouldBlock then
                          Ok (None, sh\<lparr>sh_sources :=
                            (sh_sources sh)[index := Some (clear_trigger src' direction)]\<rparr>, w')
                        else
                          Ok (Some (Ready val), sh\<lparr>sh_sources := (sh_sources sh)[index := Some src']\<rparr>, w')))))"

partial_function (option) poll_io ::
    "('w \<Rightarrow> 'a io_result \<times> 'w) \<Rightarrow> usize \<Rightarrow> direction \<Rightarrow> usize \<Rightarrow> shared \<times> 'w \<Rightarrow>
     ('a io_result poll \<times> shared \<times> 'w) outcome option" where
  "poll_io f token direction waker st =
     (case poll_io_pass f token direction waker st of
        Inl p \<Rightarrow> Some (Panic p)
      | Inr (Some r, st') \<Rightarrow> Some (Ok (r, st'))
      | Inr (None, st') \<Rightarrow> poll_io f token direction waker st')"

text \<open>
  The operations of a socket: \<open>Read::read\<close> gives at most the requested number of bytes.
\<close>

record 'w socket =
  sk_read :: "nat \<Rightarrow> 'w \<Rightarrow> u8 list io_result \<times> 'w"
  sk_write :: "u8 list \<Rightarrow> 'w \<Rightarrow> nat io_result \<times> 'w"
  sk_flush :: "'w \<Rightarrow> unit io_result \<times> 'w"
  sk_shutdown :: "'w \<Rightarrow> unit io_result \<times> 'w"

text \<open>One poll of the futures \<open>read\<close>, \<open>write\<close> and \<open>flush\<close>.\<close>

definition read_stream where
  "read_stream sk ts buf_len waker st = poll_io (sk_read sk buf_len) (ts_token ts) Read waker st"

definition write_stream where
  "write_stream sk ts buf waker st = poll_io (sk_write sk buf) (ts_token ts) Write waker st"

definition flush_stream where
  "flush_stream sk ts waker st = poll_io (sk_flush sk) (ts_token ts) Write waker st"

text \<open>A read cursor of \<open>hyper\<close>: the bytes filled so far and the room left.\<close>

record read_buf =
  rb_filled :: "u8 list"
  rb_room :: nat

definition TMP_BUF_LEN :: nat where
  "TMP_BUF_LEN = 1024"

definition poll_read ::
    "'w socket \<Rightarrow> tcp_stream \<Rightarrow> usize \<Rightarrow> read_buf \<Rightarrow> shared \<times> 'w \<Rightarrow>
     (unit io_result poll \<times> read_buf \<times> shared \<times> 'w) outcome option" where
  "poll_read sk ts waker buf st =
     (let remaining = min (rb_room buf) TMP_BUF_LEN in
      case poll_io (sk_read sk remaining) (ts_token ts) Read waker st of
        None \<Rightarrow> None
      | Some (Inl p) \<Rightarrow> Some (Panic p)
      | Some (Inr (Pending, st')) \<Rightarrow> Some (Ok (Pending, buf, st'))
      | Some (Inr (Ready (Inl e), st')) \<Rightarrow> Some (Ok (Ready (Inl e), buf, st'))
      | Some (Inr (Ready (Inr bytes), st')) \<Rightarrow>
          (let n = length bytes in
           if n \<le> rb_room buf \<and> n \<le> TMP_BUF_LEN
           then Some (Ok (Ready (Inr ()),
             buf\<lparr>rb_filled := rb_filled buf @ bytes, rb_room := rb_room buf - n\<rparr>, st'))
           else Some (Panic IndexOutOfBounds)))"

definition poll_write where
  "poll_write sk ts waker buf st = poll_io (sk_write sk buf) (ts_token ts) Write waker st"

definition poll_flush where
  "poll_flush sk ts waker st = poll_io (sk_flush sk) (ts_token ts) Write waker st"

definition poll_shutdown where
  "poll_shutdown sk ts waker st = poll_io (sk_shutdown sk) (ts_token ts) Write waker st"

subsection \<open>The event loop\<close>

record event =
  ev_token :: usize
  ev_readable :: bool
  ev_writable :: bool

text \<open>One direction of one event: take the waker, set the trigger.\<close>

definition trigger :: "direction \<Rightarrow> source \<times> usize list \<Rightarrow> source \<times> usize list" where
  "trigger direction st =
     (case st of (src, wakers) \<Rightarrow>
        let d = dir_index direction in
        (src\<lparr>so_interest := (so_interest src)[d := None],
             so_triggered := (so_triggered src)[d := True]\<rparr>,
         (case so_interest src ! d of Some waker \<Rightarrow> wakers @ [waker] | None \<Rightarrow> wakers)))"

definition handle_event :: "event \<Rightarrow> shared \<times> usize list \<Rightarrow> (shared \<times> usize list) outcome" where
  "handle_event ev st =
     (case st of (sh, wakers) \<Rightarrow>
        let index = unat (qi_index (from_usize (ev_token ev))) in
        bind_outcome (index_slice (sh_sources sh) index) (\<lambda>guard.
          case guard of
            None \<Rightarrow> Ok (sh, wakers)
          | Some src \<Rightarrow>
              (let st1 = (if ev_readable ev then trigger Read (src, wakers) else (src, wakers));
                   st2 = (if ev_writable ev then trigger Write st1 else st1)
               in Ok (sh\<lparr>sh_sources := (sh_sources sh)[index := Some (fst st2)]\<rparr>, snd st2))))"

fun handle_events :: "event list \<Rightarrow> shared \<times> usize list \<Rightarrow> (shared \<times> usize list) outcome" where
  "handle_events [] st = Ok st"
| "handle_events (ev # evs) st = bind_outcome (handle_event ev st) (handle_events evs)"

text \<open>\<open>wake\<close> of the waker table in \<^verbatim>\<open>nea/src/executor.rs\<close>: the executor's queue is woken.\<close>

definition waker_for :: "queue_index \<Rightarrow> usize" where
  "waker_for qi = to_ptr qi"

definition wake_raw :: "usize \<Rightarrow> complex_queue \<Rightarrow> complex_queue outcome" where
  "wake_raw ptr q = bind_outcome (wake (from_ptr ptr) q) (\<lambda>(_, q'). Ok q')"

text \<open>
  The other entries of the waker table: a clone shares the pointer, waking by reference is waking, and
  dropping a waker does nothing.
\<close>

definition clone_raw :: "usize \<Rightarrow> usize" where
  "clone_raw ptr = ptr"

definition wake_by_ref :: "usize \<Rightarrow> complex_queue \<Rightarrow> complex_queue outcome" where
  "wake_by_ref ptr q = wake_raw ptr q"

definition drop_raw :: "usize \<Rightarrow> complex_queue \<Rightarrow> complex_queue" where
  "drop_raw ptr q = q"

fun drain_wakers :: "usize list \<Rightarrow> complex_queue \<Rightarrow> complex_queue outcome" where
  "drain_wakers [] q = Ok q"
| "drain_wakers (w # ws) q = bind_outcome (wake_raw w q) (drain_wakers ws)"

text \<open>\<open>Shared::poll\<close> on one answer of the poller.\<close>

definition reactor_poll ::
    "event list io_result \<Rightarrow> shared \<times> complex_queue \<Rightarrow> (unit io_result \<times> shared \<times> complex_queue) outcome" where
  "reactor_poll polled st =
     (case st of (sh, q) \<Rightarrow>
        (case polled of
           Inl err \<Rightarrow> if err \<noteq> Interrupted then Ok (Inl err, sh, q) else Ok (Inr (), sh, q)
         | Inr events \<Rightarrow>
             bind_outcome (handle_events events (sh, [])) (\<lambda>(sh', wakers).
               bind_outcome (drain_wakers wakers q) (\<lambda>q'. Ok (Inr (), sh', q')))))"

text \<open>The endless loop of the reactor thread, on a list of answers: errors are logged and dropped.\<close>

fun reactor_run ::
    "event list io_result list \<Rightarrow> shared \<times> complex_queue \<Rightarrow> (shared \<times> complex_queue) outcome" where
  "reactor_run [] st = Ok st"
| "reactor_run (polled # rest) st =
     bind_outcome (reactor_poll polled st) (\<lambda>(_, st'). reactor_run rest st')"

text \<open>A waker, or a clone of it, wakes the job it was made for.\<close>

lemma waker_wakes_its_job:
  "wake_by_ref (clone_raw (waker_for qi)) q = bind_outcome (wake qi q) (\<lambda>(_, q'). Ok q')"
  by (simp add: wake_by_ref_def clone_raw_def wake_raw_def waker_for_def to_ptr_def from_ptr_def
      from_usize_to_usize)

subsection \<open>Well-formed reactors\<close>

definition source_ok :: "source \<Rightarrow> bool" where
  "source_ok src \<longleftrightarrow> length (so_interest src) = 2 \<and> length (so_triggered src) = 2"

definition shared_ok :: "shared \<Rightarrow> bool" where
  "shared_ok sh \<longleftrightarrow> list_all (pred_option source_ok) (sh_sources sh)"

definition token_index :: "usize \<Rightarrow> nat" where
  "token_index token = unat (qi_index (from_usize token))"

lemma dir_index_less [simp]: "dir_index d < 2"
  by (cases d) simp_all

lemma dir_index_eq_iff [simp]: "dir_index d = dir_index e \<longleftrightarrow> d = e"
  by (cases d; cases e) simp_all

lemma ex_direction: "(\<exists>d. P d) \<longleftrightarrow> P Read \<or> P Write"
  by (metis direction.exhaust)

lemma new_source_ok [simp]: "source_ok new_source"
  by (simp add: source_ok_def new_source_def)

lemma shared_ok_nth:
  "shared_ok sh \<Longrightarrow> i < length (sh_sources sh) \<Longrightarrow> sh_sources sh ! i = Some src \<Longrightarrow> source_ok src"
  by (auto simp: shared_ok_def list_all_length)

lemma shared_ok_update:
  "shared_ok sh \<Longrightarrow> source_ok src \<Longrightarrow> shared_ok (sh\<lparr>sh_sources := (sh_sources sh)[i := Some src]\<rparr>)"
  by (auto simp: shared_ok_def intro: list_all_update)

text \<open>The source after a waker has been stored: idempotent for the same waker.\<close>

definition with_waker :: "direction \<Rightarrow> usize \<Rightarrow> source \<Rightarrow> source" where
  "with_waker d w src = src\<lparr>so_interest := (so_interest src)[dir_index d := Some w]\<rparr>"

lemma poll_ready_eq:
  "poll_ready src d w =
     (if so_triggered src ! dir_index d then (Ready (Inr ()), src) else (Pending, with_waker d w src))"
proof -
  have "so_interest src ! i = Some w \<Longrightarrow> (so_interest src)[i := Some w] = so_interest src" for i
    by (metis list_update_id)
  then show ?thesis by (auto simp: poll_ready_def with_waker_def Let_def split: option.splits)
qed

lemma with_waker_simps [simp]:
  "source_ok src \<Longrightarrow> source_ok (with_waker d w src)"
  "so_triggered (with_waker d w src) = so_triggered src"
  "source_ok src \<Longrightarrow> so_interest (with_waker d w src) ! dir_index e =
     (if e = d then Some w else so_interest src ! dir_index e)"
  by (auto simp: with_waker_def source_ok_def nth_list_update)

lemma clear_trigger_simps [simp]:
  "source_ok src \<Longrightarrow> source_ok (clear_trigger src d)"
  "so_interest (clear_trigger src d) = so_interest src"
  "source_ok src \<Longrightarrow> so_triggered (clear_trigger src d) ! dir_index e =
     (if e = d then False else so_triggered src ! dir_index e)"
  by (auto simp: clear_trigger_def source_ok_def nth_list_update)

primrec option_list :: "'a option \<Rightarrow> 'a list" where
  "option_list None = []"
| "option_list (Some x) = [x]"

lemma set_option_list [simp]: "x \<in> set (option_list v) \<longleftrightarrow> v = Some x"
  by (cases v) auto

lemma trigger_simps [simp]:
  "source_ok src \<Longrightarrow> source_ok (fst (trigger d (src, ws)))"
  "source_ok src \<Longrightarrow> so_triggered (fst (trigger d (src, ws))) ! dir_index e =
     (e = d \<or> so_triggered src ! dir_index e)"
  "source_ok src \<Longrightarrow> so_interest (fst (trigger d (src, ws))) ! dir_index e =
     (if e = d then None else so_interest src ! dir_index e)"
  "snd (trigger d (src, ws)) = ws @ option_list (so_interest src ! dir_index d)"
  by (auto simp: trigger_def Let_def source_ok_def nth_list_update split: option.splits)

subsection \<open>A stream without interference\<close>

text \<open>All outcomes of \<open>poll_io\<close> when no event arrives during the call.\<close>

definition poll_io_result ::
    "('w \<Rightarrow> 'a io_result \<times> 'w) \<Rightarrow> nat \<Rightarrow> direction \<Rightarrow> usize \<Rightarrow> shared \<times> 'w \<Rightarrow>
     'a io_result poll \<times> shared \<times> 'w" where
  "poll_io_result f i d waker st =
     (case st of (sh, w) \<Rightarrow>
        (case sh_sources sh ! i of
           None \<Rightarrow> (Pending, sh, w)
         | Some src \<Rightarrow>
             if so_triggered src ! dir_index d then
               (case f w of (val, w') \<Rightarrow>
                  if val = Inl WouldBlock then
                    (Pending, sh\<lparr>sh_sources :=
                       (sh_sources sh)[i := Some (with_waker d waker (clear_trigger src d))]\<rparr>, w')
                  else (Ready val, sh, w'))
             else (Pending, sh\<lparr>sh_sources := (sh_sources sh)[i := Some (with_waker d waker src)]\<rparr>, w)))"

lemma poll_io_pass_eq:
  assumes "token_index token < length (sh_sources sh)"
  shows "poll_io_pass f token d waker (sh, w) =
    (let i = token_index token in
     case sh_sources sh ! i of
       None \<Rightarrow> Ok (Some Pending, sh, w)
     | Some src \<Rightarrow>
         if so_triggered src ! dir_index d then
           (case f w of (val, w') \<Rightarrow>
              if val = Inl WouldBlock then
                Ok (None, sh\<lparr>sh_sources := (sh_sources sh)[i := Some (clear_trigger src d)]\<rparr>, w')
              else Ok (Some (Ready val), sh, w'))
         else Ok (Some Pending, sh\<lparr>sh_sources := (sh_sources sh)[i := Some (with_waker d waker src)]\<rparr>, w))"
proof -
  have keep: "sh\<lparr>sh_sources := (sh_sources sh)[i := Some src]\<rparr> = sh" if "sh_sources sh ! i = Some src" for i src
    by (metis that list_update_id shared.surjective shared.update_convs(2))
  show ?thesis
    using assms keep
    by (auto simp: poll_io_pass_def token_index_def Let_def poll_ready_eq index_slice_def
        split: option.splits prod.splits)
qed

lemma poll_io_eq:
  assumes ok: "shared_ok sh" and i: "token_index token < length (sh_sources sh)"
  shows "poll_io f token d waker (sh, w) = Some (Ok (poll_io_result f (token_index token) d waker (sh, w)))"
proof (cases "sh_sources sh ! token_index token")
  case None
  then show ?thesis
    by (subst poll_io.simps) (simp add: poll_io_pass_eq [OF i] poll_io_result_def Let_def)
next
  case (Some src)
  note src = shared_ok_nth [OF ok i Some]
  obtain val w' where f: "f w = (val, w')" by (cases "f w")
  let ?sh = "sh\<lparr>sh_sources := (sh_sources sh)[token_index token := Some (clear_trigger src d)]\<rparr>"
  have again: "poll_io f token d waker (?sh, w') = Some (Ok (Pending,
      sh\<lparr>sh_sources := (sh_sources sh)[token_index token := Some (with_waker d waker (clear_trigger src d))]\<rparr>, w'))"
    using i src by (subst poll_io.simps) (simp add: poll_io_pass_eq Let_def)
  show ?thesis
    using Some f again
    by (subst poll_io.simps) (simp add: poll_io_pass_eq [OF i] poll_io_result_def Let_def)
qed

subsection \<open>A batch of events\<close>

definition fires :: "event \<Rightarrow> direction \<Rightarrow> bool" where
  "fires ev d = (case d of Read \<Rightarrow> ev_readable ev | Write \<Rightarrow> ev_writable ev)"

text \<open>The batch reports readiness in direction \<open>d\<close> for source \<open>i\<close>.\<close>

definition reported :: "event list \<Rightarrow> nat \<Rightarrow> direction \<Rightarrow> bool" where
  "reported evs i d \<longleftrightarrow> (\<exists>ev \<in> set evs. token_index (ev_token ev) = i \<and> fires ev d)"

text \<open>What handling an event or a batch does to a source, given the reports.\<close>

definition source_after :: "(direction \<Rightarrow> bool) \<Rightarrow> source \<Rightarrow> source \<Rightarrow> bool" where
  "source_after rep src src' \<longleftrightarrow>
     source_ok src' \<and>
     (\<forall>d. so_triggered src' ! dir_index d = (rep d \<or> so_triggered src ! dir_index d) \<and>
          so_interest src' ! dir_index d = (if rep d then None else so_interest src ! dir_index d))"

lemma source_after_trans:
  "source_after r1 a b \<Longrightarrow> source_after r2 b c \<Longrightarrow> source_after (\<lambda>d. r1 d \<or> r2 d) a c"
  by (auto simp: source_after_def)

lemma source_after_refl: "source_ok src \<Longrightarrow> source_after (\<lambda>_. False) src src"
  by (simp add: source_after_def)

lemma trigger_if:
  assumes "source_ok src" and "(if b then trigger d (src, ws) else (src, ws)) = (src', ws')"
  shows "source_after (\<lambda>e. e = d \<and> b) src src'"
    and "ws' = ws @ (if b then option_list (so_interest src ! dir_index d) else [])"
proof -
  have "src' = (if b then fst (trigger d (src, ws)) else src)"
    "ws' = (if b then snd (trigger d (src, ws)) else ws)"
    using assms(2) by (auto split: if_splits simp: prod_eq_iff)
  then show "source_after (\<lambda>e. e = d \<and> b) src src'"
    and "ws' = ws @ (if b then option_list (so_interest src ! dir_index d) else [])"
    using assms(1) by (simp_all add: source_after_def)
qed

lemma handle_event_spec:
  assumes ok: "shared_ok sh" and i: "token_index (ev_token ev) < length (sh_sources sh)"
  obtains sh' fired where "handle_event ev (sh, ws) = Ok (sh', ws @ fired)"
    and "shared_ok sh'" and "length (sh_sources sh') = length (sh_sources sh)"
    and "\<forall>j < length (sh_sources sh). rel_option
      (source_after (\<lambda>d. j = token_index (ev_token ev) \<and> fires ev d)) (sh_sources sh ! j) (sh_sources sh' ! j)"
    and "\<forall>w. w \<in> set fired \<longleftrightarrow> (\<exists>src d. sh_sources sh ! token_index (ev_token ev) = Some src \<and>
      fires ev d \<and> so_interest src ! dir_index d = Some w)"
proof (cases "sh_sources sh ! token_index (ev_token ev)")
  case None
  then have "handle_event ev (sh, ws) = Ok (sh, ws @ [])"
    using i by (simp add: handle_event_def token_index_def index_slice_def)
  moreover have "rel_option (source_after (\<lambda>d. j = token_index (ev_token ev) \<and> fires ev d))
      (sh_sources sh ! j) (sh_sources sh ! j)" if "j < length (sh_sources sh)" for j
    using None shared_ok_nth [OF ok that] source_after_refl
    by (cases "sh_sources sh ! j"; cases "j = token_index (ev_token ev)") auto
  ultimately show thesis using that [of sh "[]"] ok None by simp
next
  case (Some src)
  let ?i = "token_index (ev_token ev)"
  let ?take = "\<lambda>d. if fires ev d then option_list (so_interest src ! dir_index d) else []"
  note src = shared_ok_nth [OF ok i Some]
  obtain src1 ws1 where s1: "(if ev_readable ev then trigger Read (src, ws) else (src, ws)) = (src1, ws1)"
    by (cases "if ev_readable ev then trigger Read (src, ws) else (src, ws)")
  obtain src2 ws2 where s2: "(if ev_writable ev then trigger Write (src1, ws1) else (src1, ws1)) = (src2, ws2)"
    by (cases "if ev_writable ev then trigger Write (src1, ws1) else (src1, ws1)")
  note t1 = trigger_if [OF src s1]
  have src1: "source_ok src1" and same: "so_interest src1 ! dir_index Write = so_interest src ! dir_index Write"
    using t1(1) by (simp_all add: source_after_def del: dir_index.simps)
  note t2 = trigger_if [OF src1 s2]
  have "(\<lambda>d. (d = Read \<and> ev_readable ev) \<or> (d = Write \<and> ev_writable ev)) = fires ev"
    by (rule ext, rename_tac d, case_tac d) (auto simp: fires_def)
  then have after: "source_after (fires ev) src src2"
    using source_after_trans [OF t1(1) t2(1)] by simp
  have e: "handle_event ev (sh, ws) =
      Ok (sh\<lparr>sh_sources := (sh_sources sh)[?i := Some src2]\<rparr>, ws @ (?take Read @ ?take Write))"
  proof -
    have "ws2 = ws @ (?take Read @ ?take Write)"
      using t1(2) t2(2) same by (simp add: fires_def del: dir_index.simps)
    moreover have "handle_event ev (sh, ws) = Ok (sh\<lparr>sh_sources := (sh_sources sh)[?i := Some src2]\<rparr>, ws2)"
      unfolding handle_event_def Let_def prod.case token_index_def [symmetric] index_slice_less [OF i]
        bind_outcome_simps Some option.case s1 s2 by simp
    ultimately show ?thesis by simp
  qed
  have rel: "rel_option (source_after (\<lambda>d. j = ?i \<and> fires ev d)) (sh_sources sh ! j)
      ((sh_sources sh)[?i := Some src2] ! j)" if "j < length (sh_sources sh)" for j
    using Some after shared_ok_nth [OF ok that] source_after_refl
    by (cases "sh_sources sh ! j"; cases "j = ?i") (auto simp: that i)
  have fired: "w \<in> set (?take Read @ ?take Write) \<longleftrightarrow> (\<exists>s d. sh_sources sh ! ?i = Some s \<and>
      fires ev d \<and> so_interest s ! dir_index d = Some w)" for w
    by (auto simp: Some ex_direction simp del: dir_index.simps)
  have "source_ok src2" using after by (simp add: source_after_def)
  then have "shared_ok (sh\<lparr>sh_sources := (sh_sources sh)[?i := Some src2]\<rparr>)"
    by (rule shared_ok_update [OF ok])
  then show thesis using that [OF e] rel fired by simp
qed

text \<open>The wakers stored in a reactor.\<close>

definition stored_waker :: "shared \<Rightarrow> nat \<Rightarrow> direction \<Rightarrow> usize \<Rightarrow> bool" where
  "stored_waker sh i d w \<longleftrightarrow>
     (\<exists>src. sh_sources sh ! i = Some src \<and> so_interest src ! dir_index d = Some w)"

lemma rel_stored_waker:
  assumes "rel_option (source_after rep) (sh_sources sh ! i) (sh_sources sh' ! i)"
  shows "stored_waker sh' i d w \<longleftrightarrow> \<not> rep d \<and> stored_waker sh i d w"
  using assms
  by (cases "sh_sources sh ! i"; cases "sh_sources sh' ! i") (auto simp: stored_waker_def source_after_def)

lemma handle_events_spec:
  assumes "shared_ok sh" and "\<forall>ev \<in> set evs. token_index (ev_token ev) < length (sh_sources sh)"
  obtains sh' fired where "handle_events evs (sh, ws) = Ok (sh', ws @ fired)"
    and "shared_ok sh'" and "length (sh_sources sh') = length (sh_sources sh)"
    and "\<forall>j < length (sh_sources sh). rel_option (source_after (reported evs j)) (sh_sources sh ! j) (sh_sources sh' ! j)"
    and "\<forall>w. w \<in> set fired \<longleftrightarrow> (\<exists>i d. i < length (sh_sources sh) \<and> reported evs i d \<and> stored_waker sh i d w)"
  using assms
proof (induction evs arbitrary: sh ws thesis)
  case Nil
  have none: "reported [] = (\<lambda>_ _. False)" by (intro ext) (simp add: reported_def)
  have "rel_option (source_after (\<lambda>_. False)) (sh_sources sh ! j) (sh_sources sh ! j)"
    if "j < length (sh_sources sh)" for j
    using shared_ok_nth [OF Nil(2) that] source_after_refl by (cases "sh_sources sh ! j") auto
  then show ?case using Nil(1) [of sh "[]"] Nil(2) by (simp add: none)
next
  case (Cons ev evs)
  let ?n = "length (sh_sources sh)" and ?i = "token_index (ev_token ev)"
  have i: "?i < ?n" using Cons.prems(3) by simp
  obtain sh1 f1 where h1: "handle_event ev (sh, ws) = Ok (sh1, ws @ f1)" "shared_ok sh1"
    "length (sh_sources sh1) = ?n"
    and r1: "\<forall>j < ?n. rel_option (source_after (\<lambda>d. j = ?i \<and> fires ev d)) (sh_sources sh ! j) (sh_sources sh1 ! j)"
    and w1: "\<forall>w. w \<in> set f1 \<longleftrightarrow> (\<exists>src d. sh_sources sh ! ?i = Some src \<and> fires ev d \<and> so_interest src ! dir_index d = Some w)"
    by (rule handle_event_spec [OF Cons.prems(2) i])
  obtain sh2 f2 where h2: "handle_events evs (sh1, ws @ f1) = Ok (sh2, (ws @ f1) @ f2)" "shared_ok sh2"
    "length (sh_sources sh2) = ?n"
    and r2: "\<forall>j < ?n. rel_option (source_after (reported evs j)) (sh_sources sh1 ! j) (sh_sources sh2 ! j)"
    and w2: "\<forall>w. w \<in> set f2 \<longleftrightarrow> (\<exists>i d. i < ?n \<and> reported evs i d \<and> stored_waker sh1 i d w)"
    by (rule Cons.IH [of sh1 "ws @ f1"]) (use h1 Cons.prems in simp_all)
  have rep: "reported (ev # evs) j = (\<lambda>d. (j = ?i \<and> fires ev d) \<or> reported evs j d)" for j
    by (rule ext) (auto simp: reported_def)
  have rel: "rel_option (source_after (reported (ev # evs) j)) (sh_sources sh ! j) (sh_sources sh2 ! j)"
    if "j < ?n" for j
    using r1 [rule_format, OF that] r2 [rule_format, OF that]
    by (cases "sh_sources sh ! j"; cases "sh_sources sh1 ! j"; cases "sh_sources sh2 ! j")
      (auto simp: rep dest: source_after_trans)
  have st1: "stored_waker sh1 j d w \<longleftrightarrow> \<not> (j = ?i \<and> fires ev d) \<and> stored_waker sh j d w" if "j < ?n" for j d w
    using rel_stored_waker [OF r1 [rule_format, OF that]] by simp
  have "w \<in> set (f1 @ f2) \<longleftrightarrow>
      (\<exists>i d. i < ?n \<and> reported (ev # evs) i d \<and> stored_waker sh i d w)" for w
  proof -
    have "w \<in> set f1 \<longleftrightarrow> (\<exists>d. fires ev d \<and> stored_waker sh ?i d w)"
      using w1 by (auto simp: stored_waker_def)
    moreover have "w \<in> set f2 \<longleftrightarrow>
        (\<exists>i d. i < ?n \<and> reported evs i d \<and> \<not> (i = ?i \<and> fires ev d) \<and> stored_waker sh i d w)"
      using w2 st1 by blast
    ultimately show ?thesis using i by (auto simp: rep)
  qed
  then show ?case
    using Cons.prems(1) [of sh2 "f1 @ f2"] h1 h2 rel by simp
qed

subsection \<open>Waking the tasks\<close>

text \<open>The bucket and the job of the task a waker belongs to.\<close>

definition waker_slot :: "io_resources \<Rightarrow> usize \<Rightarrow> nat \<times> nat" where
  "waker_slot r w =
     (let p = unat (tcp_streams r) + unat (http_connections r); i = unat (qi_index (from_ptr w))
      in (i div p, i mod p))"

definition waker_ok :: "complex_queue \<Rightarrow> usize \<Rightarrow> bool" where
  "waker_ok q w \<longleftrightarrow> fst (waker_slot (cq_io_resources q) w) < min 1000 (length (queue q))"

lemma wake_raw_helper:
  assumes "io_wf (cq_io_resources q)" and "waker_ok q w"
  shows "wake_raw w q =
    bind_outcome (helper (fst (waker_slot (cq_io_resources q) w)) (snd (waker_slot (cq_io_resources q) w)) q)
      (\<lambda>(_, q'). Ok q')"
proof -
  let ?r = "cq_io_resources q" let ?p = "unat (tcp_streams ?r) + unat (http_connections ?r)"
  let ?i = "unat (qi_index (from_ptr w))"
  have p: "0 < ?p" using assms(1) by (auto simp: io_wf_def)
  have "initial_enqueue (from_ptr w) q = helper (?i div ?p) (?i mod ?p) q"
    by (rule initial_enqueue_helper [OF assms(1)])
      (use assms(2) p in \<open>simp_all only: waker_ok_def waker_slot_def Let_def fst_conv min_less_iff_conj
         div_mult_mod_eq mod_less_divisor\<close>)
  then show ?thesis by (simp add: wake_raw_def wake_def waker_slot_def Let_def)
qed

lemma drain_wakers_enq_all:
  assumes "queue_inv q" and "io_wf (cq_io_resources q)" and "list_all (waker_ok q) ws"
  shows "drain_wakers ws q = cq.enq_all (map (waker_slot (cq_io_resources q)) ws) q"
  using assms
proof (induction ws arbitrary: q)
  case (Cons w ws)
  let ?r = "cq_io_resources q"
  obtain k j where kj: "waker_slot ?r w = (k, j)" by (cases "waker_slot ?r w")
  have w: "waker_ok q w" and k: "k < length (queue q)"
    using Cons.prems(3) kj by (auto simp: waker_ok_def)
  have p: "0 < unat (tcp_streams ?r) + unat (http_connections ?r)"
    "unat (tcp_streams ?r) + unat (http_connections ?r) \<le> 64"
    using Cons.prems(2) by (auto simp: io_wf_def)
  have "j < unat (tcp_streams ?r) + unat (http_connections ?r)"
    using kj mod_less_divisor [OF p(1)] by (auto simp only: waker_slot_def Let_def prod.inject)
  then have j: "j < 64" using p(2) by simp
  obtain b q' where h: "helper k j q = Ok (b, q')" "queue_inv q'" "cq_io_resources q' = ?r"
    "length (queue q') = length (queue q)"
    using helper_spec [OF Cons.prems(1) k j] by auto
  have "waker_ok q' = waker_ok q" by (rule ext) (simp add: waker_ok_def h)
  then have "list_all (waker_ok q') ws" using Cons.prems(3) by simp
  with Cons.IH [OF h(2)] h Cons.prems(2) kj show ?case
    by (simp add: wake_raw_helper [OF Cons.prems(2) w])
qed simp

lemma waker_slot_less:
  assumes "io_wf r"
  shows "snd (waker_slot r w) < 64"
proof -
  have p: "0 < unat (tcp_streams r) + unat (http_connections r)"
    "unat (tcp_streams r) + unat (http_connections r) \<le> 64"
    using assms by (auto simp: io_wf_def)
  show ?thesis
    using mod_less_divisor [OF p(1), of "unat (qi_index (from_ptr w))"] p(2)
    by (simp add: waker_slot_def Let_def)
qed

text \<open>Waking a list of tasks, through the contract of the job queue.\<close>

lemma drain_wakers_spec:
  assumes "queue_inv q" and "io_wf (cq_io_resources q)" and "list_all (waker_ok q) ws"
  obtains q' where "drain_wakers ws q = Ok q'" and "queue_inv q'"
    and "length (queue q') = length (queue q)"
    and "\<forall>b i. (b < length (queue q') \<and> bit (jobs (queue q' ! b)) i) \<longleftrightarrow>
      (b < length (queue q) \<and> bit (jobs (queue q ! b)) i) \<or> (b, i) \<in> waker_slot (cq_io_resources q) ` set ws"
proof -
  have "fst (waker_slot (cq_io_resources q) w) < length (queue q)" if "w \<in> set ws" for w
    using assms(3) that by (auto simp: list_all_iff waker_ok_def)
  then have "\<forall>(b, i) \<in> set (map (waker_slot (cq_io_resources q)) ws). b < length (queue q) \<and> i < 64"
    using waker_slot_less [OF assms(2)] by (auto simp: case_prod_unfold)
  from cq.enq_all_pending [OF assms(1) this] that show thesis
    by (auto simp: drain_wakers_enq_all [OF assms])
qed

subsection \<open>One direction of a stream, with the kernel and the event loop\<close>

text \<open>
  The task that uses a stream, the reactor thread and the kernel, for one direction of one
  stream. \<open>io_data\<close>: the kernel has something for the task (bytes to read, room to write).
  \<open>io_edge\<close>: an event for it has not been handled yet (the poller is edge triggered). \<open>io_wakers\<close>:
  the wakers the event loop has taken and not called yet. A task is parked when its last poll
  was pending, and leaves that state when its waker is called.
\<close>

datatype task = Runnable | Parked

record io_sys =
  io_shared :: shared
  io_data :: bool
  io_edge :: bool
  io_wakers :: "usize list"
  io_task :: task

text \<open>The non-blocking operation: it takes all the data or some of it.\<close>

definition socket_op :: "bool \<Rightarrow> bool \<Rightarrow> unit io_result \<times> bool" where
  "socket_op all data = (if data then (Inr (), \<not> all) else (Inl WouldBlock, False))"

datatype io_action = Arrive | TaskPass bool | HandleEvent | CallWaker

definition direction_event :: "usize \<Rightarrow> direction \<Rightarrow> event" where
  "direction_event token d = \<lparr>ev_token = token, ev_readable = (d = Read), ev_writable = (d = Write)\<rparr>"

text \<open>A task pass is one pass of the loop of \<open>poll_io\<close>; between passes the lock is free.\<close>

definition io_step :: "usize \<Rightarrow> direction \<Rightarrow> usize \<Rightarrow> io_action \<Rightarrow> io_sys \<Rightarrow> io_sys option" where
  "io_step token d waker a s =
     (case a of
        Arrive \<Rightarrow> Some (s\<lparr>io_data := True, io_edge := True\<rparr>)
      | TaskPass all \<Rightarrow>
          if io_task s = Parked then None
          else (case poll_io_pass (socket_op all) token d waker (io_shared s, io_data s) of
                  Inl _ \<Rightarrow> None
                | Inr (r, sh', data') \<Rightarrow>
                    Some (s\<lparr>io_shared := sh', io_data := data',
                      io_task := (if r = Some Pending then Parked else Runnable)\<rparr>))
      | HandleEvent \<Rightarrow>
          if \<not> io_edge s then None
          else (case handle_event (direction_event token d) (io_shared s, io_wakers s) of
                  Inl _ \<Rightarrow> None
                | Inr (sh', ws') \<Rightarrow> Some (s\<lparr>io_shared := sh', io_wakers := ws', io_edge := False\<rparr>))
      | CallWaker \<Rightarrow>
          (case io_wakers s of
             [] \<Rightarrow> None
           | w # ws \<Rightarrow> Some (s\<lparr>io_wakers := ws,
               io_task := (if w = waker then Runnable else io_task s)\<rparr>)))"

inductive io_reachable :: "usize \<Rightarrow> direction \<Rightarrow> usize \<Rightarrow> io_sys \<Rightarrow> io_sys \<Rightarrow> bool"
  for token d waker s0 where
  io_start: "io_reachable token d waker s0 s0"
| io_next: "io_reachable token d waker s0 s \<Longrightarrow> io_step token d waker a s = Some s' \<Longrightarrow>
    io_reachable token d waker s0 s'"

text \<open>A stream that has just been registered; the poller reports what is ready already.\<close>

definition io_initial :: "usize \<Rightarrow> io_sys \<Rightarrow> bool" where
  "io_initial token s \<longleftrightarrow>
     shared_ok (io_shared s) \<and> token_index token < length (sh_sources (io_shared s)) \<and>
     sh_sources (io_shared s) ! token_index token = Some new_source \<and>
     io_edge s = io_data s \<and> io_wakers s = [] \<and> io_task s = Runnable"

definition io_inv :: "usize \<Rightarrow> direction \<Rightarrow> usize \<Rightarrow> io_sys \<Rightarrow> bool" where
  "io_inv token d waker s \<longleftrightarrow>
     shared_ok (io_shared s) \<and> token_index token < length (sh_sources (io_shared s)) \<and>
     (\<exists>src. sh_sources (io_shared s) ! token_index token = Some src \<and>
        (io_data s \<longrightarrow> io_edge s \<or> so_triggered src ! dir_index d) \<and>
        (io_task s = Parked \<longrightarrow>
           waker \<in> set (io_wakers s) \<or>
           (so_interest src ! dir_index d = Some waker \<and> \<not> so_triggered src ! dir_index d)))"

lemma io_inv_initial: "io_initial token s \<Longrightarrow> io_inv token d waker s"
  by (cases d) (auto simp: io_initial_def io_inv_def new_source_def)

lemma fires_direction_event: "fires (direction_event token d) e \<longleftrightarrow> e = d"
  by (cases e) (auto simp: fires_def direction_event_def)

lemma io_step_inv:
  assumes inv: "io_inv token d waker s" and step: "io_step token d waker a s = Some s'"
  shows "io_inv token d waker s'"
proof -
  let ?i = "token_index token"
  obtain src where src: "sh_sources (io_shared s) ! ?i = Some src"
    and data: "io_data s \<longrightarrow> io_edge s \<or> so_triggered src ! dir_index d"
    and parked: "io_task s = Parked \<longrightarrow> waker \<in> set (io_wakers s) \<or>
      (so_interest src ! dir_index d = Some waker \<and> \<not> so_triggered src ! dir_index d)"
    using inv by (auto simp: io_inv_def)
  have ok: "shared_ok (io_shared s)" and i: "?i < length (sh_sources (io_shared s))"
    using inv by (auto simp: io_inv_def)
  note so = shared_ok_nth [OF ok i src]
  show ?thesis
  proof (cases a)
    case Arrive
    then show ?thesis using step inv by (auto simp: io_step_def io_inv_def)
  next
    case (TaskPass all)
    then show ?thesis
      using step ok i src so data shared_ok_update [OF ok]
      by (auto simp: io_step_def io_inv_def poll_io_pass_eq Let_def socket_op_def split: if_splits)
  next
    case HandleEvent
    let ?ev = "direction_event token d"
    have t: "token_index (ev_token ?ev) = ?i" by (simp add: direction_event_def)
    obtain sh' fired where h: "handle_event ?ev (io_shared s, io_wakers s) = Ok (sh', io_wakers s @ fired)"
      "shared_ok sh'" "length (sh_sources sh') = length (sh_sources (io_shared s))"
      "\<forall>j < length (sh_sources (io_shared s)). rel_option (source_after
        (\<lambda>e. j = ?i \<and> fires ?ev e)) (sh_sources (io_shared s) ! j) (sh_sources sh' ! j)"
      "\<forall>w. w \<in> set fired \<longleftrightarrow> (\<exists>src e. sh_sources (io_shared s) ! ?i = Some src \<and>
        fires ?ev e \<and> so_interest src ! dir_index e = Some w)"
      by (rule handle_event_spec [OF ok, of ?ev "io_wakers s", unfolded t]) (use i in simp_all)
    obtain src' where src': "sh_sources sh' ! ?i = Some src'" "source_after (\<lambda>e. e = d) src src'"
      using h(4) [rule_format, OF i] src by (auto simp: fires_direction_event option_rel_Some1)
    have "waker \<in> set (io_wakers s @ fired)" if "io_task s = Parked"
      using parked that h(5) src by (auto simp: fires_direction_event)
    then show ?thesis
      using step HandleEvent h(1-3) src' i by (auto simp: io_step_def io_inv_def source_after_def split: if_splits)
  next
    case CallWaker
    then show ?thesis
      using step inv by (auto simp: io_step_def io_inv_def split: list.splits if_splits)
  qed
qed

lemma io_reachable_inv:
  assumes "io_reachable token d waker s0 s" and "io_initial token s0"
  shows "io_inv token d waker s"
  using assms by (induction rule: io_reachable.induct) (auto intro: io_inv_initial io_step_inv)

subsection \<open>Properties\<close>

text \<open>
  C19: no lost readiness. In every interleaving of a task that polls a stream, the event loop and
  the kernel, a task that is parked while the kernel has data for it is about to be woken: an
  event for the stream is still unhandled, or the event loop has taken the task's waker and has
  not called it yet.
\<close>

theorem parked_task_is_woken:
  assumes "io_initial token s0" and "io_reachable token d waker s0 s"
    and "io_task s = Parked" and "io_data s"
  shows "io_edge s \<or> waker \<in> set (io_wakers s)"
  using io_reachable_inv [OF assms(2,1)] assms(3,4) by (auto simp: io_inv_def)

text \<open>
  C21: a poll of a stream always returns, and as it should. A call that no event interrupts runs the
  socket operation at most once: not at all unless readiness was reported, in which case its
  result is returned; when the operation would block, the report is cleared. Whenever the result
  is pending, the waker is stored and the report is off, so the next event calls the waker.
\<close>

theorem poll_io_correct:
  assumes "shared_ok sh" and "token_index token < length (sh_sources sh)"
    and "sh_sources sh ! token_index token = Some src"
  shows "\<exists>r sh' w'. poll_io f token d waker (sh, w) = Some (Ok (r, sh', w')) \<and>
    (so_triggered src ! dir_index d \<and> fst (f w) \<noteq> Inl WouldBlock \<longrightarrow>
       r = Ready (fst (f w)) \<and> w' = snd (f w) \<and> sh' = sh) \<and>
    (\<not> so_triggered src ! dir_index d \<longrightarrow> r = Pending \<and> w' = w) \<and>
    (so_triggered src ! dir_index d \<and> fst (f w) = Inl WouldBlock \<longrightarrow> r = Pending \<and> w' = snd (f w)) \<and>
    (r = Pending \<longrightarrow>
       (\<exists>src'. sh_sources sh' ! token_index token = Some src' \<and>
          so_interest src' ! dir_index d = Some waker \<and> \<not> so_triggered src' ! dir_index d))"
  using assms(2,3) shared_ok_nth [OF assms]
  by (cases "f w") (auto simp: poll_io_eq [OF assms(1,2)] poll_io_result_def)

text \<open>
  C20: the event loop loses no wake-up. Handling a batch of events on existing sources never panics;
  for every reported direction it records the readiness and removes the stored waker, every
  waker it removed has its job enqueued in the executor's queue, the other sources and
  directions are unchanged, and the queue stays well formed.
\<close>

theorem event_batch_wakes_all:
  assumes "shared_ok sh" and "queue_inv q" and "io_wf (cq_io_resources q)"
    and "\<forall>ev \<in> set evs. token_index (ev_token ev) < length (sh_sources sh)"
    and "\<forall>i < length (sh_sources sh). \<forall>d w. stored_waker sh i d w \<longrightarrow> waker_ok q w"
  shows "\<exists>sh' q'. reactor_poll (Inr evs) (sh, q) = Ok (Inr (), sh', q') \<and> shared_ok sh' \<and> queue_inv q' \<and>
    (\<forall>i < length (sh_sources sh). rel_option (source_after (reported evs i)) (sh_sources sh ! i) (sh_sources sh' ! i)) \<and>
    (\<forall>b j. (b < length (queue q') \<and> bit (jobs (queue q' ! b)) j) \<longleftrightarrow>
       (b < length (queue q) \<and> bit (jobs (queue q ! b)) j) \<or>
       (\<exists>i < length (sh_sources sh). \<exists>d w. reported evs i d \<and> stored_waker sh i d w \<and>
          waker_slot (cq_io_resources q) w = (b, j)))"
proof -
  obtain sh' ws where h: "handle_events evs (sh, []) = Ok (sh', ws)" "shared_ok sh'"
    "\<forall>j < length (sh_sources sh). rel_option (source_after (reported evs j)) (sh_sources sh ! j) (sh_sources sh' ! j)"
    "\<forall>w. w \<in> set ws \<longleftrightarrow> (\<exists>i d. i < length (sh_sources sh) \<and> reported evs i d \<and> stored_waker sh i d w)"
    using handle_events_spec [OF assms(1,4), of "[]"] by (metis append_Nil)
  have "list_all (waker_ok q) ws" using h(4) assms(5) by (auto simp: list_all_iff)
  from drain_wakers_spec [OF assms(2,3) this] obtain q' where q': "drain_wakers ws q = Ok q'"
    "queue_inv q'"
    "\<forall>b i. (b < length (queue q') \<and> bit (jobs (queue q' ! b)) i) \<longleftrightarrow>
      (b < length (queue q) \<and> bit (jobs (queue q ! b)) i) \<or> (b, i) \<in> waker_slot (cq_io_resources q) ` set ws"
    by metis
  have img: "(b, j) \<in> waker_slot (cq_io_resources q) ` set ws \<longleftrightarrow>
      (\<exists>i < length (sh_sources sh). \<exists>d w. reported evs i d \<and> stored_waker sh i d w \<and>
        waker_slot (cq_io_resources q) w = (b, j))" for b j
    unfolding image_iff h(4) [rule_format] Bex_def by metis
  have "reactor_poll (Inr evs) (sh, q) = Ok (Inr (), sh', q')"
    using h(1) q'(1) by (simp add: reactor_poll_def)
  with h(2,3) q'(2,3) img show ?thesis by auto
qed

text \<open>
  C22: \<open>poll_read\<close> delivers what the socket gave. For a socket that returns at most the bytes asked
  for, the call always returns; it appends exactly the bytes read, at most 1024 of them and never
  more than there is room for, and an error or a pending result leaves the buffer as it was.
\<close>

theorem poll_read_delivers:
  assumes "shared_ok sh" and "token_index (ts_token ts) < length (sh_sources sh)"
    and "\<forall>n w. case fst (sk_read sk n w) of Inr bytes \<Rightarrow> length bytes \<le> n | Inl _ \<Rightarrow> True"
  shows "\<exists>r buf' sh' w'. poll_read sk ts waker buf (sh, w) = Some (Ok (r, buf', sh', w')) \<and>
    (\<exists>bytes. rb_filled buf' = rb_filled buf @ bytes \<and> rb_room buf' + length bytes = rb_room buf \<and>
       length bytes \<le> 1024 \<and>
       (if r = Ready (Inr ()) then fst (sk_read sk (min (rb_room buf) 1024) w) = Inr bytes
        else bytes = []))"
proof -
  let ?n = "min (rb_room buf) TMP_BUF_LEN"
  obtain v w' where v: "sk_read sk ?n w = (v, w')" by (cases "sk_read sk ?n w")
  have len: "v = Inr bytes \<Longrightarrow> length bytes \<le> ?n" for bytes
    using assms(3) [rule_format, of ?n w] v by simp
  note io = poll_io_eq [OF assms(1,2), of "sk_read sk ?n" Read waker w, unfolded TMP_BUF_LEN_def]
  show ?thesis
  proof (cases "sh_sources sh ! token_index (ts_token ts)")
    case None
    then show ?thesis
      by (auto simp: poll_read_def Let_def io poll_io_result_def TMP_BUF_LEN_def)
  next
    case (Some src)
    have v': "sk_read sk (min (rb_room buf) 1024) w = (v, w')" using v by (simp add: TMP_BUF_LEN_def)
    show ?thesis
      using Some v v' len
      by (cases v) (auto simp: poll_read_def Let_def io poll_io_result_def TMP_BUF_LEN_def)
  qed
qed

text \<open>Concrete states: one registered stream, its task in bucket 0 of a queue with one bucket.\<close>

definition example_shared :: shared where
  "example_shared =
     \<lparr>sh_registry = [(7, 0)], sh_sources = [Some new_source], sh_io_resources = default_io_resources\<rparr>"

definition example_waiting :: shared where
  "example_waiting = example_shared\<lparr>sh_sources := [Some (with_waker Read 0 new_source)]\<rparr>"

lemma example_token: "token_index 0 = 0"
proof -
  have "qi_index (from_usize 0) = 0" by (rule bit_word_eqI) (simp add: bit_from_usize_index)
  then show ?thesis by (simp add: token_index_def)
qed

lemma example_shared_ok: "shared_ok example_shared" "shared_ok example_waiting"
  by (simp_all add: shared_ok_def example_shared_def example_waiting_def)

lemma example_reactor_queue: "queue_inv (with_capacity 1 default_io_resources)"
    "io_wf (cq_io_resources (with_capacity 1 default_io_resources))"
  by (simp_all add: queue_inv_def with_capacity_def empty_slot_def slot_ok_def claimable_def flag_defs
      io_wf_def default_io_resources_def)

theorem parked_task_is_woken_witness:
  "\<exists>s. io_reachable 0 Read 0
      \<lparr>io_shared = example_shared, io_data = False, io_edge = False, io_wakers = [], io_task = Runnable\<rparr> s \<and>
     io_task s = Parked \<and> io_data s \<and> (io_edge s \<or> 0 \<in> set (io_wakers s))"
proof -
  let ?s0 = "\<lparr>io_shared = example_shared, io_data = False, io_edge = False, io_wakers = [], io_task = Runnable\<rparr>"
  let ?s1 = "?s0\<lparr>io_shared := example_waiting, io_task := Parked\<rparr>"
  let ?s2 = "?s1\<lparr>io_data := True, io_edge := True\<rparr>"
  have init: "io_initial 0 ?s0"
    using example_shared_ok by (simp add: io_initial_def example_token example_shared_def)
  have "io_step 0 Read 0 (TaskPass True) ?s0 = Some ?s1"
    by (simp add: io_step_def poll_io_pass_eq example_token example_shared_def example_waiting_def new_source_def)
  then have "io_reachable 0 Read 0 ?s0 ?s1" by (rule io_reachable.io_next [OF io_reachable.io_start])
  moreover have "io_step 0 Read 0 Arrive ?s1 = Some ?s2" by (simp add: io_step_def)
  ultimately have r: "io_reachable 0 Read 0 ?s0 ?s2" by (rule io_reachable.io_next)
  show ?thesis
    by (rule exI [of _ ?s2]) (use r parked_task_is_woken [OF init r] in simp)
qed

theorem poll_io_correct_witness:
  "\<exists>r sh' w'. poll_io (\<lambda>w. (Inr w, w)) 0 Read 0 (example_shared, 5 :: nat) = Some (Ok (r, sh', w')) \<and>
     r = Pending \<and> w' = 5"
proof -
  have s: "sh_sources example_shared ! token_index 0 = Some new_source"
    by (simp add: example_token example_shared_def)
  have l: "token_index 0 < length (sh_sources example_shared)"
    by (simp add: example_token example_shared_def)
  have t: "\<not> so_triggered new_source ! dir_index Read" by (simp add: new_source_def)
  from poll_io_correct [OF example_shared_ok(1) l s, of "\<lambda>w. (Inr w, w)" Read 0 "5 :: nat"] t
  show ?thesis by blast
qed

theorem event_batch_wakes_all_witness:
  "\<exists>sh' q'. reactor_poll (Inr [direction_event 0 Read]) (example_waiting, with_capacity 1 default_io_resources) =
      Ok (Inr (), sh', q') \<and> bit (jobs (queue q' ! 0)) 0"
proof -
  let ?q = "with_capacity 1 default_io_resources" and ?ev = "direction_event 0 Read"
  have p0: "from_ptr 0 = from_usize 0" by (simp add: from_ptr_def)
  have w0: "waker_slot default_io_resources 0 = (0, 0)"
    using example_token by (simp add: waker_slot_def p0 token_index_def default_io_resources_def)
  have st: "stored_waker example_waiting 0 e w \<longleftrightarrow> e = Read \<and> w = 0" for e w
    by (cases e) (auto simp: stored_waker_def example_waiting_def with_waker_def new_source_def)
  have rep: "reported [?ev] 0 Read"
    by (simp add: reported_def fires_def direction_event_def example_token)
  have q: "length (queue ?q) = 1" "cq_io_resources ?q = default_io_resources"
    by (simp_all add: with_capacity_def)
  have len: "length (sh_sources example_waiting) = 1" by (simp add: example_waiting_def)
  have h1: "\<forall>ev \<in> set [?ev]. token_index (ev_token ev) < length (sh_sources example_waiting)"
    by (simp add: direction_event_def example_token len)
  have h2: "\<forall>i < length (sh_sources example_waiting). \<forall>d w. stored_waker example_waiting i d w \<longrightarrow> waker_ok ?q w"
    using st by (simp add: len waker_ok_def q [unfolded One_nat_def] w0)
  obtain sh' q' where r: "reactor_poll (Inr [?ev]) (example_waiting, ?q) = Ok (Inr (), sh', q')"
    and j: "\<forall>b j. (b < length (queue q') \<and> bit (jobs (queue q' ! b)) j) \<longleftrightarrow>
       (b < length (queue ?q) \<and> bit (jobs (queue ?q ! b)) j) \<or>
       (\<exists>i < length (sh_sources example_waiting). \<exists>d w. reported [?ev] i d \<and> stored_waker example_waiting i d w \<and>
          waker_slot (cq_io_resources ?q) w = (b, j))"
    using event_batch_wakes_all [OF example_shared_ok(2) example_reactor_queue h1 h2] by blast
  have "\<exists>i < length (sh_sources example_waiting). \<exists>d w. reported [?ev] i d \<and> stored_waker example_waiting i d w \<and>
          waker_slot (cq_io_resources ?q) w = (0, 0)"
    by (rule exI [of _ 0]) (use rep st w0 len q in auto)
  with j have "bit (jobs (queue q' ! 0)) 0" by blast
  with r show ?thesis by blast
qed

theorem poll_read_delivers_witness:
  "\<exists>r buf' sh' w'. poll_read
      \<lparr>sk_read = (\<lambda>n w. (Inr (take n w), drop n w)), sk_write = (\<lambda>b w. (Inr (length b), w)),
       sk_flush = (\<lambda>w. (Inr (), w)), sk_shutdown = (\<lambda>w. (Inr (), w))\<rparr>
      \<lparr>ts_fd = 7, ts_token = 0\<rparr> 0 \<lparr>rb_filled = [1], rb_room = 2\<rparr>
      (example_shared\<lparr>sh_sources := [Some (new_source\<lparr>so_triggered := [True, False]\<rparr>)]\<rparr>, [5, 6, 7]) =
        Some (Ok (r, buf', sh', w')) \<and> length (rb_filled buf') + rb_room buf' = 3"
proof -
  let ?sk = "\<lparr>sk_read = (\<lambda>n w. (Inr (take n w), drop n w)), sk_write = (\<lambda>b w. (Inr (length b), w)),
       sk_flush = (\<lambda>w. (Inr (), w)), sk_shutdown = (\<lambda>w. (Inr (), w))\<rparr>"
  let ?sh = "example_shared\<lparr>sh_sources := [Some (new_source\<lparr>so_triggered := [True, False]\<rparr>)]\<rparr>"
  have ok: "shared_ok ?sh" by (simp add: shared_ok_def source_ok_def new_source_def)
  have l: "token_index (ts_token \<lparr>ts_fd = 7, ts_token = 0\<rparr>) < length (sh_sources ?sh)"
    by (simp add: example_token)
  have "\<forall>n w. case fst (sk_read ?sk n w) of Inr bytes \<Rightarrow> length bytes \<le> n | Inl _ \<Rightarrow> True" by simp
  from poll_read_delivers [OF ok l this, of 0 "\<lparr>rb_filled = [1], rb_room = 2\<rparr>" "[5, 6, 7]"]
  show ?thesis by fastforce
qed
end
