(* ===== verification/Executor.thy ===== *)
theory Executor
  imports Reactor Arena
begin

section \<open>The executor (nea/src/executor.rs)\<close>

text \<open>
  The executor owns, per bucket, the future of a request, the descriptor of its client, the slots
  of its outgoing HTTP connections and the number of its live jobs. Workers take a bucket from
  the job queue and run its jobs one by one; a request that runs out of memory or panics is
  answered with an error and its bucket is emptied.

  The application, the \<open>hyper\<close> connections and the operating system are an argument of the
  definitions (\<open>application\<close>). One poll of a future is given by the calls it makes into this
  program, in order, and by how it ends; the calls are executed by the model, and the first one
  that does not return ends the poll. A value that is dropped takes the streams it owns with it: which streams
  a suspended future or a connection owns, and which ones are alive at a call, is part of the
  application; \<open>Drop\<close> of each stream is executed by the model.

  The locks of the futures and connections are used by the worker of the bucket only (theory
  \<open>Queue_Concurrent\<close>), so \<open>try_lock\<close> on them succeeds and they do not appear in the state. The lock of a reference count is
  shared with the main thread; which of them are held by a worker is an argument of \<open>try_claim\<close>.
\<close>

subsection \<open>Data\<close>

datatype 'c slot = Empty | Reserved | Occupied 'c

datatype hyper_wake = Legit | AfterDeath

datatype done_with = ForNow | Forever | OutOfMemory | Panicked

datatype cleanup_reason = CleanupOutOfMemory | CleanupPanic

text \<open>
  \<open>ex_io\<close> to \<open>ex_queue\<close> are the fields of \<open>Inner\<close>. Then the state around it: the allocator, the
  reactor, the counter of connection identifiers, the entries of \<open>ex_tcp_streams\<close> that were closed (latest
  first) and the bytes of error responses by descriptor.
\<close>

record ('f, 'c) executor =
  ex_io :: io_resources
  ex_refcounts :: "u8 list"
  ex_futures :: "'f option list"
  ex_tcp_streams :: "int list"
  ex_connections :: "'c slot list"
  ex_queue :: complex_queue
  ex_alloc :: server_alloc
  ex_reactor :: shared
  ex_identifier :: u32
  ex_closed :: "int list"
  ex_sent :: "(int \<times> string) list"

text \<open>
  The calls of an application: an allocation, the two halves of \<open>handshake\<close> (before and after
  \<open>hyper\<close>'s own handshake), the registration of a stream with the reactor and its removal, and the call of a
  waker, its own or another one.
\<close>

datatype 'c app_call =
    AppAlloc layout
  | AppHandshakeBegin bucket_index int
  | AppHandshakeEnd connection_index 'c
  | AppRegister queue_index int
  | AppDropStream tcp_stream
  | AppWake usize

text \<open>A call comes with the streams that are alive around it: they are dropped when it panics.\<close>

type_synonym 'c app_step = "'c app_call \<times> tcp_stream list"

text \<open>
  How a poll ends: pending or ready, with the state of the future then, or with a panic of its own and the
  streams alive at that point.
\<close>

datatype 'f app_end = AppPending 'f | AppReady 'f | AppPanic panic "tcp_stream list"

text \<open>
  \<open>ap_streams\<close> and \<open>ap_conn_streams\<close> are the streams a stored future or connection owns, in the order in which they are
  dropped. \<open>ap_panicked\<close> is what a panic leaves of a future; \<open>ap_jumped\<close> and \<open>ap_conn_jumped\<close> are what is left of a future or a
  connection in memory when the call after the first \<open>n\<close> calls of a poll jumps out of it. The last fields are the
  answers of the operating system.
\<close>

record ('f, 'c) application =
  ap_poll :: "'f \<Rightarrow> usize \<Rightarrow> 'c app_step list \<times> 'f app_end"
  ap_poll_connection :: "'c \<Rightarrow> usize \<Rightarrow> 'c app_step list \<times> 'c app_end"
  ap_streams :: "'f \<Rightarrow> tcp_stream list"
  ap_conn_streams :: "'c \<Rightarrow> tcp_stream list"
  ap_panicked :: "'f \<Rightarrow> 'f"
  ap_jumped :: "'f \<Rightarrow> usize \<Rightarrow> nat \<Rightarrow> 'f"
  ap_conn_jumped :: "'c \<Rightarrow> usize \<Rightarrow> nat \<Rightarrow> 'c"
  ap_system_alloc :: "layout \<Rightarrow> usize"
  ap_mio_register :: "int \<Rightarrow> usize \<Rightarrow> unit io_result"
  ap_write_all :: "int \<Rightarrow> string \<Rightarrow> unit io_result"
  ap_flush :: "int \<Rightarrow> unit io_result"
  ap_shutdown_write :: "int \<Rightarrow> unit io_result"
  ap_shutdown :: "int \<Rightarrow> unit io_result"

subsection \<open>Creation and claiming\<close>

definition new_executor ::
    "usize \<Rightarrow> io_resources \<Rightarrow> server_alloc \<Rightarrow> shared \<Rightarrow> ('f, 'c) executor" where
  "new_executor bucket_count r al re =
     \<lparr>ex_io = r,
      ex_refcounts = replicate (unat bucket_count) 0,
      ex_futures = replicate (unat (bucket_count * per_bucket r)) None,
      ex_tcp_streams = replicate (unat bucket_count) 0,
      ex_connections = replicate (unat (bucket_count * http_connections r)) Empty,
      ex_queue = with_capacity (unat bucket_count) r,
      ex_alloc = al, ex_reactor = re, ex_identifier = 0, ex_closed = [], ex_sent = []\<rparr>"

text \<open>\<open>get_or_init\<close> on the cell \<open>INNER\<close>; \<open>get\<close> reads it.\<close>

definition executor_get_or_init ::
    "usize \<Rightarrow> io_resources \<Rightarrow> server_alloc \<Rightarrow> shared \<Rightarrow> ('f, 'c) executor option \<Rightarrow>
     ('f, 'c) executor outcome" where
  "executor_get_or_init bucket_count r al re cell =
     (case cell of
        None \<Rightarrow> Ok (new_executor bucket_count r al re)
      | Some inner \<Rightarrow> if r = ex_io inner then Ok inner else Panic AssertFailed)"

text \<open>
  The first bucket with count 0 whose lock is not held at the moment it is tried: \<open>try_lock\<close> does not wait.
\<close>

definition try_claim :: "(nat \<Rightarrow> bool) \<Rightarrow> ('f, 'c) executor \<Rightarrow> bucket_index option \<times> ('f, 'c) executor" where
  "try_claim contended s =
     (case find (\<lambda>i. \<not> contended i \<and> ex_refcounts s ! i = 0) [0..<length (ex_refcounts s)] of
        None \<Rightarrow> (None, s)
      | Some i \<Rightarrow>
          (Some \<lparr>bi_identifier = 0, bi_index = of_nat i\<rparr>,
           s\<lparr>ex_refcounts := (ex_refcounts s)[i := 1]\<rparr>))"

definition set_future ::
    "int \<Rightarrow> bucket_index \<Rightarrow> 'f \<Rightarrow> ('f, 'c) executor \<Rightarrow> unit outcome \<times> ('f, 'c) executor" where
  "set_future fd index fut s =
     (let i = unat (bi_index index) in
      if \<not> i < length (ex_futures s) then (Panic IndexOutOfBounds, s)
      else
        let old_value = ex_futures s ! i;
            s1 = s\<lparr>ex_futures := (ex_futures s)[i := Some fut]\<rparr>
        in if \<not> i < length (ex_tcp_streams s) then (Panic IndexOutOfBounds, s1)
           else
             let s2 = s1\<lparr>ex_tcp_streams := (ex_tcp_streams s1)[i := fd]\<rparr>
             in if old_value = None then (Ok (), s2) else (Panic AssertFailed, s2))"

definition execute ::
    "int \<Rightarrow> bucket_index \<Rightarrow> 'f \<Rightarrow> ('f, 'c) executor \<Rightarrow> unit outcome \<times> ('f, 'c) executor" where
  "execute fd bucket_index fut s =
     (case set_future fd bucket_index fut s of
        (Inl p, s1) \<Rightarrow> (Panic p, s1)
      | (Inr _, s1) \<Rightarrow>
          (case initial_enqueue (from_bucket_index (ex_io s1) bucket_index) (ex_queue s1) of
             Inl p \<Rightarrow> (Panic p, s1)
           | Inr (_, q) \<Rightarrow> (Ok (), s1\<lparr>ex_queue := q\<rparr>)))"

text \<open>
  One turn of the accept loop of \<open>run_request_handler\<close>: the stream, a duplicate of its descriptor and
  the future that will handle it. Without a free bucket the stream is shut down.
\<close>

definition accept_connection ::
    "('f, 'c) application \<Rightarrow> (nat \<Rightarrow> bool) \<Rightarrow> int \<Rightarrow> int \<Rightarrow> 'f \<Rightarrow> ('f, 'c) executor \<Rightarrow>
     unit outcome \<times> ('f, 'c) executor" where
  "accept_connection app contended stream fd fut s =
     (case try_claim contended s of
        (None, s1) \<Rightarrow>
          (case ap_shutdown app stream of
             Inl _ \<Rightarrow> (Panic Unwrap, s1)
           | Inr _ \<Rightarrow> (Ok (), s1))
      | (Some bucket_index, s1) \<Rightarrow> execute fd bucket_index fut s1)"

subsection \<open>Calls of the application\<close>

text \<open>\<open>handshake\<close> up to the registration of its stream.\<close>

definition find_free_slot :: "nat \<Rightarrow> nat \<Rightarrow> 'c slot list \<Rightarrow> nat option" where
  "find_free_slot start stop conns = find (\<lambda>i. case conns ! i of Empty \<Rightarrow> True | _ \<Rightarrow> False) [start..<stop]"

definition handshake_begin ::
    "('f, 'c) application \<Rightarrow> bucket_index \<Rightarrow> int \<Rightarrow> ('f, 'c) executor \<Rightarrow>
     connection_index outcome \<times> ('f, 'c) executor" where
  "handshake_begin app b fd s =
     (let i = unat (bi_index b);
          (start, stop) = http_connections_range (ex_io s) b in
      if \<not> i < length (ex_refcounts s) then (Panic IndexOutOfBounds, s)
      else
        let rc = ex_refcounts s ! i;
            s1 = (if rc = 0 then s else s\<lparr>ex_refcounts := (ex_refcounts s)[i := rc + 1]\<rparr>)
        in if \<not> (start \<le> stop \<and> unat stop \<le> length (ex_connections s1)) then (Panic IndexOutOfBounds, s1)
        else case find_free_slot (unat start) (unat stop) (ex_connections s1) of
            None \<Rightarrow> (Panic Todo, s1)
          | Some k \<Rightarrow>
              let s2 = s1\<lparr>ex_connections := (ex_connections s1)[k := Reserved],
                          ex_identifier := ex_identifier s1 + 1\<rparr>;
                  ci = \<lparr>ci_identifier = ex_identifier s1, ci_index = of_nat k\<rparr>
              in case from_connection_index (ex_io s2) ci of
                  Inl p \<Rightarrow> (Panic p, s2)
                | Inr qi \<Rightarrow>
                    (case register (ap_mio_register app) qi fd (ex_reactor s2) of
                       (Inl p, re) \<Rightarrow> (Panic p, s2\<lparr>ex_reactor := re\<rparr>)
                     | (Inr _, re) \<Rightarrow> (Ok ci, s2\<lparr>ex_reactor := re\<rparr>)))"

text \<open>\<open>handshake\<close> from the stored connection on.\<close>

definition handshake_end ::
    "connection_index \<Rightarrow> 'c \<Rightarrow> ('f, 'c) executor \<Rightarrow> unit outcome \<times> ('f, 'c) executor" where
  "handshake_end ci conn s =
     (let k = unat (ci_index ci) in
      if \<not> k < length (ex_connections s) then (Panic IndexOutOfBounds, s)
      else case ex_connections s ! k of
          Reserved \<Rightarrow>
            (let s1 = s\<lparr>ex_connections := (ex_connections s)[k := Occupied conn]\<rparr> in
             case from_connection_index (ex_io s1) ci of
               Inl p \<Rightarrow> (Panic p, s1)
             | Inr qi \<Rightarrow>
                 (case initial_enqueue qi (ex_queue s1) of
                    Inl p \<Rightarrow> (Panic p, s1)
                  | Inr (_, q) \<Rightarrow> (Ok (), s1\<lparr>ex_queue := q\<rparr>)))
        | _ \<Rightarrow> (Panic AssertFailed, s))"

definition lift_outcome :: "'a outcome \<Rightarrow> unit control" where
  "lift_outcome r = (case r of Inl p \<Rightarrow> Unwind p | Inr _ \<Rightarrow> Return ())"

text \<open>One call, made while the worker's current arena is \<open>arena\<close>.\<close>

definition run_call ::
    "('f, 'c) application \<Rightarrow> u32 \<Rightarrow> 'c app_call \<Rightarrow> ('f, 'c) executor \<Rightarrow> unit control \<times> ('f, 'c) executor" where
  "run_call app arena c s =
     (case c of
        AppAlloc l \<Rightarrow>
          (case alloc (ap_system_alloc app) arena l (ex_alloc s) of
             (Return _, al) \<Rightarrow> (Return (), s\<lparr>ex_alloc := al\<rparr>)
           | (LongJmp v, al) \<Rightarrow> (LongJmp v, s\<lparr>ex_alloc := al\<rparr>)
           | (Unwind p, al) \<Rightarrow> (Unwind p, s\<lparr>ex_alloc := al\<rparr>)
           | (UndefinedBehaviour, al) \<Rightarrow> (UndefinedBehaviour, s\<lparr>ex_alloc := al\<rparr>)
           | (Abort, al) \<Rightarrow> (Abort, s\<lparr>ex_alloc := al\<rparr>))
      | AppHandshakeBegin b fd \<Rightarrow> (case handshake_begin app b fd s of (r, s') \<Rightarrow> (lift_outcome r, s'))
      | AppHandshakeEnd ci conn \<Rightarrow> (case handshake_end ci conn s of (r, s') \<Rightarrow> (lift_outcome r, s'))
      | AppRegister qi fd \<Rightarrow>
          (case register (ap_mio_register app) qi fd (ex_reactor s) of
             (r, re) \<Rightarrow> (lift_outcome r, s\<lparr>ex_reactor := re\<rparr>))
      | AppDropStream ts \<Rightarrow>
          (case drop_stream ts (ex_reactor s) of (r, re) \<Rightarrow> (lift_outcome r, s\<lparr>ex_reactor := re\<rparr>))
      | AppWake ptr \<Rightarrow>
          (case wake_raw ptr (ex_queue s) of
             Inl p \<Rightarrow> (Unwind p, s)
           | Inr q \<Rightarrow> (Return (), s\<lparr>ex_queue := q\<rparr>)))"

subsection \<open>Dropping\<close>

text \<open>
  The streams of a value that is dropped. After a panic the others are dropped too; a second panic ends the
  process.
\<close>

fun drop_streams :: "tcp_stream list \<Rightarrow> shared \<Rightarrow> unit control \<times> shared" where
  "drop_streams [] sh = (Return (), sh)"
| "drop_streams (ts # tss) sh =
     (case drop_stream ts sh of
        (Inr _, sh') \<Rightarrow> drop_streams tss sh'
      | (Inl p, sh') \<Rightarrow>
          (case drop_streams tss sh' of
             (Return _, sh'') \<Rightarrow> (Unwind p, sh'')
           | (_, sh'') \<Rightarrow> (Abort, sh'')))"

definition drop_owned :: "tcp_stream list \<Rightarrow> ('f, 'c) executor \<Rightarrow> unit control \<times> ('f, 'c) executor" where
  "drop_owned tss s = (case drop_streams tss (ex_reactor s) of (r, re) \<Rightarrow> (r, s\<lparr>ex_reactor := re\<rparr>))"

text \<open>A panic that unwinds past the streams \<open>live\<close>.\<close>

definition unwind_past ::
    "tcp_stream list \<Rightarrow> panic \<Rightarrow> ('f, 'c) executor \<Rightarrow> 'a control \<times> ('f, 'c) executor" where
  "unwind_past live p s =
     (case drop_owned live s of
        (Return _, s') \<Rightarrow> (Unwind p, s')
      | (_, s') \<Rightarrow> (Abort, s'))"

subsection \<open>Polling\<close>

fun run_calls ::
    "('f, 'c) application \<Rightarrow> u32 \<Rightarrow> 'c app_step list \<Rightarrow> ('f, 'c) executor \<Rightarrow>
     unit control \<times> ('f, 'c) executor" where
  "run_calls app arena [] s = (Return (), s)"
| "run_calls app arena ((c, live) # cs) s =
     (case run_call app arena c s of
        (Return _, s') \<Rightarrow> run_calls app arena cs s'
      | (Unwind p, s') \<Rightarrow> unwind_past live p s'
      | (r, s') \<Rightarrow> (r, s'))"

text \<open>How many calls returned.\<close>

fun calls_done :: "('f, 'c) application \<Rightarrow> u32 \<Rightarrow> 'c app_step list \<Rightarrow> ('f, 'c) executor \<Rightarrow> nat" where
  "calls_done app arena [] s = 0"
| "calls_done app arena ((c, live) # cs) s =
     (case run_call app arena c s of
        (Return _, s') \<Rightarrow> Suc (calls_done app arena cs s')
      | _ \<Rightarrow> 0)"

text \<open>One poll: its calls, then its end, with the state of the future afterwards.\<close>

definition run_poll ::
    "('f, 'c) application \<Rightarrow> u32 \<Rightarrow> 'c app_step list \<times> 's app_end \<Rightarrow> ('f, 'c) executor \<Rightarrow>
     (unit poll \<times> 's) control \<times> ('f, 'c) executor" where
  "run_poll app arena polled s =
     (case polled of (calls, ending) \<Rightarrow>
        (case run_calls app arena calls s of
           (Return _, s1) \<Rightarrow>
             (case ending of
                AppPending fut \<Rightarrow> (Return (Pending, fut), s1)
              | AppReady fut \<Rightarrow> (Return (Ready (), fut), s1)
              | AppPanic p live \<Rightarrow> unwind_past live p s1)
         | (LongJmp v, s1) \<Rightarrow> (LongJmp v, s1)
         | (Unwind p, s1) \<Rightarrow> (Unwind p, s1)
         | (UndefinedBehaviour, s1) \<Rightarrow> (UndefinedBehaviour, s1)
         | (Abort, s1) \<Rightarrow> (Abort, s1)))"

text \<open>
  A ready future is taken out of its place, and dropped at the end of the function.
\<close>

definition poll_input_stream ::
    "('f, 'c) application \<Rightarrow> u32 \<Rightarrow> nat \<Rightarrow> queue_index \<Rightarrow> ('f, 'c) executor \<Rightarrow>
     unit poll control \<times> ('f, 'c) executor" where
  "poll_input_stream app arena i queue_index s =
     (case ex_futures s ! i of
        None \<Rightarrow> (Unwind (Explicit ''input stream race condition''), s)
      | Some fut \<Rightarrow>
          (let waker = waker_for queue_index; polled = ap_poll app fut waker in
           case run_poll app arena polled s of
             (Return (Pending, fut'), s1) \<Rightarrow>
               (Return Pending, s1\<lparr>ex_futures := (ex_futures s1)[i := Some fut']\<rparr>)
           | (Return (Ready _, old), s1) \<Rightarrow>
               (let s2 = s1\<lparr>ex_futures := (ex_futures s1)[i := None]\<rparr> in
                case to_bucket_index queue_index (ex_io s2) of
                  Inl p \<Rightarrow> unwind_past (ap_streams app old) p s2
                | Inr b \<Rightarrow>
                    (case index_slice (ex_tcp_streams s2) (unat (bi_index b)) of
                       Inl p \<Rightarrow> unwind_past (ap_streams app old) p s2
                     | Inr raw_fd \<Rightarrow>
                         (case drop_owned (ap_streams app old) (s2\<lparr>ex_closed := raw_fd # ex_closed s2\<rparr>) of
                            (Return _, s3) \<Rightarrow> (Return (Ready ()), s3)
                          | (Unwind p, s3) \<Rightarrow> (Unwind p, s3)
                          | (_, s3) \<Rightarrow> (Abort, s3))))
           | (LongJmp v, s1) \<Rightarrow>
               (LongJmp v, s1\<lparr>ex_futures := (ex_futures s1)
                  [i := Some (ap_jumped app fut waker (calls_done app arena (fst polled) s))]\<rparr>)
           | (Unwind p, s1) \<Rightarrow> (Unwind p, s1\<lparr>ex_futures := (ex_futures s1)[i := Some (ap_panicked app fut)]\<rparr>)
           | (UndefinedBehaviour, s1) \<Rightarrow> (UndefinedBehaviour, s1)
           | (Abort, s1) \<Rightarrow> (Abort, s1)))"

text \<open>
  A connection that jumps out of its poll, or panics in it, stays in its slot. Nothing uses it after a panic: the worker of the
  bucket is gone.
\<close>

definition poll_http_connection ::
    "('f, 'c) application \<Rightarrow> u32 \<Rightarrow> nat \<Rightarrow> queue_index \<Rightarrow> ('f, 'c) executor \<Rightarrow>
     hyper_wake poll control \<times> ('f, 'c) executor" where
  "poll_http_connection app arena k queue_index s =
     (case ex_connections s ! k of
        Empty \<Rightarrow> (Return (Ready AfterDeath), s)
      | Reserved \<Rightarrow> (Unwind (Explicit ''race condition reserved''), s)
      | Occupied conn \<Rightarrow>
          (let waker = waker_for queue_index; polled = ap_poll_connection app conn waker in
           case run_poll app arena polled s of
             (Return (Pending, conn'), s1) \<Rightarrow>
               (Return Pending, s1\<lparr>ex_connections := (ex_connections s1)[k := Occupied conn']\<rparr>)
           | (Return (Ready _, connection), s1) \<Rightarrow>
               (case drop_owned (ap_conn_streams app connection)
                   (s1\<lparr>ex_connections := (ex_connections s1)[k := Empty]\<rparr>) of
                  (Return _, s2) \<Rightarrow> (Return (Ready Legit), s2)
                | (Unwind p, s2) \<Rightarrow> (Unwind p, s2)
                | (_, s2) \<Rightarrow> (Abort, s2))
           | (LongJmp v, s1) \<Rightarrow>
               (LongJmp v, s1\<lparr>ex_connections := (ex_connections s1)
                  [k := Occupied (ap_conn_jumped app conn waker (calls_done app arena (fst polled) s))]\<rparr>)
           | (Unwind p, s1) \<Rightarrow> (Unwind p, s1)
           | (UndefinedBehaviour, s1) \<Rightarrow> (UndefinedBehaviour, s1)
           | (Abort, s1) \<Rightarrow> (Abort, s1)))"

subsection \<open>Cleaning up\<close>

definition CRLF :: string where
  "CRLF = [char_of (13::nat), char_of (10::nat)]"

text \<open>The texts \<open>send_error_response\<close> writes, in order; it stops at the first error.\<close>

definition error_response :: "cleanup_reason \<Rightarrow> string list" where
  "error_response reason =
     [''HTTP/1.1 500 Internal Server Error'' @ CRLF,
      ''Content-Type: text/plain'' @ CRLF,
      CRLF,
      (case reason of
         CleanupOutOfMemory \<Rightarrow> ''Internal Server Error: Out of Memory'' @ CRLF
       | CleanupPanic \<Rightarrow> ''Internal Server Error: Panic'' @ CRLF)]"

fun write_texts :: "(string \<Rightarrow> unit io_result) \<Rightarrow> string list \<Rightarrow> string \<times> unit io_result" where
  "write_texts write_all [] = ([], Inr ())"
| "write_texts write_all (t # ts) =
     (case write_all t of
        Inl e \<Rightarrow> ([], Inl e)
      | Inr _ \<Rightarrow> (case write_texts write_all ts of (out, r) \<Rightarrow> (t @ out, r)))"

text \<open>Then the socket is flushed and shut down for writing. What was sent, and the result.\<close>

definition send_error_response ::
    "('f, 'c) application \<Rightarrow> int \<Rightarrow> cleanup_reason \<Rightarrow> string \<times> unit io_result" where
  "send_error_response app fd reason =
     (case write_texts (ap_write_all app fd) (error_response reason) of
        (out, Inl e) \<Rightarrow> (out, Inl e)
      | (out, Inr _) \<Rightarrow>
          (case ap_flush app fd of
             Inl e \<Rightarrow> (out, Inl e)
           | Inr _ \<Rightarrow> (out, ap_shutdown_write app fd)))"

text \<open>Setting connection slots to empty, one after the other; what was in them is dropped.\<close>

definition slot_streams :: "('f, 'c) application \<Rightarrow> 'c slot \<Rightarrow> tcp_stream list" where
  "slot_streams app sl = (case sl of Occupied c \<Rightarrow> ap_conn_streams app c | _ \<Rightarrow> [])"

definition future_streams :: "('f, 'c) application \<Rightarrow> 'f option \<Rightarrow> tcp_stream list" where
  "future_streams app fo = (case fo of None \<Rightarrow> [] | Some f \<Rightarrow> ap_streams app f)"

fun empty_slots ::
    "('f, 'c) application \<Rightarrow> nat list \<Rightarrow> ('f, 'c) executor \<Rightarrow> unit control \<times> ('f, 'c) executor" where
  "empty_slots app [] s = (Return (), s)"
| "empty_slots app (k # ks) s =
     (if \<not> k < length (ex_connections s) then (Unwind IndexOutOfBounds, s)
      else case drop_owned (slot_streams app (ex_connections s ! k))
          (s\<lparr>ex_connections := (ex_connections s)[k := Empty]\<rparr>) of
        (Return _, s') \<Rightarrow> empty_slots app ks s'
      | (r, s') \<Rightarrow> (r, s'))"

definition cleanup_bucket ::
    "('f, 'c) application \<Rightarrow> bucket_index \<Rightarrow> cleanup_reason \<Rightarrow> ('f, 'c) executor \<Rightarrow>
     unit control \<times> ('f, 'c) executor" where
  "cleanup_bucket app b reason s =
     (let i = unat (bi_index b) in
      case index_slice (ex_tcp_streams s) i of
        Inl p \<Rightarrow> (Unwind p, s)
      | Inr raw_fd \<Rightarrow>
          (let s1 = s\<lparr>ex_sent := (raw_fd, fst (send_error_response app raw_fd reason)) # ex_sent s,
                      ex_closed := raw_fd # ex_closed s\<rparr>;
               (start, stop) = http_connections_range (ex_io s1) b
           in case empty_slots app [unat start..<unat stop] s1 of
                (Return _, s2) \<Rightarrow>
                  (if \<not> i < length (ex_futures s2) then (Unwind IndexOutOfBounds, s2)
                   else case drop_owned (future_streams app (ex_futures s2 ! i))
                       (s2\<lparr>ex_futures := (ex_futures s2)[i := None]\<rparr>) of
                     (Return _, s3) \<Rightarrow>
                       (case clear_bucket i (ex_alloc s3) of
                          Inl p \<Rightarrow> (Unwind p, s3)
                        | Inr al \<Rightarrow>
                            if \<not> i < length (ex_refcounts s3) then (Unwind IndexOutOfBounds, s3\<lparr>ex_alloc := al\<rparr>)
                            else (Return (), s3\<lparr>ex_alloc := al, ex_refcounts := (ex_refcounts s3)[i := 0]\<rparr>))
                   | (r, s3) \<Rightarrow> (r, s3))
              | (r, s2) \<Rightarrow> (r, s2)))"

subsection \<open>Running a bucket\<close>

text \<open>
  The result of one turn of the loop of \<open>run_bucket\<close>. A panic outside \<open>catch_unwind\<close> ends the worker thread;
  \<open>DropPanic\<close> is such a panic that comes from dropping a future or a connection, \<open>ThreadPanic\<close> any other one.
\<close>

datatype job_result =
    Continue
  | Finish done_with
  | ThreadPanic panic
  | DropPanic panic
  | ThreadUndefined
  | ProcessAbort

text \<open>The end of a job whose poll was ready.\<close>

definition finish_job :: "bucket_index \<Rightarrow> ('f, 'c) executor \<Rightarrow> job_result \<times> ('f, 'c) executor" where
  "finish_job b s =
     (let i = unat (bi_index b) in
      case index_slice (ex_refcounts s) i of
        Inl p \<Rightarrow> (ThreadPanic p, s)
      | Inr rc \<Rightarrow>
          if rc = 1 then
            (case clear_bucket i (ex_alloc s) of
               Inl p \<Rightarrow> (ThreadPanic p, s)
             | Inr al \<Rightarrow>
                 (Finish Forever, s\<lparr>ex_alloc := al, ex_refcounts := (ex_refcounts s)[i := 0]\<rparr>))
          else (Continue, s\<lparr>ex_refcounts := (ex_refcounts s)[i := rc - 1]\<rparr>))"

definition clean_and_finish ::
    "('f, 'c) application \<Rightarrow> bucket_index \<Rightarrow> cleanup_reason \<Rightarrow> done_with \<Rightarrow> ('f, 'c) executor \<Rightarrow>
     job_result \<times> ('f, 'c) executor" where
  "clean_and_finish app b reason d s =
     (case cleanup_bucket app b reason s of
        (Return _, s') \<Rightarrow> (Finish d, s')
      | (Unwind p, s') \<Rightarrow> (DropPanic p, s')
      | (Abort, s') \<Rightarrow> (ProcessAbort, s')
      | (_, s') \<Rightarrow> (ThreadUndefined, s'))"

text \<open>
  A connection whose slot is empty when its poll panics was finished and being dropped.
\<close>

definition run_job ::
    "('f, 'c) application \<Rightarrow> bucket_index \<Rightarrow> ('f, 'c) executor \<Rightarrow> job_result \<times> ('f, 'c) executor" where
  "run_job app bucket_index s =
     (let i = unat (bi_index bucket_index); q = ex_queue s in
      case dequeue_slot (queue q ! i) of
        (None, _) \<Rightarrow> (Finish ForNow, s)
      | (Some bucket_offset, slot) \<Rightarrow>
          (let s1 = s\<lparr>ex_queue := q\<lparr>queue := (queue q)[i := slot]\<rparr>\<rparr>;
               queue_index = \<lparr>qi_identifier = 0,
                 qi_index = bi_index bucket_index * ucast (per_bucket (ex_io s1)) + of_nat bucket_offset\<rparr>
           in case from_index (ex_io s1) queue_index of
                Inl p \<Rightarrow> (ThreadPanic p, s1)
              | Inr (InputStream b) \<Rightarrow>
                  if \<not> unat (bi_index b) < length (ex_futures s1) then (ThreadPanic IndexOutOfBounds, s1)
                  else
                   (case poll_input_stream app (bi_index bucket_index) (unat (bi_index b)) queue_index s1 of
                     (Unwind _, s2) \<Rightarrow> clean_and_finish app b CleanupPanic Panicked s2
                   | (LongJmp _, s2) \<Rightarrow> clean_and_finish app b CleanupOutOfMemory OutOfMemory s2
                   | (UndefinedBehaviour, s2) \<Rightarrow> (ThreadUndefined, s2)
                   | (Abort, s2) \<Rightarrow> (ProcessAbort, s2)
                   | (Return Pending, s2) \<Rightarrow> (Continue, s2)
                   | (Return (Ready _), s2) \<Rightarrow> finish_job bucket_index s2)
              | Inr (HttpConnection c) \<Rightarrow>
                  if \<not> unat (ci_index c) < length (ex_connections s1) then (ThreadPanic IndexOutOfBounds, s1)
                  else
                   (case poll_http_connection app (bi_index bucket_index) (unat (ci_index c)) queue_index s1 of
                     (Unwind p, s2) \<Rightarrow>
                       (case ex_connections s2 ! unat (ci_index c) of Empty \<Rightarrow> DropPanic p | _ \<Rightarrow> ThreadPanic p, s2)
                   | (LongJmp _, s2) \<Rightarrow> clean_and_finish app bucket_index CleanupOutOfMemory OutOfMemory s2
                   | (UndefinedBehaviour, s2) \<Rightarrow> (ThreadUndefined, s2)
                   | (Abort, s2) \<Rightarrow> (ProcessAbort, s2)
                   | (Return Pending, s2) \<Rightarrow> (Continue, s2)
                   | (Return (Ready AfterDeath), s2) \<Rightarrow> (Continue, s2)
                   | (Return (Ready Legit), s2) \<Rightarrow> finish_job bucket_index s2)))"

text \<open>\<open>run_bucket\<close>: the loop over the jobs of a bucket.\<close>

partial_function (option) run_bucket ::
    "('f, 'c) application \<Rightarrow> bucket_index \<Rightarrow> ('f, 'c) executor \<Rightarrow> (job_result \<times> ('f, 'c) executor) option" where
  "run_bucket app b s =
     (case run_job app b s of
        (Continue, s') \<Rightarrow> run_bucket app b s'
      | (r, s') \<Rightarrow> Some (r, s'))"

text \<open>
  The inner loop of \<open>run_worker\<close> on a claimed bucket: run its jobs until \<open>done_with_bucket\<close> releases it.
\<close>

partial_function (option) work_on_bucket ::
    "('f, 'c) application \<Rightarrow> bucket_index \<Rightarrow> ('f, 'c) executor \<Rightarrow> (unit control \<times> ('f, 'c) executor) option" where
  "work_on_bucket app b s =
     Option.bind (run_bucket app b s) (\<lambda>(r, s1).
       case r of
         ThreadPanic p \<Rightarrow> Some (Unwind p, s1)
       | DropPanic p \<Rightarrow> Some (Unwind p, s1)
       | ThreadUndefined \<Rightarrow> Some (UndefinedBehaviour, s1)
       | ProcessAbort \<Rightarrow> Some (Abort, s1)
       | Continue \<Rightarrow> None
       | Finish d \<Rightarrow>
           if d = Forever \<or> d = ForNow then
             (let i = unat (bi_index b) in
              case done_with_bucket (queue (ex_queue s1) ! i) of
                Inl p \<Rightarrow> Some (Unwind p, s1)
              | Inr (step, slot) \<Rightarrow>
                  (let s2 = s1\<lparr>ex_queue := (ex_queue s1)\<lparr>queue := (queue (ex_queue s1))[i := slot]\<rparr>\<rparr>
                   in if step = Done then Some (Return (), s2) else work_on_bucket app b s2))
           else work_on_bucket app b s1)"

text \<open>One turn of \<open>run_worker\<close>; the current arena is that of the claimed bucket.\<close>

definition run_worker_turn ::
    "('f, 'c) application \<Rightarrow> ('f, 'c) executor \<Rightarrow> (unit control \<times> ('f, 'c) executor) option" where
  "run_worker_turn app s =
     Option.bind (blocking_dequeue (ex_queue s)) (\<lambda>r.
       case r of
         Inl p \<Rightarrow> Some (Unwind p, s)
       | Inr (b, q) \<Rightarrow> work_on_bucket app b (s\<lparr>ex_queue := q\<rparr>))"

end
