(* ===== verification/Handlers.thy ===== *)
theory Handlers
  imports Stdlib Executor
begin

section \<open>Requests and the example applications (nea/src/lib.rs, nea/examples)\<close>

text \<open>
  A request is an \<open>async\<close> function. Its model is an action on the state of the task: the executor
  (with the allocator and the reactor), the sockets and what was printed. An action returns a
  value, leaves by \<open>longjmp\<close>, unwinds with a panic, or does not return at all: \<open>None\<close> stands for an
  endless loop and for the end of the process.

  An awaited operation of a stream is repeated while the socket reports \<open>WouldBlock\<close>
  (\<open>await_io\<close>); theory \<open>Await\<close> shows that polling through the reactor gives the same result.
  What other threads do to other buckets meanwhile does not appear. The \<open>hyper\<close> library, the sockets
  and the operating system are arguments. Logging is left out. \<open>en_overflow_checks\<close> is the build profile: with the
  checks of a debug build, arithmetic that leaves its type panics; in a release build it wraps.
\<close>

subsection \<open>Actions\<close>

record ('f, 'c, 'w) task_state =
  tk_exec :: "('f, 'c) executor"
  tk_world :: 'w
  tk_stderr :: "string list"

record ('f, 'c, 'w) env =
  en_app :: "('f, 'c) application"
  en_arena :: u32
  en_socket :: "'w socket"
  en_overflow_checks :: bool

type_synonym ('s, 'a) action = "'s \<Rightarrow> ('a control \<times> 's) option"

definition ret :: "'a \<Rightarrow> ('s, 'a) action" where
  "ret x s = Some (Return x, s)"

definition panics :: "panic \<Rightarrow> ('s, 'a) action" where
  "panics p s = Some (Unwind p, s)"

text \<open>What follows a finished action: only a returned value is passed on.\<close>

definition and_then ::
    "('a control \<times> 's) option \<Rightarrow> ('a \<Rightarrow> 's \<Rightarrow> ('b control \<times> 's) option) \<Rightarrow> ('b control \<times> 's) option" where
  "and_then r f =
     (case r of
        None \<Rightarrow> None
      | Some (Return x, s) \<Rightarrow> f x s
      | Some (LongJmp v, s) \<Rightarrow> Some (LongJmp v, s)
      | Some (Unwind p, s) \<Rightarrow> Some (Unwind p, s)
      | Some (UndefinedBehaviour, s) \<Rightarrow> Some (UndefinedBehaviour, s)
      | Some (Abort, s) \<Rightarrow> Some (Abort, s))"

definition bind_action :: "('s, 'a) action \<Rightarrow> ('a \<Rightarrow> ('s, 'b) action) \<Rightarrow> ('s, 'b) action" where
  "bind_action m f s = and_then (m s) f"

text \<open>\<open>m?\<close>, \<open>m.unwrap()\<close> on results and on options.\<close>

definition or_return ::
    "('a io_result control \<times> 's) option \<Rightarrow> ('a \<Rightarrow> 's \<Rightarrow> ('b io_result control \<times> 's) option) \<Rightarrow>
     ('b io_result control \<times> 's) option" where
  "or_return r f = and_then r (\<lambda>v s. case v of Inl e \<Rightarrow> Some (Return (Inl e), s) | Inr x \<Rightarrow> f x s)"

definition try_io :: "('s, 'a io_result) action \<Rightarrow> ('a \<Rightarrow> ('s, 'b io_result) action) \<Rightarrow> ('s, 'b io_result) action" where
  "try_io m f s = or_return (m s) f"

definition unwrap_io :: "('s, 'a io_result) action \<Rightarrow> ('a \<Rightarrow> ('s, 'b) action) \<Rightarrow> ('s, 'b) action" where
  "unwrap_io m f = bind_action m (\<lambda>r. case r of Inl e \<Rightarrow> panics Unwrap | Inr x \<Rightarrow> f x)"

definition unwrap_option :: "'a option \<Rightarrow> ('a \<Rightarrow> ('s, 'b) action) \<Rightarrow> ('s, 'b) action" where
  "unwrap_option v f = (case v of None \<Rightarrow> panics Unwrap | Some x \<Rightarrow> f x)"

definition lift_panic :: "'a outcome \<Rightarrow> ('s, 'a) action" where
  "lift_panic r = (case r of Inl p \<Rightarrow> panics p | Inr x \<Rightarrow> ret x)"

lemma and_then_simps [simp]:
  "and_then None f = None"
  "and_then (Some (Return x, s)) f = f x s"
  "and_then (Some (LongJmp v, s)) f = Some (LongJmp v, s)"
  "and_then (Some (Unwind p, s)) f = Some (Unwind p, s)"
  "and_then (Some (UndefinedBehaviour, s)) f = Some (UndefinedBehaviour, s)"
  "and_then (Some (Abort, s)) f = Some (Abort, s)"
  by (simp_all add: and_then_def)

lemma or_return_simps [simp]:
  "or_return None f = None"
  "or_return (Some (Return (Inr x), s)) f = f x s"
  "or_return (Some (Return (Inl e), s)) f = Some (Return (Inl e), s)"
  "or_return (Some (LongJmp v, s)) f = Some (LongJmp v, s)"
  "or_return (Some (Unwind p, s)) f = Some (Unwind p, s)"
  by (simp_all add: or_return_def)

lemma action_simps [simp]:
  "bind_action (ret x) f = f x"
  "bind_action (panics p) f = panics p"
  "try_io (ret (Inl e)) g = ret (Inl e)"
  "try_io (ret (Inr y)) g = g y"
  "unwrap_io (ret (Inl e)) h = panics Unwrap"
  "unwrap_io (ret (Inr y)) h = h y"
  "unwrap_option None k = panics Unwrap"
  "unwrap_option (Some y) k = k y"
  "lift_panic (Ok z) = ret z"
  "lift_panic (Panic p) = panics p"
  by (simp_all add: fun_eq_iff ret_def panics_def bind_action_def try_io_def unwrap_io_def unwrap_option_def
      lift_panic_def)

text \<open>Both combinators may stand around the recursive calls of a \<open>partial_function\<close>.\<close>

lemma and_then_mono [partial_function_mono]:
  fixes B :: "('p \<Rightarrow> 'q option) \<Rightarrow> ('a control \<times> 's) option"
  assumes B: "mono_option B" and C: "\<And>x s. mono_option (\<lambda>g. C x s g)"
  shows "mono_option (\<lambda>g. and_then (B g) (\<lambda>x s. C x s g))"
proof (rule monotoneI)
  fix g h :: "'p \<Rightarrow> 'q option"
  assume gh: "fun_ord option_ord g h"
  from B have Bgh: "option_ord (B g) (B h)" by (rule monotoneD [of _ _ _ g h]) (rule gh)
  from C have Cgh: "\<And>x s. option_ord (C x s g) (C x s h)" by (rule monotoneD [of _ _ _ g h]) (rule gh)
  show "option_ord (and_then (B g) (\<lambda>x s. C x s g)) (and_then (B h) (\<lambda>x s. C x s h))"
  proof (cases "B g")
    case None
    then show ?thesis by (simp add: flat_ord_def)
  next
    case (Some r)
    then have "B h = Some r" using Bgh by (auto simp: flat_ord_def)
    then show ?thesis using Some Cgh by (cases r; cases "fst r") (auto simp: flat_ord_def)
  qed
qed

lemma or_return_mono [partial_function_mono]:
  assumes B: "mono_option B" and C: "\<And>x s. mono_option (\<lambda>g. C x s g)"
  shows "mono_option (\<lambda>g. or_return (B g) (\<lambda>x s. C x s g))"
  unfolding or_return_def
proof (rule and_then_mono [OF B])
  show "mono_option (\<lambda>g. case x of Inl e \<Rightarrow> Some (Return (Inl e), s) | Inr y \<Rightarrow> C y s g)" for x s
    using C by (cases x) (auto intro: monotoneI simp: flat_ord_def)
qed

subsection \<open>Streams\<close>

text \<open>The operation is repeated until it does not report \<open>WouldBlock\<close>.\<close>

partial_function (option) await_io :: "('w \<Rightarrow> 'a io_result \<times> 'w) \<Rightarrow> 'w \<Rightarrow> ('a io_result \<times> 'w) option" where
  "await_io f w = (case f w of (v, w') \<Rightarrow> if v = Inl WouldBlock then await_io f w' else Some (v, w'))"

definition on_world :: "('w \<Rightarrow> ('a \<times> 'w) option) \<Rightarrow> (('f, 'c, 'w) task_state, 'a) action" where
  "on_world m st = (case m (tk_world st) of None \<Rightarrow> None | Some (v, w) \<Rightarrow> Some (Return v, st\<lparr>tk_world := w\<rparr>))"

definition await_read :: "('f, 'c, 'w) env \<Rightarrow> nat \<Rightarrow> (('f, 'c, 'w) task_state, u8 list io_result) action" where
  "await_read en n = on_world (await_io (sk_read (en_socket en) n))"

definition await_write :: "('f, 'c, 'w) env \<Rightarrow> u8 list \<Rightarrow> (('f, 'c, 'w) task_state, nat io_result) action" where
  "await_write en buf = on_world (await_io (sk_write (en_socket en) buf))"

definition await_flush :: "('f, 'c, 'w) env \<Rightarrow> (('f, 'c, 'w) task_state, unit io_result) action" where
  "await_flush en = on_world (await_io (sk_flush (en_socket en)))"

text \<open>\<open>&buf[..n]\<close> after a read of \<open>n\<close> bytes into an array of 1024.\<close>

definition read_slice :: "u8 list \<Rightarrow> u8 list outcome" where
  "read_slice bytes = (if length bytes \<le> 1024 then Ok bytes else Panic IndexOutOfBounds)"

definition eprintln :: "string \<Rightarrow> (('f, 'c, 'w) task_state, unit) action" where
  "eprintln line st = Some (Return (), st\<lparr>tk_stderr := line # tk_stderr st\<rparr>)"

subsection \<open>Allocation and vectors\<close>

text \<open>
  A call of the program from the request, as in the executor. Memory comes from the arena of the
  thread; a null pointer makes the library abort the process.
\<close>

definition call :: "('f, 'c, 'w) env \<Rightarrow> 'c app_call \<Rightarrow> (('f, 'c, 'w) task_state, unit) action" where
  "call en c st = (case run_call (en_app en) (en_arena en) c (tk_exec st) of (r, s) \<Rightarrow> Some (r, st\<lparr>tk_exec := s\<rparr>))"

definition allocate :: "('f, 'c, 'w) env \<Rightarrow> layout \<Rightarrow> (('f, 'c, 'w) task_state, unit) action" where
  "allocate en l st =
     (if fst (alloc (ap_system_alloc (en_app en)) (en_arena en) l (ex_alloc (tk_exec st))) = Return 0 then None
      else call en (AppAlloc l) st)"

record vec =
  vec_bytes :: "u8 list"
  vec_cap :: nat

text \<open>\<open>RawVec\<close>: an allocation of \<open>n\<close> bytes, none when \<open>n\<close> is 0.\<close>

definition raw_allocate :: "('f, 'c, 'w) env \<Rightarrow> nat \<Rightarrow> (('f, 'c, 'w) task_state, unit) action" where
  "raw_allocate en n =
     (if n = 0 then ret ()
      else if n < 2 ^ 63 then allocate en \<lparr>lay_size = of_nat n, lay_align = 1\<rparr>
      else panics (Explicit ''capacity overflow''))"

definition vec_with_capacity :: "('f, 'c, 'w) env \<Rightarrow> nat \<Rightarrow> (('f, 'c, 'w) task_state, vec) action" where
  "vec_with_capacity en n = bind_action (raw_allocate en n) (\<lambda>_. ret \<lparr>vec_bytes = [], vec_cap = n\<rparr>)"

definition vec_new :: vec where
  "vec_new = \<lparr>vec_bytes = [], vec_cap = 0\<rparr>"

text \<open>
  \<open>Vec::write_all\<close>: when the capacity does not suffice, it is doubled, or set to what is needed if that
  is more, and to at least 8; the new block is allocated, the old one is not given back.
\<close>

definition grown_cap :: "vec \<Rightarrow> nat \<Rightarrow> nat" where
  "grown_cap v additional = max 8 (max (2 * vec_cap v) (length (vec_bytes v) + additional))"

definition vec_write_all :: "('f, 'c, 'w) env \<Rightarrow> u8 list \<Rightarrow> vec \<Rightarrow> (('f, 'c, 'w) task_state, vec) action" where
  "vec_write_all en bs v =
     (if length (vec_bytes v) + length bs \<le> vec_cap v then ret (v\<lparr>vec_bytes := vec_bytes v @ bs\<rparr>)
      else bind_action (raw_allocate en (grown_cap v (length bs))) (\<lambda>_.
        ret \<lparr>vec_bytes = vec_bytes v @ bs, vec_cap = grown_cap v (length bs)\<rparr>))"

fun vec_write_pieces :: "('f, 'c, 'w) env \<Rightarrow> u8 list list \<Rightarrow> vec \<Rightarrow> (('f, 'c, 'w) task_state, vec) action" where
  "vec_write_pieces en [] v = ret v"
| "vec_write_pieces en (p # ps) v = bind_action (vec_write_all en p v) (vec_write_pieces en ps)"

subsection \<open>The request future (nea/src/lib.rs)\<close>

text \<open>
  The stream is dropped when the handler ends, by returning or by unwinding; a panic of the drop during
  unwinding aborts the process. A \<open>longjmp\<close> leaves the handler without a drop; what the suspended handler still owns is
  dropped later, with the future, by \<open>cleanup_bucket\<close>.
\<close>

definition drop_after ::
    "('f, 'c, 'w) env \<Rightarrow> tcp_stream \<Rightarrow> (('f, 'c, 'w) task_state, 'a) action \<Rightarrow> (('f, 'c, 'w) task_state, 'a) action" where
  "drop_after en ts m st =
     (case m st of
        None \<Rightarrow> None
      | Some (Return x, s) \<Rightarrow> and_then (call en (AppDropStream ts) s) (\<lambda>_ s'. Some (Return x, s'))
      | Some (Unwind p, s) \<Rightarrow>
          (case call en (AppDropStream ts) s of
             None \<Rightarrow> None
           | Some (Return _, s') \<Rightarrow> Some (Unwind p, s')
           | Some (_, s') \<Rightarrow> Some (Abort, s'))
      | Some (LongJmp v, s) \<Rightarrow> Some (LongJmp v, s)
      | Some (UndefinedBehaviour, s) \<Rightarrow> Some (UndefinedBehaviour, s)
      | Some (Abort, s) \<Rightarrow> Some (Abort, s))"

text \<open>
  The future that \<open>run_request_handler\<close> hands to the executor, for the application \<open>func\<close>. \<open>debug\<close> is the
  text of an error.
\<close>

definition request_future ::
    "('f, 'c, 'w) env \<Rightarrow> (io_error \<Rightarrow> string) \<Rightarrow> io_resources \<Rightarrow>
     (bucket_index \<Rightarrow> tcp_stream \<Rightarrow> (('f, 'c, 'w) task_state, unit io_result) action) \<Rightarrow>
     bucket_index \<Rightarrow> int \<Rightarrow> (('f, 'c, 'w) task_state, unit) action" where
  "request_future en debug io func bucket_index stream =
     (let queue_index = from_bucket_index io bucket_index;
          tcp_stream = \<lparr>ts_fd = stream, ts_token = to_usize queue_index\<rparr>
      in bind_action (call en (AppRegister queue_index stream)) (\<lambda>_.
           bind_action (drop_after en tcp_stream (func bucket_index tcp_stream)) (\<lambda>r.
             case r of
               Inr _ \<Rightarrow> ret ()
             | Inl e \<Rightarrow> if e = NotConnected then ret () else panics (Explicit (debug e)))))"

subsection \<open>Response texts\<close>

definition crlf :: "u8 list" where
  "crlf = [13, 10]"

definition response_head :: "u8 list list" where
  "response_head = [bytes_of ''HTTP/1.1 200 OK'' @ crlf, bytes_of ''Content-Type: text/html'' @ crlf, crlf]"

text \<open>
  The response of \<open>hyper.rs\<close> and \<open>state-machine-html.rs\<close>: written through a cursor over an array of 1024
  bytes; errors of the writes are ignored.
\<close>

definition cursor_response :: "u8 list \<Rightarrow> u8 list" where
  "cursor_response input =
     (let c0 = new_cursor (replicate 1024 0);
          c1 = snd (cursor_write_all (response_head ! 0) c0);
          c2 = snd (cursor_write_all (response_head ! 1) c1);
          c3 = snd (cursor_write_all (response_head ! 2) c2);
          c4 = snd (cursor_write_fmt [bytes_of ''<html>'', input, bytes_of ''</html>''] c3);
          n = cu_pos c4
      in take n (cu_buffer c4))"

subsection \<open>Arithmetic\<close>

definition usize_mul :: "bool \<Rightarrow> usize \<Rightarrow> usize \<Rightarrow> usize outcome" where
  "usize_mul checks a b = (if checks \<and> 2 ^ 64 \<le> unat a * unat b then Panic Overflow else Ok (a * b))"

definition usize_sub :: "bool \<Rightarrow> usize \<Rightarrow> usize \<Rightarrow> usize outcome" where
  "usize_sub checks a b = (if checks \<and> a < b then Panic Overflow else Ok (a - b))"

subsection \<open>oom.rs\<close>

definition nth_option :: "'a list \<Rightarrow> nat \<Rightarrow> 'a option" where
  "nth_option xs i = (if i < length xs then Some (xs ! i) else None)"

text \<open>The number of kilobytes in the path of the request line.\<close>

definition requested_kbs :: "u8 list \<Rightarrow> usize outcome" where
  "requested_kbs buf =
     (case from_utf8 buf of
        None \<Rightarrow> Panic Unwrap
      | Some string \<Rightarrow>
          (case nth_option (split_whitespace string) 1 of
             None \<Rightarrow> Panic Unwrap
           | Some w \<Rightarrow>
               bind_outcome (str_from w 1) (\<lambda>num_str.
                 case parse_usize num_str of None \<Rightarrow> Panic Unwrap | Some num \<Rightarrow> Ok num)))"

definition oom_pieces :: "usize \<Rightarrow> u8 list list" where
  "oom_pieces kbs =
     response_head @ [bytes_of ''successfully allocated '', bytes_of (show_nat (unat kbs)),
       bytes_of ''kb of memory'' @ crlf]"

definition oom_handler ::
    "('f, 'c, 'w) env \<Rightarrow> bucket_index \<Rightarrow> tcp_stream \<Rightarrow> (('f, 'c, 'w) task_state, unit io_result) action" where
  "oom_handler en bucket_index tcp_stream =
     unwrap_io (await_read en 1024) (\<lambda>bytes.
     bind_action (lift_panic (read_slice bytes)) (\<lambda>buf.
     bind_action (lift_panic (requested_kbs buf)) (\<lambda>kbs.
     bind_action (lift_panic (usize_mul (en_overflow_checks en) kbs 1000)) (\<lambda>capacity.
     bind_action (vec_with_capacity en (unat capacity)) (\<lambda>_.
     bind_action (vec_write_pieces en (oom_pieces kbs) vec_new) (\<lambda>response.
     unwrap_io (await_write en (vec_bytes response)) (\<lambda>_.
     ret (Inr ()))))))))"

subsection \<open>send-static-file.rs\<close>

text \<open>\<open>include_str!\<close> of the workspace's \<open>Cargo.toml\<close>.\<close>

definition cargo_toml :: "string list" where
  "cargo_toml = [''[workspace]'', ''members = ['', ''    \"log\",'', ''    \"shared\",'', ''    \"nea\",'',
     ''    \"runner\",'', '']'', ''exclude = ['', ''    \"benchmarks\",'', '']'', ''resolver = \"2\"'']"

definition main_for_host :: "u8 list \<Rightarrow> u8 list" where
  "main_for_host body = concat (map (\<lambda>line. bytes_of line @ [10]) cargo_toml)"

definition send_static_file_handler ::
    "('f, 'c, 'w) env \<Rightarrow> bucket_index \<Rightarrow> tcp_stream \<Rightarrow> (('f, 'c, 'w) task_state, unit io_result) action" where
  "send_static_file_handler en bucket_index tcp_stream =
     unwrap_io (await_read en 1024) (\<lambda>bytes.
     bind_action (lift_panic (read_slice bytes)) (\<lambda>buf.
     unwrap_option (from_utf8 buf) (\<lambda>string.
     case split_once (crlf @ crlf) string of
       None \<Rightarrow> bind_action (eprintln ''invalid input'') (\<lambda>_. ret (Inr ()))
     | Some (headers, body) \<Rightarrow>
         bind_action (vec_with_capacity en 512) (\<lambda>v.
         let roc_response = main_for_host body in
         bind_action (vec_write_pieces en (response_head @ [roc_response, crlf]) v) (\<lambda>response.
         unwrap_io (await_write en (vec_bytes response)) (\<lambda>_.
         ret (Inr ())))))))"

subsection \<open>state-machine-html.rs\<close>

datatype cmd = CmdRead | CmdWrite "u8 list" | CmdDone

datatype msg = MsgNothing | MsgRead "u8 list"

datatype model = Initial | Writing

definition roc_handler ::
    "('f, 'c, 'w) env \<Rightarrow> model \<Rightarrow> msg \<Rightarrow> (('f, 'c, 'w) task_state, model \<times> cmd) action" where
  "roc_handler en model msg =
     (case model of
        Initial \<Rightarrow>
          (case msg of
             MsgNothing \<Rightarrow> ret (Initial, CmdRead)
           | MsgRead buf \<Rightarrow>
               (let response = cursor_response (bytes_of ''foobar'') in
                bind_action (raw_allocate en (length response)) (\<lambda>_.
                ret (Writing, CmdWrite response))))
      | Writing \<Rightarrow> ret (Writing, CmdDone))"

text \<open>The loop of \<open>Cmd::Write\<close>: every pass writes the whole buffer again.\<close>

partial_function (option) write_loop ::
    "('f, 'c, 'w) env \<Rightarrow> u8 list \<Rightarrow> usize \<Rightarrow> ('f, 'c, 'w) task_state \<Rightarrow>
     (unit io_result control \<times> ('f, 'c, 'w) task_state) option" where
  "write_loop en buf remaining st =
     (if remaining > 0 then
        or_return (await_write en buf st) (\<lambda>n s.
          case usize_sub (en_overflow_checks en) remaining (of_nat n) of
            Inl p \<Rightarrow> Some (Unwind p, s)
          | Inr remaining' \<Rightarrow> write_loop en buf remaining' s)
      else Some (Return (Inr ()), st))"

partial_function (option) handler_loop ::
    "('f, 'c, 'w) env \<Rightarrow> model \<Rightarrow> msg \<Rightarrow> ('f, 'c, 'w) task_state \<Rightarrow>
     (unit io_result control \<times> ('f, 'c, 'w) task_state) option" where
  "handler_loop en model msg st =
     and_then (roc_handler en model msg st) (\<lambda>(new_model, cmd) s.
       case cmd of
         CmdRead \<Rightarrow>
           and_then (raw_allocate en 1024 s) (\<lambda>_ s1.
           or_return (await_read en 1024 s1) (\<lambda>bytes s2.
           handler_loop en new_model (MsgRead bytes) s2))
       | CmdWrite buf \<Rightarrow>
           or_return (write_loop en buf (of_nat (length buf)) s) (\<lambda>_ s1.
           handler_loop en new_model MsgNothing s1)
       | CmdDone \<Rightarrow> Some (Return (Inr ()), s))"

definition state_machine_handler ::
    "('f, 'c, 'w) env \<Rightarrow> bucket_index \<Rightarrow> tcp_stream \<Rightarrow> (('f, 'c, 'w) task_state, unit io_result) action" where
  "state_machine_handler en bucket_index tcp_stream = handler_loop en Initial MsgNothing"

subsection \<open>hyper.rs\<close>

text \<open>
  What the application uses of \<open>hyper\<close> and of the network: parsing an address into host and port, the
  connection to a server, the HTTP handshake (a sender and a connection), building and sending a
  request, and the next frame of a response with what is left of it. \<open>None\<close> is an error.
\<close>

record ('s, 'c, 'snd, 'req, 'res) hyper_api =
  hy_parse_uri :: "string \<Rightarrow> (string option \<times> 16 word option) option"
  hy_connect :: "string \<Rightarrow> 16 word \<Rightarrow> int io_result"
  hy_set_nonblocking :: "int \<Rightarrow> unit io_result"
  hy_handshake :: "int \<Rightarrow> ('s, ('snd \<times> 'c) option) action"
  hy_build_request :: "(string \<times> string) list \<Rightarrow> string \<Rightarrow> 'req option"
  hy_send_request :: "'snd \<Rightarrow> 'req \<Rightarrow> ('s, 'res option) action"
  hy_frame :: "'res \<Rightarrow> ('s, (unit option \<times> 'res) option) action"

text \<open>\<open>nea::http1::handshake\<close> and \<open>Executor::handshake\<close>.\<close>

definition handshake_start ::
    "('f, 'c, 'w) env \<Rightarrow> bucket_index \<Rightarrow> int \<Rightarrow> (('f, 'c, 'w) task_state, connection_index) action" where
  "handshake_start en b fd st =
     (case handshake_begin (en_app en) b fd (tk_exec st) of
        (Inl p, s) \<Rightarrow> Some (Unwind p, st\<lparr>tk_exec := s\<rparr>)
      | (Inr ci, s) \<Rightarrow> Some (Return ci, st\<lparr>tk_exec := s\<rparr>))"

definition handshake ::
    "('f, 'c, 'w) env \<Rightarrow> (('f, 'c, 'w) task_state, 'c, 'snd, 'req, 'res) hyper_api \<Rightarrow>
     bucket_index \<Rightarrow> string \<Rightarrow> 16 word \<Rightarrow> (('f, 'c, 'w) task_state, 'snd io_result) action" where
  "handshake en hy bucket_index host port =
     unwrap_io (ret (hy_connect hy host port)) (\<lambda>stream.
     try_io (ret (hy_set_nonblocking hy stream)) (\<lambda>_.
     bind_action (handshake_start en bucket_index stream) (\<lambda>connection_index.
     bind_action (hy_handshake hy stream) (\<lambda>r.
     unwrap_option r (\<lambda>(sender, conn).
     bind_action (call en (AppHandshakeEnd connection_index conn)) (\<lambda>_.
     ret (Inr sender)))))))"

partial_function (option) drain_frames ::
    "('s, 'c, 'snd, 'req, 'res) hyper_api \<Rightarrow> 'res \<Rightarrow> 's \<Rightarrow> (unit control \<times> 's) option" where
  "drain_frames hy res s =
     and_then (hy_frame hy res s) (\<lambda>next s1.
       case next of
         None \<Rightarrow> Some (Return (), s1)
       | Some (frame, res') \<Rightarrow>
           (case frame of None \<Rightarrow> Some (Unwind Unwrap, s1) | Some _ \<Rightarrow> drain_frames hy res' s1))"

definition hyper_app ::
    "('f, 'c, 'w) env \<Rightarrow> (('f, 'c, 'w) task_state, 'c, 'snd, 'req, 'res) hyper_api \<Rightarrow>
     bucket_index \<Rightarrow> tcp_stream \<Rightarrow> (('f, 'c, 'w) task_state, unit io_result) action" where
  "hyper_app en hy bucket_index tcp_stream =
     try_io (await_read en 1024) (\<lambda>bytes.
     bind_action (lift_panic (read_slice bytes)) (\<lambda>buf.
     unwrap_option (from_utf8 buf) (\<lambda>input.
     unwrap_option (hy_parse_uri hy ''http://0.0.0.0:8000/Cargo.toml'') (\<lambda>(url_host, url_port).
     bind_action (case url_host of None \<Rightarrow> panics (Explicit ''uri has no host'') | Some h \<Rightarrow> ret h) (\<lambda>host.
     let port = (case url_port of None \<Rightarrow> 80 | Some p \<Rightarrow> p) in
     unwrap_io (handshake en hy bucket_index host port) (\<lambda>sender.
     unwrap_option (hy_build_request hy [(''Host'', ''example.com'')] ''GET'') (\<lambda>req.
     bind_action (hy_send_request hy sender req) (\<lambda>sent.
     unwrap_option sent (\<lambda>res.
     bind_action (drain_frames hy res) (\<lambda>_.
     try_io (await_write en (cursor_response input)) (\<lambda>_.
     try_io (await_flush en) (\<lambda>_.
     ret (Inr ())))))))))))))"

end
