(* ===== verification/Await.thy ===== *)
theory Await
  imports Handlers
begin

section \<open>Awaiting an operation of a stream\<close>

text \<open>
  The request handlers await the operations of their stream. Here this is derived from the reactor:
  the future polls the stream, and while it is pending, events of the stream arrive and the future is
  polled again.
\<close>

text \<open>
  Poll, and let the reactor handle an event of the stream before every further poll. The number bounds
  the polls.
\<close>

fun drive_io ::
    "nat \<Rightarrow> ('w \<Rightarrow> 'a io_result \<times> 'w) \<Rightarrow> usize \<Rightarrow> direction \<Rightarrow> usize \<Rightarrow> shared \<times> 'w \<Rightarrow>
     ('a io_result \<times> shared \<times> 'w) outcome option" where
  "drive_io 0 f token d waker st = None"
| "drive_io (Suc n) f token d waker st =
     (case poll_io f token d waker st of
        None \<Rightarrow> None
      | Some (Inl p) \<Rightarrow> Some (Panic p)
      | Some (Inr (Ready v, st')) \<Rightarrow> Some (Ok (v, st'))
      | Some (Inr (Pending, sh, w)) \<Rightarrow>
          (case handle_event (direction_event token d) (sh, []) of
             Inl p \<Rightarrow> Some (Panic p)
           | Inr (sh', _) \<Rightarrow> drive_io n f token d waker (sh', w)))"

definition live_stream :: "usize \<Rightarrow> shared \<Rightarrow> bool" where
  "live_stream token sh \<longleftrightarrow>
     shared_ok sh \<and> token_index token < length (sh_sources sh) \<and> sh_sources sh ! token_index token \<noteq> None"

definition ready_now :: "usize \<Rightarrow> direction \<Rightarrow> shared \<Rightarrow> bool" where
  "ready_now token d sh \<longleftrightarrow>
     (case sh_sources sh ! token_index token of None \<Rightarrow> False | Some src \<Rightarrow> so_triggered src ! dir_index d)"

text \<open>An event of the direction makes a registered stream ready.\<close>

lemma event_makes_ready:
  assumes "live_stream token sh"
  obtains sh' ws where "handle_event (direction_event token d) (sh, []) = Ok (sh', ws)"
    and "live_stream token sh'" and "ready_now token d sh'"
proof -
  let ?ev = "direction_event token d" and ?i = "token_index token"
  have ok: "shared_ok sh" "?i < length (sh_sources sh)" and tok: "ev_token ?ev = token"
    using assms by (simp_all add: live_stream_def direction_event_def)
  obtain src where src: "sh_sources sh ! ?i = Some src" using assms by (auto simp: live_stream_def)
  obtain sh' fired where e: "handle_event ?ev (sh, []) = Ok (sh', [] @ fired)" "shared_ok sh'"
    "length (sh_sources sh') = length (sh_sources sh)"
    "\<forall>j < length (sh_sources sh). rel_option (source_after (\<lambda>e. j = token_index (ev_token ?ev) \<and> fires ?ev e))
      (sh_sources sh ! j) (sh_sources sh' ! j)"
    by (rule handle_event_spec [of sh ?ev "[]"]) (use ok tok in auto)
  then have "rel_option (source_after (\<lambda>e. e = d)) (Some src) (sh_sources sh' ! ?i)"
    using ok src tok by (auto simp: fires_direction_event)
  then obtain src' where "sh_sources sh' ! ?i = Some src'" "source_after (\<lambda>e. e = d) src src'"
    by (auto simp: option_rel_Some1)
  then show thesis
    using that [OF e(1)] e(2,3) ok(2) by (auto simp: live_stream_def ready_now_def source_after_def)
qed

text \<open>One poll of a registered stream.\<close>

lemma poll_live_stream:
  assumes "live_stream token sh"
  shows "if ready_now token d sh then
      (case f w of (v, w') \<Rightarrow>
         if v = Inl WouldBlock then
           \<exists>sh'. poll_io f token d waker (sh, w) = Some (Ok (Pending, sh', w')) \<and> live_stream token sh'
         else poll_io f token d waker (sh, w) = Some (Ok (Ready v, sh, w')))
    else \<exists>sh'. poll_io f token d waker (sh, w) = Some (Ok (Pending, sh', w)) \<and> live_stream token sh'"
proof -
  let ?i = "token_index token"
  have ok: "shared_ok sh" "?i < length (sh_sources sh)" using assms by (simp_all add: live_stream_def)
  obtain src where src: "sh_sources sh ! ?i = Some src" using assms by (auto simp: live_stream_def)
  note sok = shared_ok_nth [OF ok src]
  have live: "live_stream token (sh\<lparr>sh_sources := (sh_sources sh)[?i := Some s]\<rparr>)" if "source_ok s" for s
    using ok shared_ok_update [OF ok(1) that, of ?i] by (simp add: live_stream_def)
  show ?thesis
    using src live [of "with_waker d waker src"] live [of "with_waker d waker (clear_trigger src d)"] sok
    by (auto simp: poll_io_eq [OF ok] poll_io_result_def ready_now_def split: prod.split)
qed

lemma drive_ready_ends:
  assumes "live_stream token sh" and "ready_now token d sh" and "f w = (v, w')" and "v \<noteq> Inl WouldBlock"
  shows "drive_io (Suc n) f token d waker (sh, w) = Some (Ok (v, sh, w'))"
  using poll_live_stream [OF assms(1), where d = d and f = f and w = w and waker = waker] assms by simp

lemma drive_pending:
  assumes "live_stream token sh"
    and "ready_now token d sh \<and> f w = (Inl WouldBlock, w') \<or> \<not> ready_now token d sh \<and> w' = w"
  obtains sh' where "live_stream token sh'" and "ready_now token d sh'"
    and "\<And>n. drive_io (Suc n) f token d waker (sh, w) = drive_io n f token d waker (sh', w')"
proof -
  obtain sh1 where sh1: "poll_io f token d waker (sh, w) = Some (Ok (Pending, sh1, w'))" "live_stream token sh1"
    using poll_live_stream [OF assms(1), where d = d and f = f and w = w and waker = waker] assms(2) by (auto split: if_splits)
  obtain sh2 ws where "handle_event (direction_event token d) (sh1, []) = Ok (sh2, ws)"
    "live_stream token sh2" "ready_now token d sh2"
    by (rule event_makes_ready [OF sh1(2)])
  then show thesis using that sh1(1) by simp
qed

text \<open>What \<open>await_io\<close> returns, a bounded number of polls returns too, and the other way round.\<close>

lemma await_drive_ready:
  fixes f :: "'w \<Rightarrow> 'a io_result \<times> 'w"
  assumes "await_io f w = Some (v, w')" and "live_stream token sh" and "ready_now token d sh"
  shows "\<exists>n sh'. drive_io n f token d waker (sh, w) = Some (Ok (v, sh', w'))"
proof -
  let ?P = "\<lambda>f w r. \<forall>sh. live_stream token sh \<and> ready_now token d sh \<longrightarrow>
      (\<exists>n sh'. drive_io n f token d waker (sh, w) = Some (Ok (fst r, sh', snd r)))"
  have "?P f w (v, w')"
  proof (rule await_io.raw_induct [of ?P, OF _ assms(1)])
    fix await :: "('w \<Rightarrow> 'a io_result \<times> 'w) \<Rightarrow> 'w \<Rightarrow> ('a io_result \<times> 'w) option" and f w r
    assume IH: "\<And>f w r. await f w = Some r \<Longrightarrow> ?P f w r"
      and step: "(case f w of (v, w') \<Rightarrow> if v = Inl WouldBlock then await f w' else Some (v, w')) = Some r"
    obtain u w1 where u: "f w = (u, w1)" by (cases "f w")
    have "\<exists>n sh'. drive_io n f token d waker (sh, w) = Some (Ok (fst r, sh', snd r))"
      if sh: "live_stream token sh \<and> ready_now token d sh" for sh
    proof (cases "u = Inl WouldBlock")
      case True
      with step u have rest: "await f w1 = Some r" by simp
      obtain sh' where sh': "live_stream token sh'" "ready_now token d sh'"
        "\<And>n. drive_io (Suc n) f token d waker (sh, w) = drive_io n f token d waker (sh', w1)"
        by (rule drive_pending [of token sh d f w w1 waker]) (use sh u True in auto)
      from IH [OF rest] sh' show ?thesis by metis
    next
      case False
      then have "r = (u, w1)" using step u by simp
      moreover have "drive_io (Suc 0) f token d waker (sh, w) = Some (Ok (u, sh, w1))"
        by (rule drive_ready_ends) (use u False sh in auto)
      ultimately show ?thesis by (metis fst_conv snd_conv)
    qed
    then show "?P f w r" by blast
  qed
  then show ?thesis using assms(2,3) by simp
qed

lemma drive_await:
  assumes "drive_io n f token d waker (sh, w) = Some (Ok (v, sh', w'))" and "live_stream token sh"
  shows "await_io f w = Some (v, w') \<and> live_stream token sh'"
  using assms
proof (induction n arbitrary: sh w)
  case (Suc n)
  obtain u w1 where u: "f w = (u, w1)" by (cases "f w")
  show ?case
  proof (cases "ready_now token d sh \<and> u \<noteq> Inl WouldBlock")
    case True
    then show ?thesis
      using drive_ready_ends [of token sh d f w u w1 n waker] Suc.prems u by (subst await_io.simps) auto
  next
    case False
    define w2 where "w2 = (if ready_now token d sh then w1 else w)"
    obtain sh1 where sh1: "live_stream token sh1"
      "\<And>k. drive_io (Suc k) f token d waker (sh, w) = drive_io k f token d waker (sh1, w2)"
      by (rule drive_pending [OF Suc.prems(2), where w = w and w' = w2 and f = f and d = d and waker = waker])
        (use False u in \<open>auto simp: w2_def\<close>)
    have "await_io f w = await_io f w2"
    proof (cases "ready_now token d sh")
      case True
      then show ?thesis using False u by (subst await_io.simps) (simp add: w2_def)
    qed (simp add: w2_def)
    then show ?thesis using Suc.IH [OF _ sh1(1)] Suc.prems(1) sh1(2) by simp
  qed
qed simp

lemma await_drive:
  assumes "await_io f w = Some (v, w')" and "live_stream token sh"
  shows "\<exists>n sh'. drive_io n f token d waker (sh, w) = Some (Ok (v, sh', w'))"
proof (cases "ready_now token d sh")
  case False
  obtain sh1 where "live_stream token sh1" "ready_now token d sh1"
    "\<And>k. drive_io (Suc k) f token d waker (sh, w) = drive_io k f token d waker (sh1, w)"
    by (rule drive_pending [OF assms(2), where w = w and w' = w and f = f and d = d and waker = waker])
      (use False in auto)
  then show ?thesis using await_drive_ready [OF assms(1)] by metis
qed (use await_drive_ready [OF assms] in blast)

text \<open>
  C26: awaiting a stream operation through the reactor is repeating it. On a registered stream, polling
  the future and letting an event of the stream arrive after every pending poll gives a value and a
  state of the socket exactly when repeating the operation until it does not report \<open>WouldBlock\<close> gives
  them, and the stream stays registered.
\<close>

theorem await_is_polling:
  assumes "live_stream token sh"
  shows "(\<exists>n sh'. drive_io n f token d waker (sh, w) = Some (Ok (v, sh', w')) \<and> live_stream token sh') \<longleftrightarrow>
    await_io f w = Some (v, w')"
proof
  assume "\<exists>n sh'. drive_io n f token d waker (sh, w) = Some (Ok (v, sh', w')) \<and> live_stream token sh'"
  then obtain n sh' where "drive_io n f token d waker (sh, w) = Some (Ok (v, sh', w'))" by blast
  from drive_await [OF this assms] show "await_io f w = Some (v, w')" by simp
next
  assume "await_io f w = Some (v, w')"
  from await_drive [OF this assms] obtain n sh' where d: "drive_io n f token d waker (sh, w) = Some (Ok (v, sh', w'))"
    by blast
  then show "\<exists>n sh'. drive_io n f token d waker (sh, w) = Some (Ok (v, sh', w')) \<and> live_stream token sh'"
    using drive_await [OF d assms] by blast
qed

text \<open>A socket that blocks twice before the read gives a byte.\<close>

definition blocks_twice :: "nat \<Rightarrow> u8 list io_result \<times> nat" where
  "blocks_twice k = (if k < 2 then (Inl WouldBlock, k + 1) else (Inr [65], k))"

theorem await_is_polling_witness:
  "\<exists>n sh'. drive_io n blocks_twice 0 Read 0 (example_shared, 0) = Some (Ok (Inr [65], sh', 2)) \<and> live_stream 0 sh'"
proof -
  have live: "live_stream 0 example_shared"
    by (simp add: live_stream_def example_shared_ok example_token, simp add: example_shared_def)
  have "await_io blocks_twice 2 = Some (Inr [65], 2)" by (subst await_io.simps) (simp add: blocks_twice_def)
  then have "await_io blocks_twice 1 = Some (Inr [65], 2)" by (subst await_io.simps) (simp add: blocks_twice_def numeral_2_eq_2)
  then have "await_io blocks_twice 0 = Some (Inr [65], 2)" by (subst await_io.simps) (simp add: blocks_twice_def)
  with await_is_polling [OF live] show ?thesis by metis
qed

end
