(* ===== verification/Executor_Safety.thy ===== *)
theory Executor_Safety
  imports Executor
begin

section \<open>Safety of the executor\<close>

text \<open>
  The invariant of the executor: the tables have one entry per bucket, and the reference count of
  a bucket is the number of its live jobs (the future of the request and the connection slots
  that are in use). Every operation keeps it and touches one bucket only. From this follow that
  a claimed bucket is empty, that a finished bucket is, and that a failing request does not
  disturb any other.
\<close>

subsection \<open>Buckets\<close>

definition buckets :: "('f, 'c) executor \<Rightarrow> nat" where
  "buckets s = length (ex_refcounts s)"

definition http_count :: "('f, 'c) executor \<Rightarrow> nat" where
  "http_count s = unat (http_connections (ex_io s))"

definition slot_count :: "('f, 'c) executor \<Rightarrow> nat" where
  "slot_count s = unat (tcp_streams (ex_io s)) + unat (http_connections (ex_io s))"

definition conns_of :: "('f, 'c) executor \<Rightarrow> nat \<Rightarrow> 'c slot list" where
  "conns_of s b = take (http_count s) (drop (b * http_count s) (ex_connections s))"

definition live_conns :: "('f, 'c) executor \<Rightarrow> nat \<Rightarrow> nat" where
  "live_conns s b = count_if (\<lambda>c. c \<noteq> Empty) (conns_of s b)"

text \<open>Everything the executor keeps for one bucket, but for its place in the job queue.\<close>

definition bucket_view where
  "bucket_view s b =
     (ex_refcounts s ! b, ex_futures s ! b, ex_tcp_streams s ! b, conns_of s b, arenas (ex_alloc s) (Some b))"

text \<open>What wake-ups do to a queue slot: jobs are added, and the slot may become enqueued.\<close>

definition slot_grown :: "queue_slot \<Rightarrow> queue_slot \<Rightarrow> bool" where
  "slot_grown old new \<longleftrightarrow>
     (\<forall>j. bit (jobs old) j \<longrightarrow> bit (jobs new) j) \<and> (flags new = flags old \<or> flags new = flags old OR ENQUEUED_BIT)"

lemma slot_grown_refl [simp]: "slot_grown x x"
  by (simp add: slot_grown_def)

lemma slot_grown_trans: "slot_grown x y \<Longrightarrow> slot_grown y z \<Longrightarrow> slot_grown x z"
  by (auto simp: slot_grown_def or.assoc)

lemma slot_grown_enqueue: "j < 64 \<Longrightarrow> slot_grown x (enqueue_slot j x)"
  by (auto simp: slot_grown_def enqueue_slot_def bit_set_bit_iff)

definition jobs_ok :: "nat \<Rightarrow> queue_slot list \<Rightarrow> bool" where
  "jobs_ok p slots \<longleftrightarrow> (\<forall>b < length slots. \<forall>j. bit (jobs (slots ! b)) j \<longrightarrow> j < p)"

definition shape_ok :: "('f, 'c) executor \<Rightarrow> bool" where
  "shape_ok s \<longleftrightarrow>
     io_wf (ex_io s) \<and> buckets s \<le> 1000 \<and>
     buckets s \<le> length (ex_futures s) \<and>
     length (ex_tcp_streams s) = buckets s \<and>
     length (ex_connections s) = buckets s * http_count s \<and>
     length (queue (ex_queue s)) = buckets s \<and>
     cq_io_resources (ex_queue s) = ex_io s \<and>
     queue_inv (ex_queue s) \<and>
     jobs_ok (slot_count s) (queue (ex_queue s)) \<and>
     length (sa_buckets (ex_alloc s)) = buckets s"

definition count_ok :: "('f, 'c) executor \<Rightarrow> nat \<Rightarrow> bool" where
  "count_ok s b \<longleftrightarrow>
     unat (ex_refcounts s ! b) = (if ex_futures s ! b = None then 0 else 1) + live_conns s b"

text \<open>Every request future is made for one bucket, its home, and is stored there.\<close>

definition home_ok :: "('f \<Rightarrow> nat) \<Rightarrow> ('f, 'c) executor \<Rightarrow> nat \<Rightarrow> bool" where
  "home_ok home s b \<longleftrightarrow> (\<forall>f. ex_futures s ! b = Some f \<longrightarrow> home f = b)"

definition exec_inv :: "('f \<Rightarrow> nat) \<Rightarrow> ('f, 'c) executor \<Rightarrow> bool" where
  "exec_inv home s \<longleftrightarrow> shape_ok s \<and> (\<forall>b < buckets s. count_ok s b \<and> home_ok home s b)"

text \<open>
  A change that leaves every bucket but \<open>b\<close> as it was, apart from wake-ups, and the tables well formed.
\<close>

definition step_ok :: "nat \<Rightarrow> ('f, 'c) executor \<Rightarrow> ('f, 'c) executor \<Rightarrow> bool" where
  "step_ok b s s' \<longleftrightarrow>
     shape_ok s' \<and> ex_io s' = ex_io s \<and> buckets s' = buckets s \<and>
     length (ex_futures s') = length (ex_futures s) \<and>
     (\<forall>b' < buckets s. b' \<noteq> b \<longrightarrow>
        bucket_view s' b' = bucket_view s b' \<and> slot_grown (queue (ex_queue s) ! b') (queue (ex_queue s') ! b'))"

lemma step_refl: "shape_ok s \<Longrightarrow> step_ok b s s"
  by (simp add: step_ok_def)

lemma step_trans: "step_ok b s t \<Longrightarrow> step_ok b t u \<Longrightarrow> step_ok b s u"
  by (auto simp: step_ok_def intro: slot_grown_trans)

lemma step_shape: "step_ok b s s' \<Longrightarrow> shape_ok s'"
  by (simp add: step_ok_def)

lemma step_buckets: "step_ok b s s' \<Longrightarrow> buckets s' = buckets s"
  by (simp add: step_ok_def)

lemma step_io: "step_ok b s s' \<Longrightarrow> ex_io s' = ex_io s"
  by (simp add: step_ok_def)

lemma bucket_view_count:
  "bucket_view s b = bucket_view s' b \<Longrightarrow> count_ok s b = count_ok s' b \<and> home_ok home s b = home_ok home s' b"
  by (simp add: bucket_view_def count_ok_def live_conns_def home_ok_def)

text \<open>The invariant survives a step of bucket \<open>b\<close> that leaves the count of \<open>b\<close> right.\<close>

lemma exec_inv_step:
  assumes "exec_inv home s" and "step_ok b s s'" and "count_ok s' b" and "home_ok home s' b"
  shows "exec_inv home s'"
  unfolding exec_inv_def
proof (intro conjI allI impI)
  show "shape_ok s'" using assms(2) by (rule step_shape)
  fix b' assume "b' < buckets s'"
  then have b': "b' < buckets s" using step_buckets [OF assms(2)] by simp
  have "count_ok s' b' \<and> home_ok home s' b'"
  proof (cases "b' = b")
    case False
    then have "bucket_view s' b' = bucket_view s b'" using assms(2) b' by (simp add: step_ok_def)
    then show ?thesis using bucket_view_count [of s' b' s home] assms(1) b' by (auto simp: exec_inv_def)
  qed (use assms(3,4) in simp)
  then show "count_ok s' b'" and "home_ok home s' b'" by simp_all
qed

subsection \<open>Updates of one bucket\<close>

lemma conns_of_update:
  assumes "k < length (ex_connections s)" and "b * http_count s \<le> k" and "k < b * http_count s + http_count s"
  shows "conns_of (s\<lparr>ex_connections := (ex_connections s)[k := v]\<rparr>) b =
      (conns_of s b)[k - b * http_count s := v]"
    and "b' \<noteq> b \<Longrightarrow> conns_of (s\<lparr>ex_connections := (ex_connections s)[k := v]\<rparr>) b' = conns_of s b'"
proof -
  let ?h = "http_count s"
  have d: "drop m (xs[k := v]) = (if k < m then drop m xs else (drop m xs)[k - m := v])" for m and xs :: "'a slot list"
    by (simp add: drop_update_swap not_less)
  show "conns_of (s\<lparr>ex_connections := (ex_connections s)[k := v]\<rparr>) b =
      (conns_of s b)[k - b * ?h := v]"
    using assms by (simp add: conns_of_def http_count_def d take_update_swap)
  assume "b' \<noteq> b"
  then consider "b' < b" | "b < b'" by arith
  then show "conns_of (s\<lparr>ex_connections := (ex_connections s)[k := v]\<rparr>) b' = conns_of s b'"
  proof cases
    case 1
    then have "b' * ?h + ?h \<le> b * ?h" using mult_le_mono1 [of "Suc b'" b ?h] by simp
    then have "?h \<le> k - b' * ?h" and "\<not> k < b' * ?h" using assms(2) by arith+
    then show ?thesis by (simp add: conns_of_def http_count_def d)
  next
    case 2
    then have "b * ?h + ?h \<le> b' * ?h" using mult_le_mono1 [of "Suc b" b' ?h] by simp
    then have "k < b' * ?h" using assms(3) by arith
    then show ?thesis by (simp add: conns_of_def http_count_def d)
  qed
qed

lemma length_conns_of:
  assumes "shape_ok s" and "b < buckets s"
  shows "length (conns_of s b) = http_count s"
proof -
  have "b * http_count s + http_count s \<le> buckets s * http_count s"
    using assms(2) mult_le_mono1 [of "Suc b" "buckets s" "http_count s"] by simp
  then show ?thesis using assms(1) by (simp add: conns_of_def shape_ok_def)
qed

lemmas view_defs = bucket_view_def conns_of_def http_count_def slot_count_def buckets_def

lemma step_refcount:
  "step_ok b s t \<Longrightarrow> step_ok b s (t\<lparr>ex_refcounts := (ex_refcounts t)[b := v]\<rparr>)"
  by (auto simp: step_ok_def shape_ok_def view_defs)

lemma step_future:
  "step_ok b s t \<Longrightarrow> step_ok b s (t\<lparr>ex_futures := (ex_futures t)[b := v]\<rparr>)"
  by (auto simp: step_ok_def shape_ok_def view_defs)

lemma step_tcp_stream:
  "step_ok b s t \<Longrightarrow> step_ok b s (t\<lparr>ex_tcp_streams := (ex_tcp_streams t)[b := v]\<rparr>)"
  by (auto simp: step_ok_def shape_ok_def view_defs)

lemma step_other:
  "step_ok b s (t\<lparr>ex_reactor := re\<rparr>) \<longleftrightarrow> step_ok b s t"
  "step_ok b s (t\<lparr>ex_identifier := n\<rparr>) \<longleftrightarrow> step_ok b s t"
  "step_ok b s (t\<lparr>ex_closed := cl\<rparr>) \<longleftrightarrow> step_ok b s t"
  "step_ok b s (t\<lparr>ex_sent := se\<rparr>) \<longleftrightarrow> step_ok b s t"
  by (auto simp: step_ok_def shape_ok_def view_defs)

lemma step_connection:
  assumes "step_ok b s t" and "k < length (ex_connections t)"
    and "b * http_count s \<le> k" and "k < b * http_count s + http_count s"
  shows "step_ok b s (t\<lparr>ex_connections := (ex_connections t)[k := v]\<rparr>)"
proof -
  have "http_count t = http_count s" using step_io [OF assms(1)] by (simp add: http_count_def)
  then have "b' \<noteq> b \<Longrightarrow> conns_of (t\<lparr>ex_connections := (ex_connections t)[k := v]\<rparr>) b' = conns_of t b'" for b'
    using conns_of_update(2) [of k t b] assms by simp
  then show ?thesis
    using assms(1) by (auto simp: step_ok_def shape_ok_def bucket_view_def buckets_def http_count_def slot_count_def)
qed

lemma step_alloc:
  assumes "step_ok b s t" and "length (sa_buckets al) = length (sa_buckets (ex_alloc t))"
    and "\<forall>b'. b' \<noteq> b \<longrightarrow> arenas al (Some b') = arenas (ex_alloc t) (Some b')"
  shows "step_ok b s (t\<lparr>ex_alloc := al\<rparr>)"
  using assms by (auto simp: step_ok_def shape_ok_def view_defs)

lemma jobs_ok_update:
  "jobs_ok p xs \<Longrightarrow> \<forall>j. bit (jobs v) j \<longrightarrow> j < p \<Longrightarrow> jobs_ok p (xs[b := v])"
  by (auto simp: jobs_ok_def nth_update_if split: if_splits)

lemma step_queue:
  assumes "step_ok b s t" and "queue_inv q" and "cq_io_resources q = cq_io_resources (ex_queue t)"
    and "queue q = (queue (ex_queue t))[b := slot]"
    and "\<forall>j. bit (jobs slot) j \<longrightarrow> j < slot_count s"
  shows "step_ok b s (t\<lparr>ex_queue := q\<rparr>)"
proof -
  have "slot_count t = slot_count s" using step_io [OF assms(1)] by (simp add: slot_count_def)
  then have "jobs_ok (slot_count t) ((queue (ex_queue t))[b := slot])"
    using assms(1,5) by (intro jobs_ok_update) (auto simp: step_ok_def shape_ok_def)
  then show ?thesis
    using assms by (auto simp: step_ok_def shape_ok_def view_defs)
qed

subsection \<open>Calls of the application\<close>

text \<open>The calls a request of bucket \<open>b\<close> makes: handshakes for its own bucket and its own slots.\<close>

fun call_ok :: "nat \<Rightarrow> nat \<Rightarrow> 'c app_call \<Rightarrow> bool" where
  "call_ok h b (AppHandshakeBegin bi fd) = (unat (bi_index bi) = b)"
| "call_ok h b (AppHandshakeEnd ci conn) = (b * h \<le> unat (ci_index ci) \<and> unat (ci_index ci) < b * h + h)"
| "call_ok h b _ = True"

text \<open>The calls of a connection: no handshake.\<close>

fun conn_call_ok :: "'c app_call \<Rightarrow> bool" where
  "conn_call_ok (AppHandshakeBegin bi fd) = False"
| "conn_call_ok (AppHandshakeEnd ci conn) = False"
| "conn_call_ok _ = True"

text \<open>
  What is assumed of an application whose futures have the homes \<open>home\<close>: a future calls
  \<open>handshake\<close> with its own bucket and finishes its own handshakes, and stays at home. It may wake
  any job.
\<close>

definition app_ok :: "('f \<Rightarrow> nat) \<Rightarrow> nat \<Rightarrow> ('f, 'c) application \<Rightarrow> bool" where
  "app_ok home h app \<longleftrightarrow>
     (\<forall>f w. list_all (\<lambda>c. call_ok h (home f) (fst c)) (fst (ap_poll app f w)) \<and>
        (\<forall>f'. snd (ap_poll app f w) = AppPending f' \<longrightarrow> home f' = home f)) \<and>
     (\<forall>c w. list_all (\<lambda>c. conn_call_ok (fst c)) (fst (ap_poll_connection app c w)))"

lemma connection_range:
  assumes "shape_ok s" and "unat (bi_index bi) = b" and "b < buckets s"
  shows "unat (fst (http_connections_range (ex_io s) bi)) = b * http_count s"
    and "unat (snd (http_connections_range (ex_io s) bi)) = b * http_count s + http_count s"
    and "fst (http_connections_range (ex_io s) bi) \<le> snd (http_connections_range (ex_io s) bi)"
    and "b * http_count s + http_count s \<le> length (ex_connections s)"
proof -
  have h: "http_count s \<le> 64" "b < 1000"
    using assms by (auto simp: shape_ok_def io_wf_def http_count_def)
  then have bh: "b * http_count s \<le> 999 * 64" by (intro mult_le_mono) auto
  show lo: "unat (fst (http_connections_range (ex_io s) bi)) = b * http_count s"
    using bh h assms(2)
    by (simp add: http_connections_range_def Let_def unat_word_ariths(2) unat_ucast_small http_count_def)
  show hi: "unat (snd (http_connections_range (ex_io s) bi)) = b * http_count s + http_count s"
    using lo bh h(1) by (simp add: http_connections_range_def Let_def unat_word_ariths(1) http_count_def)
  show "fst (http_connections_range (ex_io s) bi) \<le> snd (http_connections_range (ex_io s) bi)"
    by (simp add: word_le_nat_alt lo hi)
  show "b * http_count s + http_count s \<le> length (ex_connections s)"
    using assms(1,3) mult_le_mono1 [of "Suc b" "buckets s" "http_count s"] by (simp add: shape_ok_def)
qed

lemma bucket_allocation_frame:
  assumes "unat a < 1000" and "alloc sys a l al = (r, al')"
  shows "length (sa_buckets al') = length (sa_buckets al)"
    and "\<forall>b'. b' \<noteq> unat a \<longrightarrow> arenas al' (Some b') = arenas al (Some b')"
    and "r \<noteq> UndefinedBehaviour \<and> r \<noteq> Abort"
proof -
  have ba: "bucket_arena a"
    using assms(1) by (simp add: bucket_arena_def arena_index_defs word_less_nat_alt)
  obtain p t where t: "try_allocate_in_bucket l (unat a) al = (p, t)"
    by (cases "try_allocate_in_bucket l (unat a) al")
  have e: "alloc sys a l al = (case p of None \<Rightarrow> (LongJmp 1, t) | Some q \<Rightarrow> (Return q, t))"
    by (simp add: alloc_bucket [OF ba] t)
  then have t': "al' = t" using assms(2) by (cases p) auto
  show "length (sa_buckets al') = length (sa_buckets al)"
    using t t' by (auto simp: try_allocate_in_bucket_def Let_def split: if_splits prod.splits)
  show "\<forall>b'. b' \<noteq> unat a \<longrightarrow> arenas al' (Some b') = arenas al (Some b')"
    using bucket_alloc_frame [OF t] t' by auto
  show "r \<noteq> UndefinedBehaviour \<and> r \<noteq> Abort" using assms(2) e by (cases p) auto
qed

lemma clear_bucket_frame:
  assumes "clear_bucket i al = Ok al'"
  shows "length (sa_buckets al') = length (sa_buckets al)"
    and "\<forall>b'. b' \<noteq> i \<longrightarrow> arenas al' (Some b') = arenas al (Some b')"
  using assms
  by (auto simp: clear_bucket_def index_slice_def arenas_bucket bind_outcome_Ok_iff split: if_splits)

text \<open>An enqueue of one of the bucket's own jobs.\<close>

lemma enqueue_own:
  assumes st: "step_ok b s t" and b: "b < buckets s"
    and qi: "unat (qi_index qi) = b * slot_count s + j" and j: "j < slot_count s"
  obtains w q where "initial_enqueue qi (ex_queue t) = Ok (w, q)" and "step_ok b s (t\<lparr>ex_queue := q\<rparr>)"
    and "bit (jobs (queue q ! b)) j"
proof -
  have sh: "shape_ok t" and io: "ex_io t = ex_io s" and bt: "buckets t = buckets s"
    using st by (simp_all add: step_ok_def)
  have q: "queue_inv (ex_queue t)" "cq_io_resources (ex_queue t) = ex_io s" "b < length (queue (ex_queue t))"
    "io_wf (ex_io s)" "b < 1000"
    using sh io bt b by (auto simp: shape_ok_def)
  have j64: "j < 64" using j q(4) by (simp add: io_wf_def slot_count_def)
  have e: "initial_enqueue qi (ex_queue t) = helper b j (ex_queue t)"
    by (rule initial_enqueue_helper) (use q qi j in \<open>simp_all add: slot_count_def\<close>)
  obtain w q' where h: "helper b j (ex_queue t) = Ok (w, q')"
    "queue q' = (queue (ex_queue t))[b := enqueue_slot j (queue (ex_queue t) ! b)]"
    "cq_io_resources q' = cq_io_resources (ex_queue t)" "queue_inv q'"
    using helper_spec [OF q(1,3) j64] by auto
  have jobs: "bit (jobs (queue (ex_queue t) ! b)) i \<Longrightarrow> i < slot_count s" for i
    using sh q(3) io by (auto simp: shape_ok_def jobs_ok_def slot_count_def)
  have "\<forall>i. bit (jobs (enqueue_slot j (queue (ex_queue t) ! b))) i \<longrightarrow> i < slot_count s"
    using jobs j by (auto simp: enqueue_slot_def bit_set_bit_iff)
  then have "step_ok b s (t\<lparr>ex_queue := q'\<rparr>)"
    by (intro step_queue [OF st h(4,3,2)])
  moreover have "bit (jobs (queue q' ! b)) j"
    using h(2) q(3) j64 by (simp add: enqueue_slot_def bit_set_bit_iff)
  ultimately show thesis using that e h(1) by simp
qed

text \<open>A wake-up of any job: it panics, or adds a job to the slot of some bucket.\<close>

lemma enqueue_effect:
  assumes sh: "shape_ok t" and e: "initial_enqueue qi (ex_queue t) = Ok (w, q)"
  obtains k j where "k = unat (qi_index qi) div slot_count t" and "k < buckets t" and "j < slot_count t" and "j < 64"
    and "queue q = (queue (ex_queue t))[k := enqueue_slot j (queue (ex_queue t) ! k)]"
    and "cq_io_resources q = cq_io_resources (ex_queue t)" and "queue_inv q"
proof -
  let ?io = "ex_io t" and ?j = "unat ((ucast (qi_index qi) :: usize) mod per_bucket (ex_io t))"
  have q: "queue_inv (ex_queue t)" "cq_io_resources (ex_queue t) = ?io" "io_wf ?io"
    "length (queue (ex_queue t)) = buckets t"
    using sh by (auto simp: shape_ok_def)
  have p: "unat (per_bucket ?io) = slot_count t" "slot_count t \<le> 64" "unat (ucast (per_bucket ?io) :: u32) = slot_count t"
    using unat_per_bucket [OF q(3)] unat_per_bucket_u32 [OF q(3)] q(3) by (simp_all add: slot_count_def io_wf_def)
  obtain bi where bi: "to_bucket_index qi ?io = Ok bi" "unat (bi_index bi) < buckets t"
      "helper (unat (bi_index bi)) ?j (ex_queue t) = Ok (w, q)" "per_bucket ?io \<noteq> 0"
    using e q(2,4) by (auto simp: initial_enqueue_def bind_outcome_Ok_iff Let_def split: if_splits)
  have k: "unat (bi_index bi) = unat (qi_index qi) div slot_count t"
    using bi(1) p(3) by (auto simp: to_bucket_index_def Let_def unat_div split: if_splits)
  have "0 < unat (per_bucket ?io)" using bi(4) by (simp add: unat_gt_0)
  then have j: "?j < slot_count t" "?j < 64" using p(1,2) by (simp_all add: unat_mod less_le_trans [OF mod_less_divisor])
  from helper_spec [OF q(1), of "unat (bi_index bi)" ?j] bi(2,3) q(4) j(2) that [OF k bi(2) j] show thesis by auto
qed

lemma enqueue_any:
  assumes st: "step_ok b s t" and e: "initial_enqueue qi (ex_queue t) = Ok (w, q)"
  shows "step_ok b s (t\<lparr>ex_queue := q\<rparr>)"
proof -
  have sh: "shape_ok t" using st by (simp add: step_ok_def)
  then have ok: "jobs_ok (slot_count t) (queue (ex_queue t))" "length (queue (ex_queue t)) = buckets t"
    by (simp_all add: shape_ok_def)
  from enqueue_effect [OF sh e] obtain k j where k: "k < buckets t" "j < slot_count t" "j < 64"
    and h: "queue q = (queue (ex_queue t))[k := enqueue_slot j (queue (ex_queue t) ! k)]"
      "cq_io_resources q = cq_io_resources (ex_queue t)" "queue_inv q" by metis
  have "\<forall>i. bit (jobs (enqueue_slot j (queue (ex_queue t) ! k))) i \<longrightarrow> i < slot_count t"
    using ok k by (auto simp: jobs_ok_def enqueue_slot_def bit_set_bit_iff)
  then have "jobs_ok (slot_count t) (queue q)" unfolding h(1) by (rule jobs_ok_update [OF ok(1)])
  then have "shape_ok (t\<lparr>ex_queue := q\<rparr>)"
    using sh h by (simp add: shape_ok_def buckets_def http_count_def slot_count_def)
  moreover have "slot_grown (queue (ex_queue t) ! b') (queue q ! b')" for b'
    using k ok(2) by (cases "b' = k") (simp_all add: h(1) slot_grown_enqueue)
  moreover have "bucket_view (t\<lparr>ex_queue := q\<rparr>) b' = bucket_view t b'" for b'
    by (simp add: bucket_view_def conns_of_def http_count_def)
  ultimately show ?thesis
    using st by (auto simp: step_ok_def buckets_def intro: slot_grown_trans)
qed

lemma wake_raw_any:
  "step_ok b s t \<Longrightarrow> wake_raw ptr (ex_queue t) = Ok q \<Longrightarrow> step_ok b s (t\<lparr>ex_queue := q\<rparr>)"
  by (auto simp: wake_raw_def wake_def bind_outcome_Ok_iff intro: enqueue_any)

lemma find_sat: "find P xs = Some x \<Longrightarrow> P x \<and> x \<in> set xs"
  by (induction xs) (auto split: if_splits)

lemma find_free_slot_Some:
  "find_free_slot start stop conns = Some k \<Longrightarrow> start \<le> k \<and> k < stop \<and> conns ! k = Empty"
  by (cases "conns ! k") (auto simp: find_free_slot_def dest!: find_sat)

text \<open>How the number of live connections of a bucket changes with one slot.\<close>

lemma live_conns_update:
  assumes "shape_ok t" and "b < buckets t" and "b * http_count t \<le> k" and "k < b * http_count t + http_count t"
  shows "live_conns (t\<lparr>ex_connections := (ex_connections t)[k := v]\<rparr>) b + (if ex_connections t ! k = Empty then 0 else 1) =
    live_conns t b + (if v = Empty then 0 else 1)"
proof -
  have k: "k < length (ex_connections t)"
    using assms(1,2,4) mult_le_mono1 [of "Suc b" "buckets t" "http_count t"] by (simp add: shape_ok_def)
  have len: "k - b * http_count t < length (conns_of t b)"
    using length_conns_of [OF assms(1,2)] assms(3,4) by simp
  have "conns_of t b ! (k - b * http_count t) = ex_connections t ! k"
    using assms(3,4) k by (simp add: conns_of_def)
  then show ?thesis
    using count_if_update [OF len, of "\<lambda>c. c \<noteq> Empty" v] conns_of_update(1) [OF k assms(3,4), of v]
    by (auto simp: live_conns_def split: if_splits)
qed

lemma live_conns_bound:
  assumes "shape_ok s" and "b < buckets s"
  shows "live_conns s b < 64"
proof -
  have "live_conns s b \<le> http_count s"
    using count_if_le [of _ "conns_of s b"] length_conns_of [OF assms] by (simp add: live_conns_def)
  then show ?thesis using assms(1) by (simp add: shape_ok_def io_wf_def http_count_def)
qed

lemma live_conns_other [simp]:
  "live_conns (t\<lparr>ex_refcounts := v\<rparr>) b = live_conns t b"
  "live_conns (t\<lparr>ex_futures := f\<rparr>) b = live_conns t b"
  "live_conns (t\<lparr>ex_tcp_streams := ts\<rparr>) b = live_conns t b"
  "live_conns (t\<lparr>ex_queue := q\<rparr>) b = live_conns t b"
  "live_conns (t\<lparr>ex_alloc := al\<rparr>) b = live_conns t b"
  "live_conns (t\<lparr>ex_reactor := re\<rparr>) b = live_conns t b"
  "live_conns (t\<lparr>ex_identifier := i\<rparr>) b = live_conns t b"
  "live_conns (t\<lparr>ex_closed := cl\<rparr>) b = live_conns t b"
  "live_conns (t\<lparr>ex_sent := se\<rparr>) b = live_conns t b"
  by (simp_all add: live_conns_def conns_of_def http_count_def)

lemma http_count_other [simp]:
  "http_count (t\<lparr>ex_refcounts := v\<rparr>) = http_count t"
  "http_count (t\<lparr>ex_connections := c\<rparr>) = http_count t"
  by (simp_all add: http_count_def)

lemma buckets_other [simp]:
  "buckets (t\<lparr>ex_futures := f\<rparr>) = buckets t"
  "buckets (t\<lparr>ex_tcp_streams := ts\<rparr>) = buckets t"
  "buckets (t\<lparr>ex_connections := c\<rparr>) = buckets t"
  "buckets (t\<lparr>ex_queue := q\<rparr>) = buckets t"
  "buckets (t\<lparr>ex_alloc := al\<rparr>) = buckets t"
  "buckets (t\<lparr>ex_refcounts := (ex_refcounts t)[i := x]\<rparr>) = buckets t"
  by (simp_all add: buckets_def)

text \<open>The first half of a handshake of bucket \<open>b\<close>.\<close>

lemma handshake_begin_step:
  assumes st: "step_ok b s t" and b: "b < buckets s" and bi: "unat (bi_index bi) = b"
    and h: "handshake_begin app bi fd t = (r, t')"
  shows "step_ok b s t' \<and> ex_futures t' = ex_futures t \<and>
    (r = Ok ci \<longrightarrow> ex_refcounts t ! b \<noteq> 0 \<longrightarrow> count_ok t b \<longrightarrow> count_ok t' b)"
proof -
  let ?rc = "ex_refcounts t ! b"
  have sh: "shape_ok t" and bt: "b < buckets t" and H: "http_count t = http_count s"
    using st b by (simp_all add: step_ok_def http_count_def)
  obtain start stop where rg: "http_connections_range (ex_io t) bi = (start, stop)"
    by (cases "http_connections_range (ex_io t) bi")
  note range = connection_range [OF sh bi bt, unfolded rg fst_conv snd_conv]
  define t1 where "t1 = (if ?rc = 0 then t else t\<lparr>ex_refcounts := (ex_refcounts t)[b := ?rc + 1]\<rparr>)"
  have t1: "step_ok b s t1" "ex_connections t1 = ex_connections t" "ex_futures t1 = ex_futures t"
    "ex_io t1 = ex_io t" "ex_reactor t1 = ex_reactor t" "http_count t1 = http_count t" "buckets t1 = buckets t"
    using st step_refcount [OF st] by (simp_all add: t1_def buckets_def)
  have e: "handshake_begin app bi fd t =
      (case find_free_slot (unat start) (unat stop) (ex_connections t) of
         None \<Rightarrow> (Panic Todo, t1)
       | Some k \<Rightarrow>
           let s2 = t1\<lparr>ex_connections := (ex_connections t1)[k := Reserved], ex_identifier := ex_identifier t1 + 1\<rparr>;
               ci = \<lparr>ci_identifier = ex_identifier t1, ci_index = of_nat k\<rparr>
           in case from_connection_index (ex_io s2) ci of
                Inl p \<Rightarrow> (Panic p, s2)
              | Inr qi \<Rightarrow>
                  (case register (ap_mio_register app) qi fd (ex_reactor s2) of
                     (Inl p, re) \<Rightarrow> (Panic p, s2\<lparr>ex_reactor := re\<rparr>)
                   | (Inr _, re) \<Rightarrow> (Ok ci, s2\<lparr>ex_reactor := re\<rparr>)))"
    unfolding handshake_begin_def rg Let_def prod.case bi t1_def [symmetric] t1(2)
    using bt range(3,4) by (simp add: range(1,2) buckets_def)
  show ?thesis
  proof (cases "find_free_slot (unat start) (unat stop) (ex_connections t)")
    case None
    then show ?thesis using h e t1 by auto
  next
    case (Some k)
    have k: "b * http_count t \<le> k" "k < b * http_count t + http_count t" "ex_connections t ! k = Empty"
      using find_free_slot_Some [OF Some] range by simp_all
    let ?t2 = "t1\<lparr>ex_connections := (ex_connections t1)[k := Reserved]\<rparr>"
    have t2: "step_ok b s ?t2"
      by (rule step_connection [OF t1(1)]) (use k range t1 H in auto)
    have live: "live_conns ?t2 b = Suc (live_conns t1 b)"
      using live_conns_update [OF step_shape [OF t1(1)], of b k Reserved] k t1 bt by simp
    have cnt: "count_ok ?t2 b" if "?rc \<noteq> 0" "count_ok t b"
    proof -
      have "unat ?rc \<le> 1 + live_conns t b" using that(2) by (auto simp: count_ok_def split: if_splits)
      then have "unat ?rc < 65" using live_conns_bound [OF sh bt] by simp
      then have "unat (?rc + 1) = Suc (unat ?rc)" by (simp add: unat_word_ariths(1))
      moreover have "ex_refcounts t1 = (ex_refcounts t)[b := ?rc + 1]" "live_conns t1 b = live_conns t b"
        using that(1) by (simp_all add: t1_def)
      ultimately show ?thesis using that bt live t1(3) by (simp add: count_ok_def buckets_def)
    qed
    have "\<exists>n re. t' = ?t2\<lparr>ex_identifier := n, ex_reactor := re\<rparr>"
      using h e Some
      by (auto simp: Let_def split: sum.splits prod.splits)
        (intro exI executor.equality; simp)+
    then obtain n re where t': "t' = ?t2\<lparr>ex_identifier := n, ex_reactor := re\<rparr>" by blast
    have "step_ok b s t'" using t2 by (simp add: t' step_other)
    moreover have "count_ok t' b = count_ok ?t2 b" by (simp add: t' count_ok_def)
    ultimately show ?thesis using cnt t1(3) t' by simp
  qed
qed

text \<open>The second half: a reserved slot becomes occupied and its job is enqueued.\<close>

lemma handshake_end_step:
  assumes st: "step_ok b s t" and b: "b < buckets s"
    and ci: "b * http_count s \<le> unat (ci_index ci)" "unat (ci_index ci) < b * http_count s + http_count s"
    and h: "handshake_end ci conn t = (r, t')"
  shows "step_ok b s t' \<and> ex_futures t' = ex_futures t \<and> (count_ok t b \<longrightarrow> count_ok t' b)"
proof -
  let ?k = "unat (ci_index ci)"
  have sh: "shape_ok t" and bt: "b < buckets t" and H: "http_count t = http_count s" "slot_count t = slot_count s"
    and io: "ex_io t = ex_io s"
    using st b by (simp_all add: step_ok_def http_count_def slot_count_def)
  have len: "b * http_count t + http_count t \<le> length (ex_connections t)"
    using sh bt mult_le_mono1 [of "Suc b" "buckets t" "http_count t"] by (simp add: shape_ok_def)
  then have k: "?k < length (ex_connections t)" using ci H by simp
  show ?thesis
  proof (cases "ex_connections t ! ?k")
    case Reserved
    let ?t1 = "t\<lparr>ex_connections := (ex_connections t)[?k := Occupied conn]\<rparr>"
    have t1: "step_ok b s ?t1" by (rule step_connection [OF st k ci])
    have cnt: "live_conns ?t1 b = live_conns t b"
      using live_conns_update [OF sh bt, of ?k "Occupied conn"] ci H Reserved by simp
    have "buckets t \<le> 1000" "io_wf (ex_io t)" using sh by (simp_all add: shape_ok_def)
    then have "b * http_count t + http_count t \<le> 1000 * http_count t"
      using bt mult_le_mono1 [of "Suc b" 1000 "http_count t"] by (simp del: mult_le_cancel2)
    then have "?k < 1000 * http_count t" using less_le_trans [OF ci(2)] unfolding H(1) by blast
    then have "connection_valid (ex_io t) ci"
      using \<open>io_wf (ex_io t)\<close> by (simp add: connection_valid_def http_count_def)
    then obtain qi where qi: "from_connection_index (ex_io t) ci = Ok qi"
      "unat (qi_index qi) = ?k div http_count t * slot_count t + (unat (tcp_streams (ex_io t)) + ?k mod http_count t)"
      using from_connection_index_spec [of "ex_io t" ci] by (auto simp: http_count_def slot_count_def)
    have hp: "0 < http_count s" using ci by simp
    let ?j = "unat (tcp_streams (ex_io t)) + ?k mod http_count t"
    have d: "?k div http_count t = b" "?k mod http_count t < http_count t"
      using ci H hp by (simp_all add: div_nat_eqI mult.commute)
    then have j: "unat (qi_index qi) = b * slot_count s + ?j" "?j < slot_count s"
      using qi(2) H io by (simp_all add: slot_count_def http_count_def)
    obtain w q where q: "initial_enqueue qi (ex_queue ?t1) = Ok (w, q)" "step_ok b s (?t1\<lparr>ex_queue := q\<rparr>)"
      using enqueue_own [OF t1 b j] by blast
    have "t' = ?t1\<lparr>ex_queue := q\<rparr>"
      using h k Reserved qi(1) q(1) by (simp add: handshake_end_def Let_def)
    with q(2) cnt show ?thesis by (simp add: count_ok_def)
  qed (use h k st in \<open>simp_all add: handshake_end_def Let_def\<close>)
qed

text \<open>
  One call of a request: while the request's future is stored and the count is right, both stay
  so; a call that does not return still touches only its own bucket.
\<close>

definition running :: "nat \<Rightarrow> ('f, 'c) executor \<Rightarrow> bool" where
  "running b s \<longleftrightarrow> ex_futures s ! b \<noteq> None \<and> count_ok s b"

lemma running_refcount: "running b s \<Longrightarrow> ex_refcounts s ! b \<noteq> 0"
  by (auto simp: running_def count_ok_def)

lemma run_call_step:
  assumes st: "step_ok b s t" and b: "b < buckets s" and a: "unat a = b"
    and c: "call_ok (http_count s) b c" and run: "run_call app a c t = (r, t')"
  shows "step_ok b s t' \<and> r \<noteq> UndefinedBehaviour \<and> r \<noteq> Abort \<and> ex_futures t' = ex_futures t \<and>
    (r = Return () \<longrightarrow> running b t \<longrightarrow> running b t')"
proof (cases c)
  case (AppAlloc l)
  obtain x al where al: "alloc (ap_system_alloc app) a l (ex_alloc t) = (x, al)"
    by (cases "alloc (ap_system_alloc app) a l (ex_alloc t)")
  have "b < 1000" using st b by (auto simp: step_ok_def shape_ok_def)
  then have f: "length (sa_buckets al) = length (sa_buckets (ex_alloc t))"
    "\<forall>b'. b' \<noteq> b \<longrightarrow> arenas al (Some b') = arenas (ex_alloc t) (Some b')" "x \<noteq> UndefinedBehaviour \<and> x \<noteq> Abort"
    using bucket_allocation_frame [OF _ al] a by auto
  have "step_ok b s (t\<lparr>ex_alloc := al\<rparr>)" by (rule step_alloc [OF st f(1,2)])
  with run AppAlloc al f(3) show ?thesis
    by (cases x) (auto simp: run_call_def running_def count_ok_def)
next
  case (AppHandshakeBegin bi fd)
  obtain x t1 where h: "handshake_begin app bi fd t = (x, t1)" by (cases "handshake_begin app bi fd t")
  have "unat (bi_index bi) = b" using c AppHandshakeBegin by simp
  note hb = handshake_begin_step [OF st b this h]
  show ?thesis
    using hb run AppHandshakeBegin h running_refcount [of b t]
    by (cases x) (auto simp: run_call_def lift_outcome_def running_def)
next
  case (AppHandshakeEnd ci conn)
  obtain x t1 where h: "handshake_end ci conn t = (x, t1)" by (cases "handshake_end ci conn t")
  have ci: "b * http_count s \<le> unat (ci_index ci)" "unat (ci_index ci) < b * http_count s + http_count s"
    using c AppHandshakeEnd by simp_all
  show ?thesis
    using handshake_end_step [OF st b ci h] run AppHandshakeEnd h
    by (cases x) (auto simp: run_call_def lift_outcome_def running_def)
next
  case (AppWake ptr)
  then show ?thesis
    using run st wake_raw_any [OF st, of ptr]
    by (auto simp: run_call_def running_def count_ok_def split: sum.splits)
qed (use run st in \<open>auto simp: run_call_def lift_outcome_def step_other running_def count_ok_def split: sum.splits prod.splits\<close>)

text \<open>Dropping touches the reactor only.\<close>

lemma drop_streams_result:
  "drop_streams tss sh = (r, sh') \<Longrightarrow> r = Return () \<or> (\<exists>p. r = Unwind p) \<or> r = Abort"
  by (induction tss arbitrary: sh r sh') (auto split: prod.splits sum.splits control.splits)

lemma drop_owned_frame:
  assumes "drop_owned tss t = (r, t')"
  obtains re where "t' = t\<lparr>ex_reactor := re\<rparr>" and "r = Return () \<or> (\<exists>p. r = Unwind p) \<or> r = Abort"
  using assms drop_streams_result [of tss "ex_reactor t"] by (auto simp: drop_owned_def split: prod.splits)

lemma unwind_past_frame:
  assumes "unwind_past live p t = (r, t')"
  obtains re where "t' = t\<lparr>ex_reactor := re\<rparr>" and "r = Unwind p \<or> r = Abort"
proof -
  obtain x t1 where x: "drop_owned live t = (x, t1)" by (cases "drop_owned live t")
  from drop_owned_frame [OF x] obtain re where "t1 = t\<lparr>ex_reactor := re\<rparr>" by metis
  then show thesis using that assms x by (cases x) (auto simp: unwind_past_def)
qed

lemma run_calls_step:
  assumes "step_ok b s t" and "b < buckets s" and "unat a = b"
    and "list_all (\<lambda>c. call_ok (http_count s) b (fst c)) cs" and "run_calls app a cs t = (r, t')"
  shows "step_ok b s t' \<and> r \<noteq> UndefinedBehaviour \<and> ex_futures t' = ex_futures t \<and>
    (r = Return () \<longrightarrow> running b t \<longrightarrow> running b t')"
  using assms
proof (induction cs arbitrary: t)
  case (Cons cl cs)
  obtain c live where cl: "cl = (c, live)" by (cases cl)
  obtain x t1 where x: "run_call app a c t = (x, t1)" by (cases "run_call app a c t")
  have step: "step_ok b s t1 \<and> x \<noteq> UndefinedBehaviour \<and> x \<noteq> Abort \<and> ex_futures t1 = ex_futures t \<and>
      (x = Return () \<longrightarrow> running b t \<longrightarrow> running b t1)"
    by (rule run_call_step [OF Cons.prems(1-3) _ x]) (use Cons.prems(4) cl in simp)
  show ?case
  proof (cases x)
    case (Return u)
    then show ?thesis using Cons.IH [of t1] Cons.prems step x cl by simp
  next
    case (Unwind p)
    then have "unwind_past live p t1 = (r, t')" using Cons.prems(5) x cl by simp
    then show ?thesis by (rule unwind_past_frame) (use step in \<open>auto simp: step_other\<close>)
  qed (use Cons.prems(5) step x cl in auto)
qed auto

text \<open>The calls of a connection change neither the futures nor the connection slots nor the counts.\<close>

definition same_tables :: "('f, 'c) executor \<Rightarrow> ('f, 'c) executor \<Rightarrow> bool" where
  "same_tables t t' \<longleftrightarrow>
     ex_futures t' = ex_futures t \<and> ex_connections t' = ex_connections t \<and> ex_refcounts t' = ex_refcounts t \<and>
     ex_io t' = ex_io t"

lemma same_tables_simps [simp]:
  "same_tables t t" "same_tables t (u\<lparr>ex_reactor := re\<rparr>) = same_tables t u"
  by (simp_all add: same_tables_def)

lemma conn_call_keeps:
  assumes "conn_call_ok c" and "run_call app a c t = (r, t')"
  shows "same_tables t t'"
  using assms
  by (cases c) (auto simp: run_call_def same_tables_def split: prod.splits control.splits sum.splits)

lemma conn_calls_keep:
  assumes "list_all (\<lambda>c. conn_call_ok (fst c)) cs" and "run_calls app a cs t = (r, t')"
  shows "same_tables t t'"
  using assms
proof (induction cs arbitrary: t)
  case (Cons cl cs)
  obtain c live where cl: "cl = (c, live)" by (cases cl)
  obtain x t1 where x: "run_call app a c t = (x, t1)" by (cases "run_call app a c t")
  have k: "same_tables t t1" using conn_call_keeps [OF _ x] Cons.prems(1) cl by simp
  show ?case
  proof (cases x)
    case (Return u)
    then show ?thesis using Cons.IH [of t1] Cons.prems k x cl by (auto simp: same_tables_def)
  next
    case (Unwind p)
    then have "unwind_past live p t1 = (r, t')" using Cons.prems(2) x cl by simp
    then show ?thesis by (rule unwind_past_frame) (use k in simp)
  qed (use Cons.prems x k cl in auto)
qed simp

lemma conn_call_is_call: "conn_call_ok c \<Longrightarrow> call_ok h b c"
  by (cases c) auto

lemma conn_calls_are_calls:
  "list_all (\<lambda>c. conn_call_ok (fst c)) cs \<Longrightarrow> list_all (\<lambda>c. call_ok h b (fst c)) cs"
  by (auto simp: list_all_iff intro: conn_call_is_call)

subsection \<open>Polls\<close>

lemma app_okD:
  "app_ok home h app \<Longrightarrow> home f = b \<Longrightarrow> list_all (\<lambda>c. call_ok h b (fst c)) (fst (ap_poll app f w))"
  "app_ok home h app \<Longrightarrow> snd (ap_poll app f w) = AppPending f' \<Longrightarrow> home f' = home f"
  "app_ok home h app \<Longrightarrow> list_all (\<lambda>c. conn_call_ok (fst c)) (fst (ap_poll_connection app c w))"
  by (auto simp: app_ok_def)

text \<open>One poll: how it ended, and what its calls did.\<close>

lemma run_poll_cases:
  assumes "run_poll app a polled t = (r, t')"
  obtains x t1 re where "run_calls app a (fst polled) t = (x, t1)" and "t' = t1\<lparr>ex_reactor := re\<rparr>"
    and "x = UndefinedBehaviour \<longleftrightarrow> r = UndefinedBehaviour"
    and "r = Return (Pending, f) \<Longrightarrow> x = Return () \<and> snd polled = AppPending f"
    and "r = Return (Ready (), f) \<Longrightarrow> x = Return () \<and> snd polled = AppReady f"
proof -
  obtain x t1 where x: "run_calls app a (fst polled) t = (x, t1)" by (cases "run_calls app a (fst polled) t")
  have id: "t1 = t1\<lparr>ex_reactor := ex_reactor t1\<rparr>" by simp
  show thesis
  proof (cases x)
    case (Return u)
    show thesis
    proof (cases "snd polled")
      case (AppPanic p live)
      then have "unwind_past live p t1 = (r, t')" using assms x Return by (simp add: run_poll_def split_beta)
      then show thesis by (rule unwind_past_frame) (use that [OF x] Return in auto)
    qed (use that [OF x, of "ex_reactor t1"] assms x Return id in \<open>auto simp: run_poll_def split_beta\<close>)
  qed (use that [OF x, of "ex_reactor t1"] assms x id in \<open>auto simp: run_poll_def split_beta\<close>)
qed

lemma run_poll_step:
  assumes st: "step_ok b s t" and b: "b < buckets s" and a: "unat a = b"
    and cs: "list_all (\<lambda>c. call_ok (http_count s) b (fst c)) (fst polled)" and p: "run_poll app a polled t = (r, t')"
  shows "step_ok b s t' \<and> r \<noteq> UndefinedBehaviour \<and> ex_futures t' = ex_futures t \<and>
    (\<forall>f. (r = Return (Pending, f) \<longrightarrow> snd polled = AppPending f) \<and> (r = Return (Ready (), f) \<longrightarrow> snd polled = AppReady f)) \<and>
    ((\<exists>v. r = Return v) \<longrightarrow> running b t \<longrightarrow> running b t')"
proof -
  obtain x t1 re where x: "run_calls app a (fst polled) t = (x, t1)" "t' = t1\<lparr>ex_reactor := re\<rparr>"
      "x = UndefinedBehaviour \<longleftrightarrow> r = UndefinedBehaviour"
    by (rule run_poll_cases [OF p]) blast
  have ret: "x = Return () \<and> snd polled = (case v of (Pending, f) \<Rightarrow> AppPending f | (Ready _, f) \<Rightarrow> AppReady f)"
    if "r = Return v" for v
  proof (cases v)
    case (Pair pl f)
    show ?thesis
      by (rule run_poll_cases [OF p, of f]) (use x(1) that Pair in \<open>cases pl; auto\<close>)
  qed
  note step = run_calls_step [OF st b a cs x(1)]
  have "running b t' = running b t1" by (simp add: x(2) running_def count_ok_def)
  then show ?thesis using step ret x(2,3) by (auto simp: step_other)
qed

lemma run_poll_conn:
  assumes "list_all (\<lambda>c. conn_call_ok (fst c)) (fst polled)" and p: "run_poll app a polled t = (r, t')"
  shows "same_tables t t'"
  by (rule run_poll_cases [OF p]) (use conn_calls_keep [OF assms(1)] in auto)

text \<open>A poll that is ready leaves the count one too high; \<open>finish_job\<close> corrects it.\<close>

definition one_too_many :: "nat \<Rightarrow> ('f, 'c) executor \<Rightarrow> bool" where
  "one_too_many b s \<longleftrightarrow>
     unat (ex_refcounts s ! b) = Suc ((if ex_futures s ! b = None then 0 else 1) + live_conns s b)"

lemma poll_input_step:
  assumes st: "step_ok b s t" and b: "b < buckets s" and a: "unat a = b" and app: "app_ok home (http_count s) app"
    and home: "home_ok home t b"
    and qi: "to_bucket_index qi (ex_io s) = Ok bi" "unat (bi_index bi) = b" and cnt: "count_ok t b"
    and p: "poll_input_stream app a b qi t = (r, t')"
  shows "step_ok b s t' \<and> r \<noteq> UndefinedBehaviour \<and> ((\<exists>v. r = Return v) \<longrightarrow> home_ok home t' b) \<and>
    (r = Return Pending \<longrightarrow> count_ok t' b) \<and> (r = Return (Ready ()) \<longrightarrow> one_too_many b t')"
proof (cases "ex_futures t ! b")
  case None
  then show ?thesis using p st by (auto simp: poll_input_stream_def Let_def)
next
  case (Some fut)
  let ?ap = "ap_poll app fut (waker_for qi)"
  obtain x t1 where x: "run_poll app a ?ap t = (x, t1)" by (cases "run_poll app a ?ap t")
  have hf: "home fut = b" using home Some by (simp add: home_ok_def)
  note step = run_poll_step [OF st b a app_okD(1) [OF app hf] x]
  have fl: "b < length (ex_futures t1)" and io: "ex_io t1 = ex_io s" and tl: "b < length (ex_tcp_streams t1)"
    using step b by (auto simp: step_ok_def shape_ok_def)
  have run: "running b t" using Some cnt by (simp add: running_def)
  have fut: "step_ok b s (t1\<lparr>ex_futures := (ex_futures t1)[b := v]\<rparr>)" for v
    using step_future [of b s t1 v] step by simp
  show ?thesis
  proof (cases x)
    case (Return v)
    then have "running b t1" using step run by simp
    then have c1: "count_ok t1 b" "ex_futures t1 ! b \<noteq> None" by (simp_all add: running_def)
    obtain pl f where v: "v = (pl, f)" by (cases v)
    show ?thesis
    proof (cases pl)
      case Pending
      then have "home f = b" using app_okD(2) [OF app] step Return v hf by metis
      then show ?thesis
        using p Some x Return v Pending fut c1 fl
        by (auto simp: poll_input_stream_def Let_def count_ok_def home_ok_def)
    next
      case (Ready u)
      let ?t2 = "t1\<lparr>ex_futures := (ex_futures t1)[b := None], ex_closed := ex_tcp_streams t1 ! b # ex_closed t1\<rparr>"
      obtain y t3 where y: "drop_owned (ap_streams app f) ?t2 = (y, t3)" by (cases "drop_owned (ap_streams app f) ?t2")
      obtain re where re: "t3 = ?t2\<lparr>ex_reactor := re\<rparr>" "y = Return () \<or> (\<exists>p. y = Unwind p) \<or> y = Abort"
        by (rule drop_owned_frame [OF y])
      have "step_ok b s ?t2" using fut [of None] by (simp add: step_other)
      moreover have "t' = t3" "r = Return Pending \<longrightarrow> False" "r \<noteq> UndefinedBehaviour"
        using p Some x Return v Ready qi io tl y re(2)
        by (auto simp: poll_input_stream_def Let_def index_slice_def)
      ultimately show ?thesis
        using re(1) c1 fl by (simp add: step_other one_too_many_def count_ok_def home_ok_def)
    qed
  next
    case (Unwind q)
    then show ?thesis using p Some x fut by (auto simp: poll_input_stream_def Let_def)
  next
    case (LongJmp v)
    then show ?thesis using p Some x fut by (auto simp: poll_input_stream_def Let_def)
  qed (use p Some x step home in \<open>auto simp: poll_input_stream_def Let_def\<close>)
qed

lemma poll_connection_step:
  assumes st: "step_ok b s t" and b: "b < buckets s" and a: "unat a = b" and app: "app_ok home (http_count s) app"
    and k: "b * http_count s \<le> k" "k < b * http_count s + http_count s" and cnt: "count_ok t b"
    and p: "poll_http_connection app a k qi t = (r, t')"
  shows "step_ok b s t' \<and> r \<noteq> UndefinedBehaviour \<and> ex_futures t' = ex_futures t \<and>
    (case r of
       Return (Ready Legit) \<Rightarrow> one_too_many b t'
     | Unwind _ \<Rightarrow> ex_connections t' ! k \<noteq> Empty \<longrightarrow> count_ok t' b
     | Abort \<Rightarrow> True
     | _ \<Rightarrow> count_ok t' b)"
proof (cases "ex_connections t ! k")
  case Empty
  then show ?thesis using p st cnt by (auto simp: poll_http_connection_def Let_def)
next
  case Reserved
  then show ?thesis using p st cnt by (auto simp: poll_http_connection_def Let_def)
next
  case (Occupied conn)
  let ?ap = "ap_poll_connection app conn (waker_for qi)"
  obtain x t1 where x: "run_poll app a ?ap t = (x, t1)" by (cases "run_poll app a ?ap t")
  note cc = app_okD(3) [OF app, of conn "waker_for qi"]
  note step = run_poll_step [OF st b a conn_calls_are_calls [OF cc] x]
  have keep: "ex_futures t1 = ex_futures t" "ex_connections t1 = ex_connections t" "ex_refcounts t1 = ex_refcounts t"
    "ex_io t1 = ex_io t"
    using run_poll_conn [OF cc x] by (simp_all add: same_tables_def)
  have sh: "shape_ok t1" and bt: "b < buckets t1" and H: "http_count t1 = http_count s"
    using step b by (auto simp: step_ok_def http_count_def)
  have kl: "k < length (ex_connections t1)"
    using k H bt sh mult_le_mono1 [of "Suc b" "buckets t1" "http_count t1"] by (simp add: shape_ok_def)
  have occ: "ex_connections t1 ! k = Occupied conn" using keep Occupied by simp
  have lc: "live_conns t1 b = live_conns t b"
    using keep by (simp add: live_conns_def conns_of_def http_count_def)
  have c1: "count_ok t1 b" using cnt keep lc by (simp add: count_ok_def)
  have upd: "step_ok b s (t1\<lparr>ex_connections := (ex_connections t1)[k := v]\<rparr>)" for v
    using step_connection [OF conjunct1 [OF step] kl k] .
  note lu = live_conns_update [OF sh bt, of k, unfolded H, OF k]
  show ?thesis
  proof (cases x)
    case (Return v)
    obtain pl c where v: "v = (pl, c)" by (cases v)
    show ?thesis
    proof (cases pl)
      case Pending
      then have "r = Return Pending" "t' = t1\<lparr>ex_connections := (ex_connections t1)[k := Occupied c]\<rparr>"
        using p Occupied x Return v by (auto simp: poll_http_connection_def Let_def)
      then show ?thesis using upd lu [of "Occupied c"] occ c1 keep by (simp add: count_ok_def)
    next
      case (Ready u)
      let ?t2 = "t1\<lparr>ex_connections := (ex_connections t1)[k := Empty]\<rparr>"
      obtain y t3 where y: "drop_owned (ap_conn_streams app c) ?t2 = (y, t3)"
        by (cases "drop_owned (ap_conn_streams app c) ?t2")
      obtain re where re: "t3 = ?t2\<lparr>ex_reactor := re\<rparr>" "y = Return () \<or> (\<exists>p. y = Unwind p) \<or> y = Abort"
        by (rule drop_owned_frame [OF y])
      have r: "t' = t3" "r = (case y of Return _ \<Rightarrow> Return (Ready Legit) | Unwind p \<Rightarrow> Unwind p | _ \<Rightarrow> Abort)"
        using p Occupied x Return v Ready y re(2) by (auto simp: poll_http_connection_def Let_def)
      have "step_ok b s t3" "ex_connections t3 ! k = Empty" "one_too_many b t3"
        using upd [of Empty] lu [of Empty] occ c1 keep kl re(1) by (simp_all add: step_other count_ok_def one_too_many_def)
      then show ?thesis using r re keep by (auto split: control.splits)
    qed
  next
    case (LongJmp v)
    then obtain c where "r = LongJmp v" "t' = t1\<lparr>ex_connections := (ex_connections t1)[k := Occupied c]\<rparr>"
      using p Occupied x by (auto simp: poll_http_connection_def Let_def)
    then show ?thesis using upd lu [of "Occupied c"] occ c1 keep by (simp add: count_ok_def)
  qed (use p Occupied x step c1 keep in \<open>auto simp: poll_http_connection_def Let_def\<close>)
qed

subsection \<open>Emptying a bucket\<close>

text \<open>A bucket without a request: nothing is stored for it and its memory is all free.\<close>

definition bucket_empty :: "('f, 'c) executor \<Rightarrow> nat \<Rightarrow> bool" where
  "bucket_empty s b \<longleftrightarrow>
     ex_refcounts s ! b = 0 \<and> ex_futures s ! b = None \<and> list_all (\<lambda>c. c = Empty) (conns_of s b) \<and>
     bk_remaining (sa_buckets (ex_alloc s) ! b) = bk_size (sa_buckets (ex_alloc s) ! b)"

lemma live_conns_0: "live_conns s b = 0 \<longleftrightarrow> list_all (\<lambda>c. c = Empty) (conns_of s b)"
  by (auto simp: live_conns_def count_if_0_iff list_all_length)

lemma drop_owned_cases:
  assumes "drop_owned tss t = (r, t')"
  obtains "r = Return ()" | p where "r = Unwind p" | "r = Abort"
  using drop_owned_frame [OF assms] by metis

lemma empty_slots_step:
  assumes "step_ok b s t" and "b < buckets s"
    and "\<forall>k \<in> set ks. b * http_count s \<le> k \<and> k < b * http_count s + http_count s"
    and "empty_slots app ks t = (r, t')"
  shows "step_ok b s t' \<and> t' = t\<lparr>ex_connections := ex_connections t', ex_reactor := ex_reactor t'\<rparr> \<and>
    (r = Return () \<or> (\<exists>p. r = Unwind p) \<or> r = Abort) \<and>
    (\<forall>k. ex_connections t ! k = Empty \<longrightarrow> ex_connections t' ! k = Empty) \<and>
    (r = Return () \<longrightarrow> (\<forall>k \<in> set ks. ex_connections t' ! k = Empty))"
  using assms(1,3,4)
proof (induction ks arbitrary: t)
  case (Cons k ks)
  have sh: "shape_ok t" and H: "http_count t = http_count s" and bt: "buckets t = buckets s"
    using Cons.prems(1) by (simp_all add: step_ok_def http_count_def)
  have k: "b * http_count s \<le> k" "k < b * http_count s + http_count s" using Cons.prems(2) by simp_all
  have kl: "k < length (ex_connections t)"
    using k H bt sh assms(2) mult_le_mono1 [of "Suc b" "buckets t" "http_count t"] by (simp add: shape_ok_def)
  let ?t1 = "t\<lparr>ex_connections := (ex_connections t)[k := Empty]\<rparr>"
  obtain x t2 where x: "drop_owned (slot_streams app (ex_connections t ! k)) ?t1 = (x, t2)"
    by (cases "drop_owned (slot_streams app (ex_connections t ! k)) ?t1")
  obtain re where re: "t2 = ?t1\<lparr>ex_reactor := re\<rparr>" using drop_owned_frame [OF x] by metis
  have st2: "step_ok b s t2"
    using step_connection [OF Cons.prems(1) kl k, of Empty] by (simp add: re step_other)
  have emp: "ex_connections t ! i = Empty \<longrightarrow> ex_connections t2 ! i = Empty" "ex_connections t2 ! k = Empty" for i
    using kl by (auto simp: re nth_list_update)
  show ?case
    using x
  proof (cases rule: drop_owned_cases)
    case 1
    then have "empty_slots app ks t2 = (r, t')" using Cons.prems(3) kl x by simp
    from Cons.IH [OF st2 _ this] Cons.prems(2) have IH: "step_ok b s t'"
      "t' = t2\<lparr>ex_connections := ex_connections t', ex_reactor := ex_reactor t'\<rparr>"
      "r = Return () \<or> (\<exists>p. r = Unwind p) \<or> r = Abort"
      "\<forall>k. ex_connections t2 ! k = Empty \<longrightarrow> ex_connections t' ! k = Empty"
      "r = Return () \<longrightarrow> (\<forall>k \<in> set ks. ex_connections t' ! k = Empty)" by simp_all
    moreover have "t' = t\<lparr>ex_connections := ex_connections t', ex_reactor := ex_reactor t'\<rparr>"
      by (subst IH(2)) (simp add: re)
    ultimately show ?thesis using emp by auto
  qed (use Cons.prems(3) kl x st2 re emp in auto)
qed simp

lemma cleared_bucket:
  assumes "clear_bucket i al = Ok al'"
  shows "bk_remaining (sa_buckets al' ! i) = bk_size (sa_buckets al' ! i)"
  using assms by (auto simp: clear_bucket_def bind_outcome_Ok_iff)

text \<open>The stages of \<open>cleanup_bucket\<close>: the connections are emptied with result \<open>x\<close>, the future is dropped with result \<open>y\<close>.\<close>

abbreviation answered ::
    "('f, 'c) application \<Rightarrow> nat \<Rightarrow> cleanup_reason \<Rightarrow> ('f, 'c) executor \<Rightarrow> ('f, 'c) executor" where
  "answered app b reason t \<equiv>
     t\<lparr>ex_sent := (ex_tcp_streams t ! b, fst (send_error_response app (ex_tcp_streams t ! b) reason)) # ex_sent t,
       ex_closed := ex_tcp_streams t ! b # ex_closed t\<rparr>"

lemma cleanup_stages:
  assumes st: "step_ok b s t" and b: "b < buckets s" and bi: "unat (bi_index bi) = b"
  obtains x t2 y t4 al where
    "empty_slots app [b * http_count s..<b * http_count s + http_count s] (answered app b reason t) = (x, t2)"
    "step_ok b s t2" "t2 = (answered app b reason t)\<lparr>ex_connections := ex_connections t2, ex_reactor := ex_reactor t2\<rparr>"
    "x = Return () \<or> (\<exists>p. x = Unwind p) \<or> x = Abort"
    "x = Return () \<longrightarrow> list_all (\<lambda>c. c = Empty) (conns_of t2 b)"
    "drop_owned (future_streams app (ex_futures t2 ! b)) (t2\<lparr>ex_futures := (ex_futures t2)[b := None]\<rparr>) = (y, t4)"
    "clear_bucket b (ex_alloc t2) = Ok al"
    "cleanup_bucket app bi reason t =
      (case x of Return _ \<Rightarrow>
         (case y of Return _ \<Rightarrow> (Return (), t4\<lparr>ex_alloc := al, ex_refcounts := (ex_refcounts t4)[b := 0]\<rparr>) | _ \<Rightarrow> (y, t4))
       | _ \<Rightarrow> (x, t2))"
proof -
  let ?t1 = "answered app b reason t"
  have sh: "shape_ok t" and bt: "b < buckets t" and H: "http_count t = http_count s"
    using st b by (simp_all add: step_ok_def http_count_def)
  have len: "b < length (ex_tcp_streams t)" using sh bt by (auto simp: shape_ok_def)
  obtain start stop where rg: "http_connections_range (ex_io t) bi = (start, stop)"
    by (cases "http_connections_range (ex_io t) bi")
  note range = connection_range [OF sh bi bt, unfolded rg fst_conv snd_conv H]
  let ?ks = "[b * http_count s..<b * http_count s + http_count s]"
  have t1: "step_ok b s ?t1" using st by (simp add: step_other)
  obtain x t2 where x: "empty_slots app ?ks ?t1 = (x, t2)" by (cases "empty_slots app ?ks ?t1")
  have E: "step_ok b s t2" "t2 = ?t1\<lparr>ex_connections := ex_connections t2, ex_reactor := ex_reactor t2\<rparr>"
    "x = Return () \<or> (\<exists>p. x = Unwind p) \<or> x = Abort" "x = Return () \<longrightarrow> (\<forall>k \<in> set ?ks. ex_connections t2 ! k = Empty)"
    using empty_slots_step [OF t1 b _ x] by auto
  have len2: "b < length (ex_futures t2)" "b < length (ex_refcounts t2)" "b < length (sa_buckets (ex_alloc t2))"
    using E(1) b by (auto simp: step_ok_def shape_ok_def buckets_def)
  have "x = Return () \<longrightarrow> list_all (\<lambda>c. c = Empty) (conns_of t2 b)"
    using E(4) length_conns_of [OF step_shape [OF E(1)], of b] b step_buckets [OF E(1)] step_io [OF E(1)]
    by (auto simp: list_all_length conns_of_def http_count_def)
  moreover obtain y t4 where y: "drop_owned (future_streams app (ex_futures t2 ! b)) (t2\<lparr>ex_futures := (ex_futures t2)[b := None]\<rparr>) = (y, t4)"
    by fastforce
  moreover obtain al where al: "clear_bucket b (ex_alloc t2) = Ok al" using clear_bucket_eq [OF len2(3)] by blast
  moreover have "ex_alloc t4 = ex_alloc t2" "ex_refcounts t4 = ex_refcounts t2" by (rule drop_owned_frame [OF y]; simp)+
  then have "cleanup_bucket app bi reason t =
      (case x of Return _ \<Rightarrow>
         (case y of Return _ \<Rightarrow> (Return (), t4\<lparr>ex_alloc := al, ex_refcounts := (ex_refcounts t4)[b := 0]\<rparr>) | _ \<Rightarrow> (y, t4))
       | _ \<Rightarrow> (x, t2))"
    using len len2 al y x rg range(1,2)
    by (cases x; cases y) (simp_all add: cleanup_bucket_def bi Let_def index_slice_def)
  ultimately show thesis using that [OF x E(1-3)] by blast
qed

lemma cleanup_step:
  assumes st: "step_ok b s t" and b: "b < buckets s" and bi: "unat (bi_index bi) = b"
    and run: "cleanup_bucket app bi reason t = (r, t')"
  shows "step_ok b s t' \<and> ex_closed t' = ex_tcp_streams t ! b # ex_closed t \<and>
    ex_sent t' = (ex_tcp_streams t ! b, fst (send_error_response app (ex_tcp_streams t ! b) reason)) # ex_sent t \<and>
    (r = Return () \<and> bucket_empty t' b \<or> (\<exists>p. r = Unwind p) \<or> r = Abort)"
proof (rule cleanup_stages [OF st b bi, of app reason])
  fix x t2 y t4 al
  assume t2: "step_ok b s t2" "t2 = (answered app b reason t)\<lparr>ex_connections := ex_connections t2, ex_reactor := ex_reactor t2\<rparr>"
    and x: "x = Return () \<or> (\<exists>p. x = Unwind p) \<or> x = Abort" "x = Return () \<longrightarrow> list_all (\<lambda>c. c = Empty) (conns_of t2 b)"
    and y: "drop_owned (future_streams app (ex_futures t2 ! b)) (t2\<lparr>ex_futures := (ex_futures t2)[b := None]\<rparr>) = (y, t4)"
    and al: "clear_bucket b (ex_alloc t2) = Ok al"
    and e: "cleanup_bucket app bi reason t =
      (case x of Return _ \<Rightarrow>
         (case y of Return _ \<Rightarrow> (Return (), t4\<lparr>ex_alloc := al, ex_refcounts := (ex_refcounts t4)[b := 0]\<rparr>) | _ \<Rightarrow> (y, t4))
       | _ \<Rightarrow> (x, t2))"
  obtain re where re: "t4 = t2\<lparr>ex_futures := (ex_futures t2)[b := None], ex_reactor := re\<rparr>"
    and y': "y = Return () \<or> (\<exists>p. y = Unwind p) \<or> y = Abort" by (rule drop_owned_frame [OF y])
  have t4: "step_ok b s t4" using step_future [OF t2(1)] by (simp add: re step_other)
  have fds: "ex_closed t2 = ex_tcp_streams t ! b # ex_closed t"
    "ex_sent t2 = (ex_tcp_streams t ! b, fst (send_error_response app (ex_tcp_streams t ! b) reason)) # ex_sent t"
    by (subst t2(2), simp)+
  show ?thesis
  proof (cases "x = Return () \<and> y = Return ()")
    case True
    then have t': "r = Return ()" "t' = t4\<lparr>ex_alloc := al, ex_refcounts := (ex_refcounts t4)[b := 0]\<rparr>" using run e by auto
    have "step_ok b s (t4\<lparr>ex_alloc := al\<rparr>)"
      by (rule step_alloc [OF t4]) (use clear_bucket_frame [OF al] in \<open>simp_all add: re\<close>)
    then have "step_ok b s t'" using step_refcount [of b s "t4\<lparr>ex_alloc := al\<rparr>" 0] t'(2) by simp
    moreover have "b < length (ex_futures t2)" "b < length (ex_refcounts t2)"
      using t2(1) b by (auto simp: step_ok_def shape_ok_def buckets_def)
    then have "bucket_empty t' b"
      using t'(2) x(2) True cleared_bucket [OF al] by (simp add: bucket_empty_def re conns_of_def http_count_def)
    ultimately show ?thesis using t' fds by (simp add: re)
  next
    case False
    then have "(t' = t2 \<or> t' = t4) \<and> ((\<exists>p. r = Unwind p) \<or> r = Abort)"
      using run e x(1) y' by auto
    then show ?thesis using t2(1) t4 fds by (auto simp: re)
  qed
qed

text \<open>The end of a job whose poll was ready.\<close>

lemma finish_job_step:
  assumes st: "step_ok b s t" and b: "b < buckets s" and bi: "unat (bi_index bi) = b"
    and c: "one_too_many b t" and f: "finish_job bi t = (r, t')"
  shows "step_ok b s t' \<and> count_ok t' b \<and> ex_futures t' = ex_futures t \<and>
    (r = Continue \<or> r = Finish Forever \<and> bucket_empty t' b)"
proof -
  have sh: "shape_ok t" and bt: "b < buckets t" using st b by (simp_all add: step_ok_def)
  have len: "b < length (ex_refcounts t)" "b < length (sa_buckets (ex_alloc t))"
    using sh bt by (auto simp: shape_ok_def buckets_def)
  obtain al where al: "clear_bucket b (ex_alloc t) = Ok al" using clear_bucket_eq [OF len(2)] by blast
  let ?rc = "ex_refcounts t ! b"
  show ?thesis
  proof (cases "?rc = 1")
    case True
    then have t': "r = Finish Forever" "t' = t\<lparr>ex_alloc := al, ex_refcounts := (ex_refcounts t)[b := 0]\<rparr>"
      using f al len bi by (auto simp: finish_job_def Let_def index_slice_def)
    have "step_ok b s (t\<lparr>ex_alloc := al\<rparr>)" by (rule step_alloc [OF st clear_bucket_frame [OF al]])
    then have s': "step_ok b s t'" using step_refcount [of b s "t\<lparr>ex_alloc := al\<rparr>" 0] t'(2) by simp
    have z: "ex_futures t ! b = None" "live_conns t b = 0"
      using c True by (auto simp: one_too_many_def split: if_splits)
    then have "bucket_empty t' b"
      using len cleared_bucket [OF al] t'(2) live_conns_0 [of t' b]
      by (simp add: bucket_empty_def)
    then show ?thesis using s' t' z len by (simp add: count_ok_def)
  next
    case False
    then have t': "r = Continue" "t' = t\<lparr>ex_refcounts := (ex_refcounts t)[b := ?rc - 1]\<rparr>"
      using f len bi by (auto simp: finish_job_def Let_def index_slice_def)
    have "?rc \<noteq> 0" using c by (auto simp: one_too_many_def)
    then have "Suc (unat (?rc - 1)) = unat ?rc" by (simp add: unat_minus_one_pos unat_gt_0)
    then show ?thesis using t' step_refcount [OF st] c len by (simp add: count_ok_def one_too_many_def)
  qed
qed

subsection \<open>One job\<close>

text \<open>The state after the job has been taken from the mask.\<close>

lemma dequeue_step:
  assumes sh: "shape_ok s" and b: "b < buckets s"
    and d: "dequeue_slot (queue (ex_queue s) ! b) = (Some j, slot)"
  shows "step_ok b s (s\<lparr>ex_queue := (ex_queue s)\<lparr>queue := (queue (ex_queue s))[b := slot]\<rparr>\<rparr>)"
    and "j < slot_count s"
proof -
  let ?q = "ex_queue s"
  have q: "queue_inv ?q" "b < length (queue ?q)" and jobs: "jobs_ok (slot_count s) (queue ?q)"
    using sh b by (auto simp: shape_ok_def)
  note sl = dequeue_slot_Some [OF d]
  show "j < slot_count s" using jobs q(2) sl(1) by (auto simp: jobs_ok_def)
  have "slot_ok (queue ?q ! b)" using q by (auto simp: queue_inv_def list_all_length)
  then have "queue_inv (?q\<lparr>queue := (queue ?q)[b := slot]\<rparr>)"
    by (intro queue_inv_update [OF q, of slot]) (use sl(4) in \<open>auto simp: slot_ok_def claimable_def\<close>)
  moreover have "\<forall>i. bit (jobs slot) i \<longrightarrow> i < slot_count s"
    using jobs q(2) sl(4) by (auto simp: jobs_ok_def bit_unset_bit_iff)
  ultimately show "step_ok b s (s\<lparr>ex_queue := ?q\<lparr>queue := (queue ?q)[b := slot]\<rparr>\<rparr>)"
    by (intro step_queue [OF step_refl [OF sh]]) simp_all
qed

lemma job_index:
  assumes sh: "shape_ok s" and b: "unat (bi_index bi) = b" "b < buckets s" and j: "j < slot_count s"
    and qi: "qi = \<lparr>qi_identifier = 0, qi_index = bi_index bi * ucast (per_bucket (ex_io s)) + of_nat j\<rparr>"
  shows "unat (qi_index qi) = b * slot_count s + j"
proof -
  have wf: "io_wf (ex_io s)" and b1: "b < 1000" using sh b(2) by (auto simp: shape_ok_def)
  have p: "slot_count s \<le> 64" using wf by (simp add: io_wf_def slot_count_def)
  have "b * slot_count s \<le> 999 * 64" using b1 p by (intro mult_le_mono) auto
  then show ?thesis
    using b(1) j p unat_per_bucket_u32 [OF wf]
    by (simp add: qi unat_word_ariths slot_count_def unat_of_nat)
qed

text \<open>What one turn of \<open>run_bucket\<close> comes to, for each kind of job.\<close>

abbreviation job_queue_index :: "('f, 'c) executor \<Rightarrow> bucket_index \<Rightarrow> nat \<Rightarrow> queue_index" where
  "job_queue_index s bi j \<equiv>
     \<lparr>qi_identifier = 0, qi_index = bi_index bi * ucast (per_bucket (ex_io s)) + of_nat j\<rparr>"

abbreviation own_bucket :: "nat \<Rightarrow> bucket_index" where
  "own_bucket b \<equiv> \<lparr>bi_identifier = 0, bi_index = of_nat b\<rparr>"

abbreviation dequeued :: "('f, 'c) executor \<Rightarrow> nat \<Rightarrow> queue_slot \<Rightarrow> ('f, 'c) executor" where
  "dequeued s b slot \<equiv> s\<lparr>ex_queue := (ex_queue s)\<lparr>queue := (queue (ex_queue s))[b := slot]\<rparr>\<rparr>"

abbreviation job_connection :: "('f, 'c) executor \<Rightarrow> nat \<Rightarrow> nat \<Rightarrow> nat" where
  "job_connection s b j \<equiv> b * http_count s + (j - unat (tcp_streams (ex_io s)))"

lemma own_bucket_index: "shape_ok s \<Longrightarrow> b < buckets s \<Longrightarrow> unat (bi_index (own_bucket b)) = b"
  by (simp add: shape_ok_def unat_of_nat)

lemma run_job_indices:
  assumes "shape_ok s" and "b < buckets s" and "unat (bi_index bi) = b"
    and "dequeue_slot (queue (ex_queue s) ! b) = (Some j, slot)"
  shows "to_bucket_index (job_queue_index s bi j) (ex_io s) = Ok (own_bucket b)"
    and "from_index (ex_io s) (job_queue_index s bi j) =
      (if j = 0 then Ok (InputStream (own_bucket b))
       else if j < unat (tcp_streams (ex_io s)) then Panic Todo
       else Ok (HttpConnection \<lparr>ci_identifier = 0, ci_index = of_nat (job_connection s b j)\<rparr>))"
proof -
  have j: "j < slot_count s" by (rule dequeue_step(2) [OF assms(1,2,4)])
  have qi: "unat (qi_index (job_queue_index s bi j)) = b * slot_count s + j"
    by (rule job_index [OF assms(1,3,2) j refl])
  have wf: "io_wf (ex_io s)" and b: "b < 1000" using assms(1,2) by (auto simp: shape_ok_def)
  show "to_bucket_index (job_queue_index s bi j) (ex_io s) = Ok (own_bucket b)"
    using to_bucket_index_spec [OF wf, of _ b j, folded slot_count_def, OF qi j b] by simp
  show "from_index (ex_io s) (job_queue_index s bi j) =
      (if j = 0 then Ok (InputStream (own_bucket b))
       else if j < unat (tcp_streams (ex_io s)) then Panic Todo
       else Ok (HttpConnection \<lparr>ci_identifier = 0, ci_index = of_nat (job_connection s b j)\<rparr>))"
    unfolding from_index_spec [OF wf, of _ b j, folded slot_count_def, OF qi j b] by (simp add: http_count_def)
qed

lemma job_connection_bounds:
  assumes "shape_ok s" and "b < buckets s" and "j < slot_count s" and "\<not> j < unat (tcp_streams (ex_io s))"
  shows "b * http_count s \<le> job_connection s b j"
    and "job_connection s b j < b * http_count s + http_count s"
    and "job_connection s b j < length (ex_connections s)"
    and "unat (of_nat (job_connection s b j) :: u32) = job_connection s b j"
proof -
  have wf: "io_wf (ex_io s)" and b: "b < 1000" using assms(1,2) by (auto simp: shape_ok_def)
  have jk: "j - unat (tcp_streams (ex_io s)) < http_count s"
    using assms(3,4) by (simp add: slot_count_def http_count_def)
  show "b * http_count s \<le> job_connection s b j" by simp
  show k: "job_connection s b j < b * http_count s + http_count s" using jk by simp
  have "b * http_count s + http_count s \<le> length (ex_connections s)"
    using assms(1,2) mult_le_mono1 [of "Suc b" "buckets s" "http_count s"] by (simp add: shape_ok_def)
  with k show "job_connection s b j < length (ex_connections s)" by simp
  have h64: "http_count s \<le> 64" using wf by (simp add: io_wf_def http_count_def)
  have "b * http_count s \<le> 999 * 64" using b h64 by (intro mult_le_mono) auto
  then show "unat (of_nat (job_connection s b j) :: u32) = job_connection s b j"
    using jk h64 by (intro unat_of_nat_small) simp
qed

lemma run_job_input:
  assumes "shape_ok s" and "b < buckets s" and "unat (bi_index bi) = b"
    and "dequeue_slot (queue (ex_queue s) ! b) = (Some j, slot)" and "j = 0"
    and "poll_input_stream app (bi_index bi) b (job_queue_index s bi j) (dequeued s b slot) = (x, t)"
  shows "run_job app bi s = (case x of
      Unwind _ \<Rightarrow> clean_and_finish app (own_bucket b) CleanupPanic Panicked t
    | LongJmp _ \<Rightarrow> clean_and_finish app (own_bucket b) CleanupOutOfMemory OutOfMemory t
    | UndefinedBehaviour \<Rightarrow> (ThreadUndefined, t)
    | Abort \<Rightarrow> (ProcessAbort, t)
    | Return Pending \<Rightarrow> (Continue, t)
    | Return (Ready _) \<Rightarrow> finish_job bi t)"
proof -
  have i: "from_index (ex_io s) (job_queue_index s bi j) = Ok (InputStream (own_bucket b))"
    using run_job_indices(2) [OF assms(1-4)] assms(5) by simp
  have "b < length (ex_futures s)" using assms(1,2) by (simp add: shape_ok_def)
  then show ?thesis
    using assms(6) own_bucket_index [OF assms(1,2)]
    by (cases x) (simp_all add: run_job_def Let_def assms(3,4) i split: poll.split)
qed

lemma run_job_connection:
  assumes "shape_ok s" and "b < buckets s" and "unat (bi_index bi) = b"
    and "dequeue_slot (queue (ex_queue s) ! b) = (Some j, slot)" and "j \<noteq> 0" and "\<not> j < unat (tcp_streams (ex_io s))"
    and "poll_http_connection app (bi_index bi) (job_connection s b j) (job_queue_index s bi j) (dequeued s b slot) = (x, t)"
  shows "run_job app bi s = (case x of
      Unwind p \<Rightarrow> (if ex_connections t ! job_connection s b j = Empty then DropPanic p else ThreadPanic p, t)
    | LongJmp _ \<Rightarrow> clean_and_finish app bi CleanupOutOfMemory OutOfMemory t
    | UndefinedBehaviour \<Rightarrow> (ThreadUndefined, t)
    | Abort \<Rightarrow> (ProcessAbort, t)
    | Return Pending \<Rightarrow> (Continue, t)
    | Return (Ready AfterDeath) \<Rightarrow> (Continue, t)
    | Return (Ready Legit) \<Rightarrow> finish_job bi t)"
proof -
  have i: "from_index (ex_io s) (job_queue_index s bi j) =
      Ok (HttpConnection \<lparr>ci_identifier = 0, ci_index = of_nat (job_connection s b j)\<rparr>)"
    using run_job_indices(2) [OF assms(1-4)] assms(5,6) by simp
  note k = job_connection_bounds(3,4) [OF assms(1,2) dequeue_step(2) [OF assms(1,2,4)] assms(6)]
  show ?thesis
    using assms(7) k
    by (cases x) (simp_all add: run_job_def Let_def assms(3,4) i del: of_nat_add of_nat_mult
        split: poll.split hyper_wake.split slot.split)
qed

lemma run_job_unimplemented:
  assumes "shape_ok s" and "b < buckets s" and "unat (bi_index bi) = b"
    and "dequeue_slot (queue (ex_queue s) ! b) = (Some j, slot)" and "j \<noteq> 0" and "j < unat (tcp_streams (ex_io s))"
  shows "run_job app bi s = (ThreadPanic Todo, dequeued s b slot)"
  using run_job_indices(2) [OF assms(1-4)] assms(3-6) by (simp add: run_job_def Let_def)

text \<open>The four kinds of a turn.\<close>

lemma run_job_cases:
  assumes sh: "shape_ok s" and b: "b < buckets s" and bi: "unat (bi_index bi) = b"
  obtains (idle) "jobs (queue (ex_queue s) ! b) = 0" "run_job app bi s = (Finish ForNow, s)"
  | (input) slot x t where "dequeue_slot (queue (ex_queue s) ! b) = (Some 0, slot)"
      "poll_input_stream app (bi_index bi) b (job_queue_index s bi 0) (dequeued s b slot) = (x, t)"
  | (unimplemented) j slot where "dequeue_slot (queue (ex_queue s) ! b) = (Some j, slot)" "j \<noteq> 0"
      "run_job app bi s = (ThreadPanic Todo, dequeued s b slot)"
  | (connection) j slot x t where "dequeue_slot (queue (ex_queue s) ! b) = (Some j, slot)" "j \<noteq> 0"
      "\<not> j < unat (tcp_streams (ex_io s))"
      "poll_http_connection app (bi_index bi) (job_connection s b j) (job_queue_index s bi j) (dequeued s b slot) = (x, t)"
proof -
  obtain oj slot where d: "dequeue_slot (queue (ex_queue s) ! b) = (oj, slot)"
    by (cases "dequeue_slot (queue (ex_queue s) ! b)")
  show thesis
  proof (cases oj)
    case None
    then show thesis using idle d bi by (auto simp: run_job_def Let_def dequeue_slot_None)
  next
    case (Some j)
    note ds = d [unfolded Some]
    show thesis
    proof (cases "j = 0 \<or> \<not> j < unat (tcp_streams (ex_io s))")
      case True
      then show thesis using input connection ds by (metis surj_pair)
    next
      case False
      then show thesis using unimplemented [OF ds] run_job_unimplemented [OF sh b bi ds] by simp
    qed
  qed
qed

lemma clean_and_finish_step:
  assumes "clean_and_finish app c reason d t = (r, s')" and "step_ok b s t" and "b < buckets s"
    and "unat (bi_index c) = b"
  shows "step_ok b s s' \<and> ex_closed s' = ex_tcp_streams t ! b # ex_closed t \<and>
    ex_sent s' = (ex_tcp_streams t ! b, fst (send_error_response app (ex_tcp_streams t ! b) reason)) # ex_sent t \<and>
    (r = Finish d \<and> bucket_empty s' b \<or> (\<exists>p. r = DropPanic p) \<or> r = ProcessAbort)"
proof -
  obtain x t' where x: "cleanup_bucket app c reason t = (x, t')" by (cases "cleanup_bucket app c reason t")
  from cleanup_step [OF assms(2-4) x] assms(1) x show ?thesis by (auto simp: clean_and_finish_def)
qed

lemma bucket_empty_ok: "bucket_empty s b \<Longrightarrow> count_ok s b \<and> home_ok home s b"
  using live_conns_0 [of s b] by (simp add: count_ok_def bucket_empty_def home_ok_def)

text \<open>
  One turn of \<open>run_bucket\<close>, whatever the application does: only the own bucket changes, and a bucket that is
  done for ever, after an error or without, is empty. Unless a drop ended the worker or the process, the count
  of the bucket is right again.
\<close>

definition survives :: "job_result \<Rightarrow> bool" where
  "survives r \<longleftrightarrow> (case r of DropPanic _ \<Rightarrow> False | ProcessAbort \<Rightarrow> False | _ \<Rightarrow> True)"

lemma survives_simps [simp]:
  "survives Continue" "survives (Finish d)" "survives (ThreadPanic p)" "survives ThreadUndefined"
  "\<not> survives (DropPanic p)" "\<not> survives ProcessAbort"
  by (simp_all add: survives_def)

definition job_ok :: "('f \<Rightarrow> nat) \<Rightarrow> nat \<Rightarrow> ('f, 'c) executor \<Rightarrow> job_result \<Rightarrow> ('f, 'c) executor \<Rightarrow> bool" where
  "job_ok home b s r s' \<longleftrightarrow>
     step_ok b s s' \<and> (survives r \<longrightarrow> count_ok s' b \<and> home_ok home s' b) \<and> r \<noteq> ThreadUndefined \<and>
     (case r of Finish d \<Rightarrow> d \<noteq> ForNow \<longrightarrow> bucket_empty s' b | _ \<Rightarrow> True)"

lemma clean_and_finish_ok:
  "clean_and_finish app c reason d t = (r, s') \<Longrightarrow> step_ok b s t \<Longrightarrow> b < buckets s \<Longrightarrow> unat (bi_index c) = b \<Longrightarrow>
   job_ok home b s r s'"
  using clean_and_finish_step [of app c reason d t r s' b s] bucket_empty_ok [of s' b home] by (auto simp: job_ok_def)

lemma finish_job_ok:
  assumes "finish_job bi t = (r, s')" and "step_ok b s t" and "b < buckets s" and "unat (bi_index bi) = b"
    and "one_too_many b t" and "home_ok home t b"
  shows "job_ok home b s r s'"
  using finish_job_step [OF assms(2-5,1)] assms(6) by (auto simp: job_ok_def home_ok_def)

lemma run_job_step:
  assumes inv: "exec_inv home s" and b: "b < buckets s" and bi: "unat (bi_index bi) = b"
    and app: "app_ok home (http_count s) app" and run: "run_job app bi s = (r, s')"
  shows "job_ok home b s r s'"
proof -
  have sh: "shape_ok s" and cnt: "count_ok s b" and home: "home_ok home s b" using inv b by (auto simp: exec_inv_def)
  obtain oj slot where d: "dequeue_slot (queue (ex_queue s) ! b) = (oj, slot)"
    by (cases "dequeue_slot (queue (ex_queue s) ! b)")
  show ?thesis
  proof (cases oj)
    case None
    then show ?thesis
      using run d bi cnt home step_refl [OF sh] by (auto simp: run_job_def Let_def job_ok_def)
  next
    case (Some j)
    note d = d [unfolded Some]
    note dq = dequeue_step [OF sh b d]
    have c1: "count_ok (dequeued s b slot) b" and h1: "home_ok home (dequeued s b slot) b"
      using cnt home by (simp_all add: count_ok_def home_ok_def)
    note ub = own_bucket_index [OF sh b]
    consider "j = 0" | "j \<noteq> 0" "j < unat (tcp_streams (ex_io s))" | "j \<noteq> 0" "\<not> j < unat (tcp_streams (ex_io s))" by blast
    then show ?thesis
    proof cases
      case 1
      obtain x t where x: "poll_input_stream app (bi_index bi) b (job_queue_index s bi j) (dequeued s b slot) = (x, t)"
        by (cases "poll_input_stream app (bi_index bi) b (job_queue_index s bi j) (dequeued s b slot)")
      note p = poll_input_step [OF dq(1) b bi app h1 run_job_indices(1) [OF sh b bi d] ub c1 x]
      note e = run_job_input [OF sh b bi d 1 x]
      show ?thesis
      proof (cases x)
        case (Return y)
        then show ?thesis using p run e finish_job_ok [OF _ _ b bi, of t r s' home] by (cases y) (auto simp: job_ok_def)
      qed (use p run e clean_and_finish_ok [OF _ _ b ub] in \<open>auto simp: job_ok_def\<close>)
    next
      case 2
      then show ?thesis using run run_job_unimplemented [OF sh b bi d] dq(1) c1 h1 by (auto simp: job_ok_def)
    next
      case 3
      note k = job_connection_bounds [OF sh b dq(2) 3(2)]
      obtain x t where x: "poll_http_connection app (bi_index bi) (job_connection s b j) (job_queue_index s bi j)
          (dequeued s b slot) = (x, t)"
        by (cases "poll_http_connection app (bi_index bi) (job_connection s b j) (job_queue_index s bi j) (dequeued s b slot)")
      note p = poll_connection_step [OF dq(1) b bi app k(1,2) c1 x]
      note e = run_job_connection [OF sh b bi d 3 x]
      have ht: "home_ok home t b" using p h1 by (simp add: home_ok_def)
      show ?thesis
      proof (cases x)
        case (Return y)
        then show ?thesis
          using p run e ht finish_job_ok [OF _ _ b bi, of t r s' home]
          by (auto simp: job_ok_def split: poll.splits hyper_wake.splits)
      qed (use p run e ht clean_and_finish_ok [OF _ _ b bi] in \<open>auto simp: job_ok_def split: if_splits\<close>)
    qed
  qed
qed

subsection \<open>Accepting and waking\<close>


lemma zero_refcount_empty:
  assumes "exec_inv home s" and "b < buckets s" and "ex_refcounts s ! b = 0"
  shows "ex_futures s ! b = None" and "list_all (\<lambda>c. c = Empty) (conns_of s b)" and "live_conns s b = 0"
  using assms live_conns_0 [of s b] by (auto simp: exec_inv_def count_ok_def split: if_splits)

text \<open>Starting a request in a claimed bucket never panics.\<close>

lemma execute_step:
  assumes inv: "exec_inv home s" and b: "b < buckets s" and z: "ex_refcounts s ! b = 0" and h: "home fut = b"
  obtains s' where "execute fd \<lparr>bi_identifier = 0, bi_index = of_nat b\<rparr> fut
      (s\<lparr>ex_refcounts := (ex_refcounts s)[b := 1]\<rparr>) = (Ok (), s')"
    and "step_ok b s s'" and "exec_inv home s'" and "ex_futures s' ! b = Some fut"
    and "ex_refcounts s' ! b = 1" and "ex_tcp_streams s' ! b = fd" and "bit (jobs (queue (ex_queue s') ! b)) 0"
proof -
  let ?b = "\<lparr>bi_identifier = 0, bi_index = of_nat b\<rparr> :: bucket_index"
  let ?t = "s\<lparr>ex_refcounts := (ex_refcounts s)[b := 1], ex_futures := (ex_futures s)[b := Some fut],
    ex_tcp_streams := (ex_tcp_streams s)[b := fd]\<rparr>"
  have sh: "shape_ok s" using inv by (simp add: exec_inv_def)
  have len: "b < length (ex_futures s)" "b < length (ex_tcp_streams s)" "b < length (ex_refcounts s)" "b < 1000"
    "io_wf (ex_io s)"
    using sh b by (auto simp: shape_ok_def buckets_def)
  have ub: "unat (bi_index ?b) = b" using len by (simp add: unat_of_nat)
  note e = zero_refcount_empty [OF inv b z]
  have set: "set_future fd ?b fut (s\<lparr>ex_refcounts := (ex_refcounts s)[b := 1]\<rparr>) = (Ok (), ?t)"
    using len e(1) ub by (simp add: set_future_def Let_def)
  have st: "step_ok b s ?t"
    using step_tcp_stream [OF step_future [OF step_refcount [OF step_refl [OF sh]]], of b 1 "Some fut" fd] by simp
  have qi: "unat (qi_index (from_bucket_index (ex_io s) ?b)) = b * slot_count s + 0"
    using unat_from_bucket_index [of "ex_io s" ?b] len ub by (simp add: bucket_valid_def slot_count_def)
  have "0 < slot_count s" using len(5) by (simp add: io_wf_def slot_count_def)
  from enqueue_own [OF st b qi this] obtain w q where
    q: "initial_enqueue (from_bucket_index (ex_io s) ?b) (ex_queue ?t) = Ok (w, q)" "step_ok b s (?t\<lparr>ex_queue := q\<rparr>)"
    "bit (jobs (queue q ! b)) 0" .
  have c: "count_ok (?t\<lparr>ex_queue := q\<rparr>) b" "home_ok home (?t\<lparr>ex_queue := q\<rparr>) b"
    using len e(3) h by (simp_all add: count_ok_def home_ok_def)
  show thesis
    by (rule that [of "?t\<lparr>ex_queue := q\<rparr>"])
      (use set q len exec_inv_step [OF inv q(2) c] in \<open>simp_all add: execute_def\<close>)
qed



subsection \<open>All runs\<close>


lemma new_executor_inv:
  assumes "io_wf r" and "unat n \<le> 1000" and "length (sa_buckets al) = unat n"
  shows "exec_inv home (new_executor n r al re)"
proof -
  let ?s = "new_executor n r al re :: ('a, 'b) executor"
  have h: "unat (http_connections r) \<le> 63" "unat (per_bucket r) \<le> 64" "0 < unat (per_bucket r)"
    using assms(1) unat_per_bucket [OF assms(1)] by (auto simp: io_wf_def)
  have "unat n * unat (http_connections r) \<le> 1000 * 63" "unat n * unat (per_bucket r) \<le> 1000 * 64"
    using assms(2) h by (intro mult_le_mono; simp)+
  then have len: "unat (n * http_connections r) = unat n * unat (http_connections r)"
    "unat (n * per_bucket r) = unat n * unat (per_bucket r)"
    by (simp_all add: unat_word_ariths(2))
  have "unat n \<le> unat (n * per_bucket r)" using h(3) by (simp add: len)
  moreover have "queue_inv (with_capacity (unat n) r)"
    using assms(2)
    by (simp add: queue_inv_def with_capacity_def empty_slot_def slot_ok_def claimable_def flag_defs list_all_length)
  moreover have "jobs_ok p (queue (with_capacity (unat n) r))" for p
    by (simp add: jobs_ok_def with_capacity_def empty_slot_def)
  ultimately have "shape_ok ?s"
    using assms len by (simp add: shape_ok_def new_executor_def buckets_def http_count_def with_capacity_def)
  moreover have "count_ok ?s b" "home_ok home ?s b" if "b < buckets ?s" for b
  proof -
    have "b < unat (n * per_bucket r)" using that \<open>unat n \<le> unat (n * per_bucket r)\<close>
      by (simp add: buckets_def new_executor_def)
    then show "count_ok ?s b" "home_ok home ?s b" using that
      by (simp_all add: count_ok_def home_ok_def new_executor_def live_conns_def conns_of_def buckets_def http_count_def)
  qed
  ultimately show ?thesis by (simp add: exec_inv_def)
qed


subsection \<open>Descriptors\<close>

text \<open>No call of the application touches the client descriptors or what was closed or sent.\<close>

definition same_fds :: "('f, 'c) executor \<Rightarrow> ('f, 'c) executor \<Rightarrow> bool" where
  "same_fds s t \<longleftrightarrow> ex_tcp_streams t = ex_tcp_streams s \<and> ex_closed t = ex_closed s \<and> ex_sent t = ex_sent s"

lemma run_call_fds: "run_call app a c t = (r, t') \<Longrightarrow> same_fds t t'"
  by (cases c) (auto simp: run_call_def same_fds_def handshake_begin_def handshake_end_def Let_def
      split: prod.splits control.splits sum.splits if_splits option.splits slot.splits)

lemma same_fds_trans: "same_fds s t \<Longrightarrow> same_fds t u \<Longrightarrow> same_fds s u"
  by (simp add: same_fds_def)

lemma same_fds_simps [simp]:
  "same_fds t t" "same_fds t (u\<lparr>ex_reactor := re\<rparr>) = same_fds t u"
  "same_fds t (u\<lparr>ex_connections := cs\<rparr>) = same_fds t u" "same_fds t (u\<lparr>ex_futures := fs\<rparr>) = same_fds t u"
  by (simp_all add: same_fds_def)

lemma run_calls_fds: "run_calls app a cs t = (r, t') \<Longrightarrow> same_fds t t'"
proof (induction cs arbitrary: t)
  case (Cons cl cs)
  obtain c live where cl: "cl = (c, live)" by (cases cl)
  obtain x t1 where x: "run_call app a c t = (x, t1)" by (cases "run_call app a c t")
  note k = run_call_fds [OF x]
  show ?case
  proof (cases x)
    case (Return u)
    then show ?thesis using Cons.IH [of t1] Cons.prems x cl same_fds_trans [OF k] by simp
  next
    case (Unwind p)
    then have "unwind_past live p t1 = (r, t')" using Cons.prems x cl by simp
    then show ?thesis by (rule unwind_past_frame) (use k in simp)
  qed (use Cons.prems x k cl in auto)
qed simp

lemma run_poll_fds: "run_poll app a polled t = (r, t') \<Longrightarrow> same_fds t t'"
  by (erule run_poll_cases) (use run_calls_fds in fastforce)

text \<open>
  The futures of requests are \<open>async\<close> blocks: one that has finished or panicked owns no stream any more.
\<close>

definition async_blocks :: "('f, 'c) application \<Rightarrow> bool" where
  "async_blocks app \<longleftrightarrow>
     (\<forall>f w f'. snd (ap_poll app f w) = AppReady f' \<longrightarrow> ap_streams app f' = []) \<and>
     (\<forall>f. ap_streams app (ap_panicked app f) = [])"

lemma drop_owned_Nil [simp]: "drop_owned [] s = (Return (), s)"
  by (simp add: drop_owned_def)

lemma poll_input_fds:
  assumes p: "poll_input_stream app a b qi t = (r, t')" and async: "async_blocks app"
    and qi: "to_bucket_index qi (ex_io s) = Ok bi" "unat (bi_index bi) = b"
    and st: "step_ok b s t" "b < buckets s" "unat a = b" and app: "app_ok home (http_count s) app" "home_ok home t b"
  shows "if r = Return (Ready ()) then ex_tcp_streams t' = ex_tcp_streams t \<and> ex_closed t' = ex_tcp_streams t ! b # ex_closed t \<and>
      ex_sent t' = ex_sent t \<and> ex_futures t' ! b = None
    else same_fds t t' \<and> ex_futures t' ! b \<noteq> None \<or> ex_futures t ! b = None \<and> same_fds t t'"
proof (cases "ex_futures t ! b")
  case None
  then show ?thesis using p by (auto simp: poll_input_stream_def Let_def)
next
  case (Some fut)
  let ?ap = "ap_poll app fut (waker_for qi)"
  obtain x t1 where x: "run_poll app a ?ap t = (x, t1)" by (cases "run_poll app a ?ap t")
  have hf: "home fut = b" using app(2) Some by (simp add: home_ok_def)
  note step = run_poll_step [OF st app_okD(1) [OF app(1) hf] x] and fds = run_poll_fds [OF x]
  have l: "ex_io t1 = ex_io s" "b < length (ex_tcp_streams t1)" "b < length (ex_futures t1)"
    using step st(2) by (auto simp: step_ok_def shape_ok_def)
  show ?thesis
  proof (cases x)
    case (Return v)
    obtain pl f where v: "v = (pl, f)" by (cases v)
    show ?thesis
    proof (cases pl)
      case (Ready u)
      then have "snd ?ap = AppReady f" using step Return v by simp
      then have "ap_streams app f = []" using async unfolding async_blocks_def by blast
      then have "r = Return (Ready ())"
          "t' = t1\<lparr>ex_futures := (ex_futures t1)[b := None], ex_closed := ex_tcp_streams t1 ! b # ex_closed t1\<rparr>"
        using p Some x Return v Ready qi l by (auto simp: poll_input_stream_def Let_def index_slice_def)
      then show ?thesis using fds l by (simp add: same_fds_def)
    qed (use p Some x Return v fds l in \<open>auto simp: poll_input_stream_def Let_def\<close>)
  qed (use p Some x fds l step in \<open>auto simp: poll_input_stream_def Let_def\<close>)
qed








subsection \<open>Streams of an emptied bucket\<close>

text \<open>
  The reactor after the streams \<open>tss\<close> are dropped: their sources are gone and the poller does not watch them any more.
\<close>

definition stream_slot :: "tcp_stream \<Rightarrow> nat" where
  "stream_slot ts = token_index (ts_token ts)"

definition released :: "tcp_stream list \<Rightarrow> shared \<Rightarrow> shared" where
  "released tss sh =
     sh\<lparr>sh_registry := filter (\<lambda>e. fst e \<notin> ts_fd ` set tss) (sh_registry sh),
        sh_sources := map (\<lambda>i. if i \<in> stream_slot ` set tss then None else sh_sources sh ! i) [0..<length (sh_sources sh)]\<rparr>"

text \<open>Streams that can be dropped: each has a source of its own.\<close>

definition drops_ok :: "tcp_stream list \<Rightarrow> shared \<Rightarrow> bool" where
  "drops_ok tss sh \<longleftrightarrow> distinct (map stream_slot tss) \<and>
     list_all (\<lambda>ts. stream_slot ts < length (sh_sources sh) \<and> sh_sources sh ! stream_slot ts \<noteq> None) tss"

text \<open>The streams that emptying bucket \<open>b\<close> drops.\<close>

definition owned_streams :: "('f, 'c) application \<Rightarrow> ('f, 'c) executor \<Rightarrow> nat \<Rightarrow> tcp_stream list" where
  "owned_streams app s b =
     concat (map (slot_streams app) (conns_of s b)) @ future_streams app (ex_futures s ! b)"

lemma released_Nil [simp]: "released [] sh = sh"
  by (simp add: released_def map_nth)

lemma released_append: "released (xs @ ys) sh = released ys (released xs sh)"
  by (simp add: released_def image_Un)

lemma length_released [simp]: "length (sh_sources (released tss sh)) = length (sh_sources sh)"
  by (simp add: released_def)

lemma nth_released [simp]:
  "i < length (sh_sources sh) \<Longrightarrow>
   sh_sources (released tss sh) ! i = (if i \<in> stream_slot ` set tss then None else sh_sources sh ! i)"
  by (simp add: released_def)

lemma drops_ok_append:
  "drops_ok (xs @ ys) sh \<Longrightarrow> drops_ok xs sh \<and> drops_ok ys (released xs sh)"
  by (fastforce simp: drops_ok_def list_all_iff)

lemma drop_stream_ok:
  assumes "drops_ok [ts] sh"
  shows "drop_stream ts sh = (Ok (), released [ts] sh)"
proof -
  have i: "stream_slot ts < length (sh_sources sh)" "sh_sources sh ! stream_slot ts \<noteq> None"
    using assms by (simp_all add: drops_ok_def)
  have "(sh_sources sh)[stream_slot ts := None] =
      map (\<lambda>i. if i \<in> stream_slot ` set [ts] then None else sh_sources sh ! i) [0..<length (sh_sources sh)]"
    by (rule nth_equalityI) (auto simp: nth_list_update)
  then show ?thesis
    using i by (simp add: drop_stream_def stream_slot_def token_index_def Let_def index_slice_def released_def)
qed

lemma drop_streams_ok: "drops_ok tss sh \<Longrightarrow> drop_streams tss sh = (Return (), released tss sh)"
proof (induction tss arbitrary: sh)
  case (Cons ts tss)
  from drops_ok_append [of "[ts]" tss sh] Cons.prems have d: "drops_ok [ts] sh" "drops_ok tss (released [ts] sh)" by simp_all
  show ?case using drop_stream_ok [OF d(1)] Cons.IH [OF d(2)] released_append [of "[ts]" tss sh] by simp
qed simp

lemma drop_owned_ok:
  "drops_ok tss (ex_reactor t) \<Longrightarrow> drop_owned tss t = (Return (), t\<lparr>ex_reactor := released tss (ex_reactor t)\<rparr>)"
  by (simp add: drop_owned_def drop_streams_ok)

lemma empty_slots_ok:
  assumes "distinct ks" and "\<forall>k \<in> set ks. k < length (ex_connections t)"
    and "drops_ok (concat (map (\<lambda>k. slot_streams app (ex_connections t ! k)) ks)) (ex_reactor t)"
  shows "\<exists>cs. empty_slots app ks t = (Return (), t\<lparr>ex_connections := cs,
    ex_reactor := released (concat (map (\<lambda>k. slot_streams app (ex_connections t ! k)) ks)) (ex_reactor t)\<rparr>)"
  using assms
proof (induction ks arbitrary: t)
  case (Cons k ks)
  let ?ts = "slot_streams app (ex_connections t ! k)"
  let ?rest = "\<lambda>t. concat (map (\<lambda>k. slot_streams app (ex_connections t ! k)) ks)"
  let ?t1 = "t\<lparr>ex_connections := (ex_connections t)[k := Empty], ex_reactor := released ?ts (ex_reactor t)\<rparr>"
  have d: "drops_ok ?ts (ex_reactor t)" "drops_ok (?rest t) (released ?ts (ex_reactor t))"
    using drops_ok_append [of ?ts "?rest t"] Cons.prems(3) by simp_all
  have rest: "?rest ?t1 = ?rest t"
  proof (intro arg_cong [of _ _ concat] map_cong refl)
    fix j assume "j \<in> set ks"
    then have "k \<noteq> j" using Cons.prems(1) by auto
    then show "slot_streams app (ex_connections ?t1 ! j) = slot_streams app (ex_connections t ! j)" by simp
  qed
  have "\<exists>cs. empty_slots app ks ?t1 = (Return (), ?t1\<lparr>ex_connections := cs,
      ex_reactor := released (?rest ?t1) (ex_reactor ?t1)\<rparr>)"
  proof (rule Cons.IH)
    show "drops_ok (?rest ?t1) (ex_reactor ?t1)" unfolding rest using d(2) by simp
  qed (use Cons.prems(1,2) in simp_all)
  then show ?case
    unfolding rest using Cons.prems(2) d(1) by (simp add: drop_owned_ok released_append)
next
  case Nil
  have "t = t\<lparr>ex_connections := ex_connections t\<rparr>" by simp
  then show ?case by (simp, blast)
qed

lemma conns_of_nth:
  assumes "shape_ok t" and "b < buckets t"
  shows "conns_of t b = map (\<lambda>k. ex_connections t ! k) [b * http_count t..<b * http_count t + http_count t]"
proof (rule nth_equalityI)
  fix i assume "i < length (conns_of t b)"
  then show "conns_of t b ! i = map (\<lambda>k. ex_connections t ! k) [b * http_count t..<b * http_count t + http_count t] ! i"
    using length_conns_of [OF assms] assms
      mult_le_mono1 [of "Suc b" "buckets t" "http_count t"] by (simp add: conns_of_def shape_ok_def)
qed (use length_conns_of [OF assms] in simp)

lemma cleanup_releases:
  assumes st: "step_ok b s t" and b: "b < buckets s" and bi: "unat (bi_index bi) = b"
    and ok: "drops_ok (owned_streams app t b) (ex_reactor t)"
    and run: "cleanup_bucket app bi reason t = (r, t')"
  shows "r = Return () \<and> ex_reactor t' = released (owned_streams app t b) (ex_reactor t)"
proof (rule cleanup_stages [OF st b bi, of app reason])
  have sh: "shape_ok t" and bt: "b < buckets t" and H: "http_count t = http_count s"
    using st b by (simp_all add: step_ok_def http_count_def)
  let ?t1 = "answered app b reason t" and ?ks = "[b * http_count s..<b * http_count s + http_count s]"
  let ?cs = "concat (map (slot_streams app) (conns_of t b))"
  have cs: "concat (map (\<lambda>k. slot_streams app (ex_connections ?t1 ! k)) ?ks) = ?cs"
    using conns_of_nth [OF sh bt] H by (simp add: comp_def)
  have d: "drops_ok ?cs (ex_reactor t)" "drops_ok (future_streams app (ex_futures t ! b)) (released ?cs (ex_reactor t))"
    using drops_ok_append ok by (auto simp: owned_streams_def)
  have "\<exists>c. empty_slots app ?ks ?t1 = (Return (), ?t1\<lparr>ex_connections := c, ex_reactor := released ?cs (ex_reactor t)\<rparr>)"
    using empty_slots_ok [of ?ks ?t1 app] d(1) cs H
      mult_le_mono1 [of "Suc b" "buckets t" "http_count t"] bt sh by (auto simp: shape_ok_def)
  then obtain c where c: "empty_slots app ?ks ?t1 = (Return (), ?t1\<lparr>ex_connections := c, ex_reactor := released ?cs (ex_reactor t)\<rparr>)" ..
  fix x t2 y t4 al
  assume x: "empty_slots app ?ks ?t1 = (x, t2)"
    and y: "drop_owned (future_streams app (ex_futures t2 ! b)) (t2\<lparr>ex_futures := (ex_futures t2)[b := None]\<rparr>) = (y, t4)"
    and e: "cleanup_bucket app bi reason t =
      (case x of Return _ \<Rightarrow>
         (case y of Return _ \<Rightarrow> (Return (), t4\<lparr>ex_alloc := al, ex_refcounts := (ex_refcounts t4)[b := 0]\<rparr>) | _ \<Rightarrow> (y, t4))
       | _ \<Rightarrow> (x, t2))"
  have t2: "x = Return ()" "t2 = ?t1\<lparr>ex_connections := c, ex_reactor := released ?cs (ex_reactor t)\<rparr>" using c x by simp_all
  have "y = Return () \<and> ex_reactor t4 = released (owned_streams app t b) (ex_reactor t)"
    using y drop_owned_ok [of "future_streams app (ex_futures t ! b)" "t2\<lparr>ex_futures := (ex_futures t2)[b := None]\<rparr>"] d(2) t2(2)
    by (auto simp: owned_streams_def released_append)
  then show ?thesis using run e t2(1) by auto
qed

subsection \<open>Termination of \<open>run_bucket\<close>\<close>



















text \<open>The job of the input stream has bit 0 and is taken first.\<close>

lemma dequeue_input_job:
  assumes "bit (jobs slot0) 0"
  obtains slot where "dequeue_slot slot0 = (Some 0, slot)"
proof -
  obtain oj slot where dd: "dequeue_slot slot0 = (oj, slot)" by (cases "dequeue_slot slot0")
  have "oj = Some 0"
  proof (cases oj)
    case None
    then show ?thesis using dd assms by (simp add: dequeue_slot_None)
  next
    case (Some j)
    then have "\<forall>i < j. \<not> bit (jobs slot0) i" using dequeue_slot_Some(3) dd by simp
    then show ?thesis using Some assms by (cases j) auto
  qed
  with dd that show thesis by simp
qed

subsection \<open>Emptying with the owned streams\<close>

lemma bucket_empty_owns: "bucket_empty s b \<Longrightarrow> owned_streams app s b = []"
  by (auto simp: bucket_empty_def owned_streams_def future_streams_def slot_streams_def list_all_iff)

lemma clean_and_finish_releases:
  assumes "step_ok b s t" and "b < buckets s" and "unat (bi_index c) = b"
    and "drops_ok (owned_streams app t b) (ex_reactor t)" and "clean_and_finish app c reason d t = (r, s')"
  shows "r = Finish d \<and> ex_reactor s' = released (owned_streams app t b) (ex_reactor t)"
proof -
  obtain x t' where x: "cleanup_bucket app c reason t = (x, t')" by (cases "cleanup_bucket app c reason t")
  from cleanup_releases [OF assms(1-4) x] assms(5) x show ?thesis by (auto simp: clean_and_finish_def)
qed

subsection \<open>The last poll of a request\<close>

text \<open>A turn after which the request is gone, without an error, closed the descriptor of its client.\<close>

lemma last_poll_closes:
  assumes inv: "exec_inv home s" and b: "b < buckets s" and bi: "unat (bi_index bi) = b"
    and app: "app_ok home (http_count s) app" "async_blocks app"
    and run: "run_job app bi s = (r, s')" "r = Continue \<or> r = Finish Forever"
    and fut: "ex_futures s ! b \<noteq> None" "ex_futures s' ! b = None"
  shows "ex_tcp_streams s' = ex_tcp_streams s \<and> ex_closed s' = ex_tcp_streams s ! b # ex_closed s \<and> ex_sent s' = ex_sent s"
proof -
  have sh: "shape_ok s" and cnt: "count_ok s b" and home: "home_ok home s b" using inv b by (auto simp: exec_inv_def)
  have fj: "ex_futures s' = ex_futures t \<and> same_fds t s'" if "finish_job bi t = (r, s')" for t
    using that by (auto simp: finish_job_def Let_def same_fds_def split: sum.splits if_splits)
  have clean: "clean_and_finish app c rs d t = (r, s') \<Longrightarrow> step_ok b s t \<Longrightarrow> unat (bi_index c) = b \<Longrightarrow> r = Finish d" for c rs d t
    using clean_and_finish_step [of app c rs d t r s' b s] b run(2) by auto
  show ?thesis
    using sh b bi
  proof (cases rule: run_job_cases [where app = app])
    case (input slot x t)
    let ?s1 = "dequeued s b slot"
    have c1: "count_ok ?s1 b" and h1: "home_ok home ?s1 b" using cnt home by (simp_all add: count_ok_def home_ok_def)
    note dq = dequeue_step [OF sh b input(1)] and ub = own_bucket_index [OF sh b]
    note tb = run_job_indices(1) [OF sh b bi input(1)]
    note f = poll_input_fds [OF input(2) app(2) tb ub dq(1) b bi app(1) h1]
    have st: "step_ok b s t" using poll_input_step [OF dq(1) b bi app(1) h1 tb ub c1 input(2)] by simp
    have "x = Return (Ready ())"
    proof (rule ccontr)
      assume x: "x \<noteq> Return (Ready ())"
      then have t: "ex_futures t ! b \<noteq> None" using f fut(1) by auto
      from run run_job_input [OF sh b bi input(1) refl input(2)] x show False
        using clean [OF _ st ub] t fut(2) by (cases x) (auto split: poll.splits)
    qed
    then show ?thesis
      using run(1) run_job_input [OF sh b bi input(1) refl input(2)] f fj by (auto simp: same_fds_def)
  next
    case (connection j slot x t)
    note dq = dequeue_step [OF sh b connection(1)]
    have c1: "count_ok (dequeued s b slot) b" using cnt by (simp add: count_ok_def)
    note k = job_connection_bounds [OF sh b dq(2) connection(3)]
    note p = poll_connection_step [OF dq(1) b bi app(1) k(1,2) c1 connection(4)]
    then have "ex_futures t ! b \<noteq> None" using fut(1) by simp
    with run run_job_connection [OF sh b bi connection] fj clean [OF _ conjunct1 [OF p] bi] fut(2) have False
      by (cases x) (auto split: poll.splits hyper_wake.splits if_splits)
    then show ?thesis ..
  qed (use run in simp_all)
qed

text \<open>A job 0 of a bucket without a request is treated as a panic.\<close>

lemma stale_job_panics:
  assumes inv: "exec_inv home s" and b: "b < buckets s" and bi: "unat (bi_index bi) = b"
    and none: "ex_futures s ! b = None" and job: "bit (jobs (queue (ex_queue s) ! b)) 0"
    and run: "run_job app bi s = (r, s')"
  shows "ex_closed s' = ex_tcp_streams s ! b # ex_closed s \<and>
    ex_sent s' = (ex_tcp_streams s ! b, fst (send_error_response app (ex_tcp_streams s ! b) CleanupPanic)) # ex_sent s \<and>
    (r = Finish Panicked \<or> \<not> survives r) \<and>
    (drops_ok (owned_streams app s b) (ex_reactor s) \<longrightarrow> r = Finish Panicked)"
proof -
  have sh: "shape_ok s" using inv by (simp add: exec_inv_def)
  obtain slot where ds: "dequeue_slot (queue (ex_queue s) ! b) = (Some 0, slot)"
    by (rule dequeue_input_job [OF job])
  let ?s1 = "dequeued s b slot"
  have "poll_input_stream app (bi_index bi) b (job_queue_index s bi 0) ?s1 =
      (Unwind (Explicit ''input stream race condition''), ?s1)"
    using none by (simp add: poll_input_stream_def)
  from run_job_input [OF sh b bi ds refl this] run
  have c: "clean_and_finish app (own_bucket b) CleanupPanic Panicked ?s1 = (r, s')" by simp
  note st = dequeue_step(1) [OF sh b ds] and ub = own_bucket_index [OF sh b]
  have "owned_streams app ?s1 b = owned_streams app s b" by (simp add: owned_streams_def conns_of_def http_count_def)
  with clean_and_finish_step [OF c st b ub] clean_and_finish_releases [OF st b ub _ c] show ?thesis by auto
qed

subsection \<open>A future that wakes itself\<close>





subsection \<open>Properties\<close>






text \<open>
  C17: a late wake closes the descriptor of a finished request again. When the last poll of a request has run, which closed
  the descriptor of its client, and the waker of that request is called once more, the next turn treats
  the missing future as a panic of the application: it writes an error response to the number of the closed descriptor
  and closes it a second time, whoever owns that number by then.
\<close>

theorem late_wake_closes_descriptor_again:
  assumes "exec_inv home s" and "unat (bi_index bi) < buckets s" and "fd = ex_tcp_streams s ! unat (bi_index bi)"
    and "app_ok home (http_count s) app" and "async_blocks app"
    and "run_job app bi s = (r, s1)" and "r = Continue \<or> r = Finish Forever"
    and "ex_futures s ! unat (bi_index bi) \<noteq> None" and "ex_futures s1 ! unat (bi_index bi) = None"
  shows "ex_closed s1 = fd # ex_closed s \<and>
    (\<exists>w q r2 s2. wake (job_queue_index s bi 0) (ex_queue s1) = Ok (w, q) \<and>
       run_job app bi (s1\<lparr>ex_queue := q\<rparr>) = (r2, s2) \<and>
       (r2 = Finish Panicked \<or> \<not> survives r2) \<and> (r = Finish Forever \<longrightarrow> r2 = Finish Panicked) \<and>
       ex_closed s2 = fd # fd # ex_closed s \<and>
       ex_sent s2 = (fd, fst (send_error_response app fd CleanupPanic)) # ex_sent s)"
proof -
  let ?b = "unat (bi_index bi)"
  note last = last_poll_closes [OF assms(1,2) refl assms(4-9)]
  note step = run_job_step [OF assms(1,2) refl assms(4,6), unfolded job_ok_def]
  have st: "step_ok ?b s s1" and inv: "exec_inv home s1"
    using step exec_inv_step [OF assms(1)] assms(7) by auto
  have b1: "?b < buckets s1" using assms(2) step_buckets [OF st] by simp
  have sh: "shape_ok s" "shape_ok s1" using assms(1) inv by (simp_all add: exec_inv_def)
  have sc: "slot_count s1 = slot_count s" "0 < slot_count s"
    using step_io [OF st] sh(1) by (simp_all add: slot_count_def shape_ok_def io_wf_def)
  have qi: "unat (qi_index (job_queue_index s bi 0)) = ?b * slot_count s1 + 0"
    using job_index [OF sh(1) refl assms(2) sc(2) refl] sc(1) by simp
  obtain w q where q: "initial_enqueue (job_queue_index s bi 0) (ex_queue s1) = Ok (w, q)"
      "step_ok ?b s1 (s1\<lparr>ex_queue := q\<rparr>)" "bit (jobs (queue q ! ?b)) 0"
    by (rule enqueue_own [OF step_refl [OF sh(2)] b1 qi]) (use sc in auto)
  let ?s1 = "s1\<lparr>ex_queue := q\<rparr>"
  have inv': "exec_inv home ?s1"
    by (rule exec_inv_step [OF inv q(2)]) (use inv b1 in \<open>simp_all add: exec_inv_def count_ok_def home_ok_def\<close>)
  obtain r2 s2 where r2: "run_job app bi ?s1 = (r2, s2)" by (cases "run_job app bi ?s1")
  have "r = Finish Forever \<Longrightarrow> drops_ok (owned_streams app ?s1 ?b) (ex_reactor ?s1)"
    using step bucket_empty_owns [of ?s1 ?b app] by (auto simp: bucket_empty_def conns_of_def http_count_def drops_ok_def)
  with stale_job_panics [OF inv' _ refl _ _ r2] b1 assms(3,9) q last r2 show ?thesis
    by (auto simp: wake_def)
qed

subsection \<open>Concrete runs\<close>

text \<open>
  One bucket without connections. The future 0 finishes at once, 1 panics, 2 needs more memory
  than a bucket has, 4 wakes itself in every poll, any other stays pending.
\<close>

definition example_app :: "(nat, unit) application" where
  "example_app =
     \<lparr>ap_poll = (\<lambda>f w.
        if f = 0 then ([], AppReady f)
        else if f = 1 then ([], AppPanic (Explicit ''application'') [])
        else if f = 2 then ([(AppAlloc \<lparr>lay_size = 10000, lay_align = 8\<rparr>, [])], AppReady f)
        else if f = 4 then ([(AppWake w, [])], AppPending f)
        else ([], AppPending f)),
      ap_poll_connection = (\<lambda>c w. ([], AppReady c)),
      ap_streams = (\<lambda>_. []), ap_conn_streams = (\<lambda>_. []), ap_panicked = (\<lambda>f. f),
      ap_jumped = (\<lambda>f w n. f), ap_conn_jumped = (\<lambda>c w n. c),
      ap_system_alloc = (\<lambda>_. 0), ap_mio_register = (\<lambda>_ _. Inr ()), ap_write_all = (\<lambda>_ _. Inr ()),
      ap_flush = (\<lambda>_. Inr ()), ap_shutdown_write = (\<lambda>_. Inr ()), ap_shutdown = (\<lambda>_. Inr ())\<rparr>"


definition example_alloc :: server_alloc where
  "example_alloc = (new_server_alloc 0x1000)\<lparr>sa_buckets := [new_bucket 0x100000000 8192 0]\<rparr>"

definition example_exec :: "(nat, unit) executor" where
  "example_exec = new_executor 1 default_io_resources example_alloc (new_shared 1 default_io_resources)"

lemma example_app_ok: "app_ok (\<lambda>_. 0) h example_app" "async_blocks example_app"
  by (simp_all add: app_ok_def async_blocks_def example_app_def)


lemma example_exec_simps [simp]:
  "buckets example_exec = 1" "http_count example_exec = 0" "slot_count example_exec = 1"
  "ex_refcounts example_exec = [0]" "ex_futures example_exec = [None]" "ex_closed example_exec = []"
  "ex_tcp_streams example_exec = [0]"
  by (simp_all add: example_exec_def new_executor_def buckets_def http_count_def slot_count_def
      default_io_resources_def per_bucket_def)

lemma example_exec_inv: "exec_inv (\<lambda>_. 0) example_exec"
  unfolding example_exec_def
  by (rule new_executor_inv) (simp_all add: io_wf_def default_io_resources_def example_alloc_def)

text \<open>The executor after it has accepted a connection with future \<open>f\<close> and descriptor 7.\<close>

definition example_started :: "nat \<Rightarrow> (nat, unit) executor" where
  "example_started f = snd (accept_connection example_app (\<lambda>_. False) 6 7 f example_exec)"

lemma example_accept:
  "accept_connection example_app (\<lambda>_. False) 6 7 f example_exec = (Ok (), example_started f)"
  "exec_inv (\<lambda>_. 0) (example_started f)" "buckets (example_started f) = 1" "http_count (example_started f) = 0"
  "ex_futures (example_started f) ! 0 = Some f"
proof -
  have z: "0 < buckets example_exec" "ex_refcounts example_exec ! 0 = 0" by simp_all
  obtain s' where s': "execute 7 (own_bucket 0) f (example_exec\<lparr>ex_refcounts := (ex_refcounts example_exec)[0 := 1]\<rparr>) = (Ok (), s')"
    "step_ok 0 example_exec s'" "exec_inv (\<lambda>_. 0) s'" "ex_futures s' ! 0 = Some f"
    using execute_step [OF example_exec_inv z, where fd = 7 and fut = f] by blast
  have "accept_connection example_app (\<lambda>_. False) 6 7 f example_exec = (Ok (), s')"
    using s'(1) by (simp add: accept_connection_def try_claim_def)
  then show "accept_connection example_app (\<lambda>_. False) 6 7 f example_exec = (Ok (), example_started f)"
    "exec_inv (\<lambda>_. 0) (example_started f)" "buckets (example_started f) = 1" "http_count (example_started f) = 0"
    "ex_futures (example_started f) ! 0 = Some f"
    using s' by (simp_all add: example_started_def step_ok_def http_count_def)
      (metis example_exec_simps(2) http_count_def unat_0_iff)
qed



lemma example_started_state:
  "bit (jobs (queue (ex_queue (example_started f)) ! 0)) 0" "ex_tcp_streams (example_started f) ! 0 = 7"
  "ex_closed (example_started f) = []" "ex_sent (example_started f) = []"
  "ex_alloc (example_started f) = example_alloc" "ex_io (example_started f) = default_io_resources"
  "ex_reactor (example_started f) = new_shared 1 default_io_resources"
proof -
  have z: "0 < buckets example_exec" "ex_refcounts example_exec ! 0 = 0" by simp_all
  let ?e = "example_exec\<lparr>ex_refcounts := (ex_refcounts example_exec)[0 := 1]\<rparr>"
  obtain s' where s': "execute 7 (own_bucket 0) f ?e = (Ok (), s')" "bit (jobs (queue (ex_queue s') ! 0)) 0"
    "ex_tcp_streams s' ! 0 = 7"
    by (rule execute_step [OF example_exec_inv z, where fd = 7 and fut = f]) simp_all
  have e: "example_started f = s'"
    using s'(1) by (simp add: example_started_def accept_connection_def try_claim_def)
  show "bit (jobs (queue (ex_queue (example_started f)) ! 0)) 0" "ex_tcp_streams (example_started f) ! 0 = 7"
    using s' e by simp_all
  have "ex_alloc s' = ex_alloc ?e \<and> ex_reactor s' = ex_reactor ?e \<and> ex_io s' = ex_io ?e \<and> same_fds (?e\<lparr>ex_tcp_streams := ex_tcp_streams s'\<rparr>) s'"
    using s'(1) by (auto simp: execute_def set_future_def same_fds_def Let_def split: prod.splits sum.splits if_splits)
  then show "ex_closed (example_started f) = []" "ex_sent (example_started f) = []"
    "ex_alloc (example_started f) = example_alloc" "ex_io (example_started f) = default_io_resources"
    "ex_reactor (example_started f) = new_shared 1 default_io_resources"
    using e by (simp_all add: example_exec_def new_executor_def same_fds_def)
qed




text \<open>A request on descriptor 7 finishes in its first poll; then its waker is called once more.\<close>

theorem late_wake_closes_descriptor_again_witness:
  "\<exists>s1 w q s2. run_job example_app (own_bucket 0) (example_started 0) = (Finish Forever, s1) \<and> ex_closed s1 = [7] \<and>
     wake (job_queue_index (example_started 0) (own_bucket 0) 0) (ex_queue s1) = Ok (w, q) \<and>
     run_job example_app (own_bucket 0) (s1\<lparr>ex_queue := q\<rparr>) = (Finish Panicked, s2) \<and> ex_closed s2 = [7, 7]"
proof -
  let ?s = "example_started 0" and ?b = "own_bucket 0"
  have sh: "shape_ok ?s" "0 < buckets ?s" using example_accept(2,3) by (simp_all add: exec_inv_def)
  obtain slot where ds: "dequeue_slot (queue (ex_queue ?s) ! 0) = (Some 0, slot)"
    by (rule dequeue_input_job [OF example_started_state(1)])
  let ?t = "(dequeued ?s 0 slot)\<lparr>ex_futures := (ex_futures ?s)[0 := None], ex_closed := 7 # ex_closed ?s\<rparr>"
  have len: "0 < length (ex_tcp_streams ?s)" "0 < length (ex_futures ?s)" "0 < length (ex_refcounts ?s)"
    using sh by (auto simp: shape_ok_def buckets_def)
  have x: "poll_input_stream example_app (bi_index ?b) 0 (job_queue_index ?s ?b 0) (dequeued ?s 0 slot) = (Return (Ready ()), ?t)"
    using run_job_indices(1) [OF sh _ ds, of ?b] example_accept(5) [of 0] len example_started_state(2)
    by (simp add: poll_input_stream_def Let_def run_poll_def index_slice_def drop_owned_def example_app_def)
  obtain r s1 where r: "run_job example_app ?b ?s = (r, s1)" by (cases "run_job example_app ?b ?s")
  have f: "finish_job ?b ?t = (r, s1)" using run_job_input [OF sh _ ds refl x] r by simp
  have "count_ok ?s 0" using example_accept(2,3) [of 0] by (simp add: exec_inv_def)
  moreover have "live_conns ?s 0 = 0" using example_accept(4) [of 0] by (simp add: live_conns_def conns_of_def)
  ultimately have "unat (ex_refcounts ?s ! 0) = 1" using example_accept(5) [of 0] by (simp add: count_ok_def)
  then have "ex_refcounts ?s ! 0 = 1" by (metis unat_1 word_unat_eq_iff)
  then have rs: "r = Finish Forever" "ex_futures s1 ! 0 = None"
    using f len sh clear_bucket_eq [of 0 "ex_alloc ?s"]
    by (auto simp: finish_job_def Let_def index_slice_def shape_ok_def split: sum.splits if_splits)
  from late_wake_closes_descriptor_again [OF example_accept(2) _ refl example_app_ok r]
  show ?thesis using rs r by (auto simp: example_accept example_started_state)
qed

end
