(* ===== verification/Handlers_Correct.thy ===== *)
theory Handlers_Correct
  imports Await Executor_Safety
begin

section \<open>Correctness of the example applications\<close>

text \<open>
  Memory and text lemmas on the actions of the handlers, then what each application does with every
  request: the reply it sends, the requests it refuses, and where it goes wrong.
\<close>

subsection \<open>Memory\<close>

definition arena_of :: "('f, 'c, 'w) env \<Rightarrow> nat" where
  "arena_of en = unat (en_arena en)"

text \<open>The thread runs a bucket, and the arena of the bucket is in order.\<close>

definition task_ok :: "('f, 'c, 'w) env \<Rightarrow> ('f, 'c, 'w) task_state \<Rightarrow> bool" where
  "task_ok en st \<longleftrightarrow> bucket_arena (en_arena en) \<and> server_ok (Some (arena_of en)) (ex_alloc (tk_exec st))"

definition room :: "('f, 'c, 'w) env \<Rightarrow> ('f, 'c, 'w) task_state \<Rightarrow> nat" where
  "room en st = arena_free (Some (arena_of en)) (ex_alloc (tk_exec st))"

text \<open>Nothing but the allocator differs.\<close>

definition same_but_memory :: "('f, 'c, 'w) task_state \<Rightarrow> ('f, 'c, 'w) task_state \<Rightarrow> bool" where
  "same_but_memory st st' \<longleftrightarrow> (\<exists>al. st' = st\<lparr>tk_exec := (tk_exec st)\<lparr>ex_alloc := al\<rparr>\<rparr>)"

lemma same_but_memory_refl [simp]: "same_but_memory st st"
  unfolding same_but_memory_def by (rule exI [of _ "ex_alloc (tk_exec st)"]) simp

lemma same_but_memory_trans: "same_but_memory r s \<Longrightarrow> same_but_memory s t \<Longrightarrow> same_but_memory r t"
  by (auto simp: same_but_memory_def)

lemma same_but_memory_world: "same_but_memory st st' \<Longrightarrow> tk_world st' = tk_world st \<and> tk_stderr st' = tk_stderr st"
  by (auto simp: same_but_memory_def)

lemma same_but_memory_set_world:
  assumes "same_but_memory st st'"
  shows "same_but_memory (st\<lparr>tk_world := w\<rparr>) (st'\<lparr>tk_world := w\<rparr>)"
proof -
  obtain al where "st' = st\<lparr>tk_exec := (tk_exec st)\<lparr>ex_alloc := al\<rparr>\<rparr>" using assms by (auto simp: same_but_memory_def)
  then show ?thesis unfolding same_but_memory_def by (intro exI [of _ al]) (cases st, simp)
qed

lemma task_ok_world [simp]:
  "task_ok en (st\<lparr>tk_world := w\<rparr>) = task_ok en st" "room en (st\<lparr>tk_world := w\<rparr>) = room en st"
  by (simp_all add: task_ok_def room_def)

lemma byte_layout_ok: "n < 2 ^ 63 \<Longrightarrow> layout_ok \<lparr>lay_size = of_nat n, lay_align = 1\<rparr>"
proof -
  assume "n < 2 ^ 63"
  then have "unat (of_nat n :: usize) = n" by (intro unat_of_nat_small) simp
  moreover have "is_power_of_two 1" by (simp add: is_power_of_two_iff) (rule exI [of _ 0], simp)
  ultimately show ?thesis using \<open>n < 2 ^ 63\<close> by (simp add: layout_ok_def from_size_align_def)
qed

lemma raw_allocate_ok:
  assumes "task_ok en st" and "n \<le> room en st" and "n < 2 ^ 63"
  obtains st' where "raw_allocate en n st = Some (Return (), st')" and "task_ok en st'"
    and "room en st' = room en st - n" and "same_but_memory st st'"
proof (cases "n = 0")
  case True
  then show thesis using that [of st] assms(1) by (simp add: raw_allocate_def ret_def)
next
  case False
  let ?l = "\<lparr>lay_size = of_nat n :: usize, lay_align = 1\<rparr>" and ?al = "ex_alloc (tk_exec st)" and ?b = "Some (arena_of en)"
  have ba: "bucket_arena (en_arena en)" and ok: "server_ok ?b ?al" using assms(1) by (simp_all add: task_ok_def)
  have un: "unat (of_nat n :: usize) = n" using assms(3) by (intro unat_of_nat_small) simp
  obtain r al where t: "try_allocate_in_bucket ?l (arena_of en) ?al = (r, al)"
    by (cases "try_allocate_in_bucket ?l (arena_of en) ?al")
  note lok = byte_layout_ok [OF assms(3)]
  have "r \<noteq> None"
    using bucket.take_None [OF ok lok] t assms(2) un by (auto simp: room_def MAX_SUPPORTED_ALIGN_def)
  then obtain p where p: "r = Some p" by blast
  note spec = bucket.take_Some [OF ok lok t [unfolded p]]
  have "0 < arena_base ?b ?al"
    using ok arenas_okD [of "arenas ?al" ?b] by (auto simp: server_ok_def arena_base_def arena_ok_def unat_gt_0)
  then have "p \<noteq> 0" using spec by (auto simp: unat_eq_0 [symmetric] simp del: unat_eq_0)
  have a: "alloc sys (en_arena en) ?l ?al = (Return p, al)" for sys
    using t p by (simp add: alloc_bucket [OF ba] arena_of_def)
  let ?st = "st\<lparr>tk_exec := (tk_exec st)\<lparr>ex_alloc := al\<rparr>\<rparr>"
  have "raw_allocate en n st = Some (Return (), ?st)"
    using False assms(3) a \<open>p \<noteq> 0\<close> by (simp add: raw_allocate_def allocate_def call_def run_call_def)
  moreover have "task_ok en ?st" "room en ?st = room en st - n"
    using spec ba un by (auto simp: task_ok_def room_def)
  moreover have "same_but_memory st ?st" by (auto simp: same_but_memory_def)
  ultimately show thesis by (rule that)
qed

lemma raw_allocate_oom:
  assumes "task_ok en st" and "room en st < n" and "n < 2 ^ 63"
  shows "raw_allocate en n st = Some (LongJmp 1, st)"
proof -
  let ?l = "\<lparr>lay_size = of_nat n :: usize, lay_align = 1\<rparr>" and ?al = "ex_alloc (tk_exec st)" and ?b = "Some (arena_of en)"
  have ba: "bucket_arena (en_arena en)" and ok: "server_ok ?b ?al" using assms(1) by (simp_all add: task_ok_def)
  have un: "unat (of_nat n :: usize) = n" using assms(3) by (intro unat_of_nat_small) simp
  obtain r al where t: "try_allocate_in_bucket ?l (arena_of en) ?al = (r, al)"
    by (cases "try_allocate_in_bucket ?l (arena_of en) ?al")
  note lok = byte_layout_ok [OF assms(3)]
  have "r = None"
    using bucket.take_Some [OF ok lok, of _ al] t assms(2) un by (cases r) (auto simp: room_def)
  then have "al = ?al" using bucket.take_None [OF ok lok] t by simp
  with t \<open>r = None\<close> have a: "alloc sys (en_arena en) ?l ?al = (LongJmp 1, ?al)" for sys
    by (simp add: alloc_bucket [OF ba] arena_of_def)
  then show ?thesis using assms(2,3) by (simp add: raw_allocate_def allocate_def call_def run_call_def)
qed

subsection \<open>Vectors\<close>

definition vec_ok :: "vec \<Rightarrow> bool" where
  "vec_ok v \<longleftrightarrow> length (vec_bytes v) \<le> vec_cap v"

lemma vec_new_ok [simp]: "vec_ok vec_new" "vec_bytes vec_new = []" "vec_cap vec_new = 0"
  by (simp_all add: vec_ok_def vec_new_def)

text \<open>
  The capacity that is enough for \<open>n\<close> bytes. A vector that has grown from capacity \<open>c\<close> to \<open>d\<close> has
  taken at most \<open>2 * (d - c)\<close> bytes, because every block is at least twice as large as the one before.
\<close>

definition cap_bound :: "vec \<Rightarrow> nat \<Rightarrow> nat" where
  "cap_bound v n = max (vec_cap v) (max 8 (2 * n))"

lemma vec_write_all_ok:
  assumes "task_ok en st" and "vec_ok v" and "length (vec_bytes v) + length bs \<le> n"
    and "2 * cap_bound v n \<le> room en st + 2 * vec_cap v" and "cap_bound v n < 2 ^ 63"
  obtains v' st' where "vec_write_all en bs v st = Some (Return v', st')" and "vec_bytes v' = vec_bytes v @ bs"
    and "vec_ok v'" and "vec_cap v \<le> vec_cap v'" and "cap_bound v' n = cap_bound v n"
    and "task_ok en st'" and "room en st + 2 * vec_cap v \<le> room en st' + 2 * vec_cap v'" and "same_but_memory st st'"
proof (cases "length (vec_bytes v) + length bs \<le> vec_cap v")
  case True
  then show thesis
    using that [of "v\<lparr>vec_bytes := vec_bytes v @ bs\<rparr>" st] assms(1)
    by (simp add: vec_write_all_def ret_def vec_ok_def cap_bound_def)
next
  case False
  let ?c = "grown_cap v (length bs)"
  let ?v = "\<lparr>vec_bytes = vec_bytes v @ bs, vec_cap = ?c\<rparr>"
  have c: "?c \<le> cap_bound v n" "2 * vec_cap v \<le> ?c" "length (vec_bytes v) + length bs \<le> ?c"
    using False assms(3) by (auto simp: grown_cap_def cap_bound_def)
  have "?c \<le> max 8 (2 * n)" and "vec_cap v \<le> max 8 (2 * n)"
    using False assms(3) by (auto simp: grown_cap_def)
  then have cb: "cap_bound ?v n = cap_bound v n" by (simp add: cap_bound_def max_absorb2)
  obtain st' where st': "raw_allocate en ?c st = Some (Return (), st')" "task_ok en st'"
    "room en st' = room en st - ?c" "same_but_memory st st'"
    by (rule raw_allocate_ok [OF assms(1), of ?c]) (use c assms(4,5) in auto)
  have "vec_write_all en bs v st = Some (Return ?v, st')"
    using False st'(1) by (simp add: vec_write_all_def bind_action_def ret_def)
  then show thesis using that [of ?v st'] st' c cb assms(4) by (simp add: vec_ok_def)
qed

lemma vec_write_pieces_ok:
  assumes "task_ok en st" and "vec_ok v" and "length (vec_bytes v) + length (concat ps) \<le> n"
    and "2 * cap_bound v n \<le> room en st + 2 * vec_cap v" and "cap_bound v n < 2 ^ 63"
  shows "\<exists>v' st'. vec_write_pieces en ps v st = Some (Return v', st') \<and> vec_bytes v' = vec_bytes v @ concat ps \<and>
    task_ok en st' \<and> same_but_memory st st'"
  using assms
proof (induction ps arbitrary: v st)
  case Nil
  then show ?case by (simp add: ret_def)
next
  case (Cons p ps)
  obtain v1 st1 where w: "vec_write_all en p v st = Some (Return v1, st1)" "vec_bytes v1 = vec_bytes v @ p"
    "vec_ok v1" "vec_cap v \<le> vec_cap v1" "cap_bound v1 n = cap_bound v n"
    "task_ok en st1" "room en st + 2 * vec_cap v \<le> room en st1 + 2 * vec_cap v1" "same_but_memory st st1"
    by (rule vec_write_all_ok [OF Cons.prems(1,2) _ Cons.prems(4,5), of p]) (use Cons.prems(3) in auto)
  have "\<exists>v' st'. vec_write_pieces en ps v1 st1 = Some (Return v', st') \<and> vec_bytes v' = vec_bytes v1 @ concat ps \<and>
      task_ok en st' \<and> same_but_memory st1 st'"
    by (rule Cons.IH) (use w Cons.prems in auto)
  then show ?case using w same_but_memory_trans by (fastforce simp: bind_action_def)
qed

text \<open>Whatever the room, writing completes or jumps out; the streams are not touched.\<close>

lemma raw_allocate_cases:
  assumes "task_ok en st" and "n < 2 ^ 63"
  obtains (ok) st' where "raw_allocate en n st = Some (Return (), st')" "task_ok en st'" "same_but_memory st st'"
  | (oom) "raw_allocate en n st = Some (LongJmp 1, st)"
  using raw_allocate_oom [OF assms(1) _ assms(2)] raw_allocate_ok [OF assms(1) _ assms(2)] that by (metis not_less)

lemma vec_write_pieces_cases:
  assumes "task_ok en st" and "vec_ok v" and "length (vec_bytes v) + length (concat ps) \<le> n" and "cap_bound v n < 2 ^ 63"
  shows "(\<exists>v' st'. vec_write_pieces en ps v st = Some (Return v', st') \<and> vec_bytes v' = vec_bytes v @ concat ps \<and>
      task_ok en st' \<and> same_but_memory st st') \<or>
    (\<exists>st'. vec_write_pieces en ps v st = Some (LongJmp 1, st') \<and> same_but_memory st st')"
  using assms
proof (induction ps arbitrary: v st)
  case Nil
  then show ?case by (simp add: ret_def)
next
  case (Cons p ps)
  let ?c = "grown_cap v (length p)"
  let ?v = "if length (vec_bytes v) + length p \<le> vec_cap v then v\<lparr>vec_bytes := vec_bytes v @ p\<rparr>
    else \<lparr>vec_bytes = vec_bytes v @ p, vec_cap = ?c\<rparr>"
  have c: "?c < 2 ^ 63" if "\<not> length (vec_bytes v) + length p \<le> vec_cap v"
    using that Cons.prems(3,4) by (auto simp: grown_cap_def cap_bound_def)
  have v: "vec_ok ?v" "length (vec_bytes ?v) + length (concat ps) \<le> n" "cap_bound ?v n < 2 ^ 63"
    "vec_bytes ?v = vec_bytes v @ p"
    using Cons.prems by (auto simp: vec_ok_def grown_cap_def cap_bound_def)
  have "(\<exists>st'. vec_write_all en p v st = Some (Return ?v, st') \<and> task_ok en st' \<and> same_but_memory st st') \<or>
      vec_write_all en p v st = Some (LongJmp 1, st)"
  proof (cases "length (vec_bytes v) + length p \<le> vec_cap v")
    case True
    then show ?thesis using Cons.prems(1) by (simp add: vec_write_all_def ret_def)
  next
    case False
    then show ?thesis
      by (cases rule: raw_allocate_cases [OF Cons.prems(1) c [OF False]])
        (auto simp: vec_write_all_def bind_action_def ret_def)
  qed
  then show ?case
  proof
    assume "vec_write_all en p v st = Some (LongJmp 1, st)"
    then show ?thesis by (auto simp: bind_action_def)
  next
    assume "\<exists>st'. vec_write_all en p v st = Some (Return ?v, st') \<and> task_ok en st' \<and> same_but_memory st st'"
    then obtain st1 where st1: "vec_write_all en p v st = Some (Return ?v, st1)" "task_ok en st1" "same_but_memory st st1"
      by blast
    from Cons.IH [OF st1(2) v(1-3)] v(4) st1 same_but_memory_trans [OF st1(3)] show ?thesis
      by (fastforce simp: bind_action_def)
  qed
qed

subsection \<open>Responses\<close>

definition head_text :: "u8 list" where
  "head_text = concat response_head"

lemma length_head [simp]: "length head_text = 44" "length response_head = 3"
  by (simp_all add: head_text_def response_head_def crlf_def)

lemma cursor_response_eq:
  "cursor_response input = take 1024 (head_text @ bytes_of ''<html>'' @ input @ bytes_of ''</html>'')"
proof -
  define c0 where "c0 = new_cursor (replicate 1024 0)"
  define c1 where "c1 = snd (cursor_write_all (response_head ! 0) c0)"
  define c2 where "c2 = snd (cursor_write_all (response_head ! 1) c1)"
  define c3 where "c3 = snd (cursor_write_all (response_head ! 2) c2)"
  let ?ps = "[bytes_of ''<html>'', input, bytes_of ''</html>'']"
  have e: "cursor_response input = cursor_written (snd (cursor_write_fmt ?ps c3))"
    by (simp add: cursor_response_def Let_def cursor_written_def c0_def c1_def c2_def c3_def)
  have 0: "cursor_ok c0" "cursor_written c0 = []" "length (cu_buffer c0) = 1024" by (simp_all add: c0_def)
  note w1 = cursor_write_all_spec [OF 0(1), of "response_head ! 0", folded c1_def]
  note w2 = cursor_write_all_spec [OF w1(1), of "response_head ! 1", folded c2_def]
  note w3 = cursor_write_all_spec [OF w2(1), of "response_head ! 2", folded c3_def]
  have "cursor_written c3 = head_text" and "length (cu_buffer c3) = 1024"
    using w1(2,3) w2(2,3) w3(2,3) 0(2,3) by (simp_all add: head_text_def response_head_def crlf_def)
  then show ?thesis using cursor_write_fmt_spec [OF w3(1), of ?ps] e by simp
qed

definition page :: "u8 list" where
  "page = head_text @ bytes_of ''<html>foobar</html>''"

lemma page_eq: "cursor_response (bytes_of ''foobar'') = page" "length page = 63"
proof -
  have "bytes_of ''<html>'' @ bytes_of ''foobar'' @ bytes_of ''</html>'' = bytes_of ''<html>foobar</html>''"
    by (simp flip: bytes_of_append)
  then show "cursor_response (bytes_of ''foobar'') = page" by (simp add: cursor_response_eq page_def)
  show "length page = 63" by (simp add: page_def)
qed

subsection \<open>The state machine\<close>

lemma on_world_simps:
  "m (tk_world st) = Some (v, w) \<Longrightarrow> on_world m st = Some (Return v, st\<lparr>tk_world := w\<rparr>)"
  by (simp add: on_world_def)

lemma write_loop_done [simp]: "write_loop en buf 0 st = Some (Return (Inr ()), st)"
  by (subst write_loop.simps) simp

lemma write_loop_step:
  assumes "remaining \<noteq> 0" and "await_io (sk_write (en_socket en) buf) (tk_world st) = Some (v, w)"
  shows "write_loop en buf remaining st =
    (case v of
       Inl e \<Rightarrow> Some (Return (Inl e), st\<lparr>tk_world := w\<rparr>)
     | Inr n \<Rightarrow>
         (case usize_sub (en_overflow_checks en) remaining (of_nat n) of
            Inl p \<Rightarrow> Some (Unwind p, st\<lparr>tk_world := w\<rparr>)
          | Inr remaining' \<Rightarrow> write_loop en buf remaining' (st\<lparr>tk_world := w\<rparr>)))"
  using assms
  by (subst write_loop.simps) (simp add: await_write_def on_world_simps word_gt_0 split: sum.split)

lemma handler_loop_Initial:
  "handler_loop en Initial MsgNothing st =
     and_then (raw_allocate en 1024 st) (\<lambda>_ s1. or_return (await_read en 1024 s1) (\<lambda>bytes s2.
       handler_loop en Initial (MsgRead bytes) s2))"
  by (subst handler_loop.simps) (simp add: roc_handler_def ret_def)

lemma handler_loop_Read:
  "handler_loop en Initial (MsgRead bytes) st =
     and_then (raw_allocate en 63 st) (\<lambda>_ s1. or_return (write_loop en page 63 s1) (\<lambda>_ s2.
       handler_loop en Writing MsgNothing s2))"
proof -
  have "handler_loop en Initial (MsgRead bytes) st =
      and_then (and_then (raw_allocate en 63 st) (\<lambda>_. ret (Writing, CmdWrite page))) (\<lambda>(new_model, cmd) s.
       case cmd of
         CmdRead \<Rightarrow>
           and_then (raw_allocate en 1024 s) (\<lambda>_ s1.
           or_return (await_read en 1024 s1) (\<lambda>bytes s2.
           handler_loop en new_model (MsgRead bytes) s2))
       | CmdWrite buf \<Rightarrow>
           or_return (write_loop en buf (of_nat (length buf)) s) (\<lambda>_ s1.
           handler_loop en new_model MsgNothing s1)
       | CmdDone \<Rightarrow> Some (Return (Inr ()), s))"
    by (subst handler_loop.simps) (simp add: roc_handler_def page_eq Let_def bind_action_def)
  then show ?thesis
    by (simp add: and_then_def [of "raw_allocate en 63 st"] ret_def page_eq split: option.split prod.split control.split)
qed

lemma handler_loop_Writing: "handler_loop en Writing msg st = Some (Return (Inr ()), st)"
  by (subst handler_loop.simps) (simp add: roc_handler_def ret_def)

text \<open>
  A socket that follows a script: the number of bytes each write accepts, and what the client has
  received. When the script is over the client is gone.
\<close>

definition scripted_socket :: "(nat list \<times> u8 list) socket" where
  "scripted_socket =
     \<lparr>sk_read = (\<lambda>n w. (Inr (bytes_of ''GET / HTTP/1.1'' @ crlf), w)),
      sk_write = (\<lambda>buf (accepts, received). case accepts of
        [] \<Rightarrow> (Inl NotConnected, [], received)
      | a # as \<Rightarrow> (Inr (length (take a buf)), as, received @ take a buf)),
      sk_flush = (\<lambda>w. (Inr (), w)),
      sk_shutdown = (\<lambda>w. (Inr (), w))\<rparr>"

lemma await_io_ready: "f w = (v, w') \<Longrightarrow> v \<noteq> Inl WouldBlock \<Longrightarrow> await_io f w = Some (v, w')"
  by (subst await_io.simps) simp

lemma await_scripted:
  "await_io (sk_write scripted_socket buf) ([], received) = Some (Inl NotConnected, [], received)"
  "await_io (sk_write scripted_socket buf) (a # as, received) =
     Some (Inr (length (take a buf)), as, received @ take a buf)"
  "await_io (sk_read scripted_socket n) w = Some (Inr (bytes_of ''GET / HTTP/1.1'' @ crlf), w)"
  by (rule await_io_ready; simp add: scripted_socket_def)+

lemma of_nat_usize_neq:
  assumes "a < 2 ^ 64" and "b < 2 ^ 64" and "a \<noteq> b"
  shows "(of_nat a :: usize) \<noteq> of_nat b"
proof
  assume "(of_nat a :: usize) = of_nat b"
  then have "unat (of_nat a :: usize) = unat (of_nat b :: usize)" by (rule arg_cong)
  moreover have "unat (of_nat a :: usize) = a" using assms(1) by (intro unat_of_nat_small) simp
  moreover have "unat (of_nat b :: usize) = b" using assms(2) by (intro unat_of_nat_small) simp
  ultimately show False using assms(3) by argo
qed

text \<open>
  The number of bytes the first \<open>k\<close> writes of the buffer take, and what the client has received after them.
\<close>

definition taken :: "u8 list \<Rightarrow> nat list \<Rightarrow> nat \<Rightarrow> nat" where
  "taken buf accepts k = sum_list (map (\<lambda>a. length (take a buf)) (take k accepts))"

definition copies :: "u8 list \<Rightarrow> nat list \<Rightarrow> nat \<Rightarrow> u8 list" where
  "copies buf accepts k = concat (map (\<lambda>a. take a buf) (take k accepts))"

lemma taken_simps [simp]:
  "taken buf accepts 0 = 0" "taken buf (a # as) (Suc k) = length (take a buf) + taken buf as k"
  by (simp_all add: taken_def)

lemma copies_simps [simp]:
  "copies buf accepts 0 = []" "copies buf (a # as) (Suc k) = take a buf @ copies buf as k"
  by (simp_all add: copies_def)

lemma find_upt_Suc:
  "find P [0..<Suc n] = (if P 0 then Some 0 else map_option Suc (find (\<lambda>k. P (Suc k)) [0..<n]))"
proof -
  have "find P (map Suc xs) = map_option Suc (find (\<lambda>k. P (Suc k)) xs)" for xs
    by (induction xs) auto
  then show ?thesis using upt_conv_Cons [of 0 "Suc n"] by (simp add: map_Suc_upt [symmetric] del: upt_Suc)
qed

text \<open>The loop on a scripted socket, when the counter wraps.\<close>

lemma write_loop_wraps:
  assumes "en_socket en = scripted_socket" and "\<not> en_overflow_checks en" and "tk_world st = (accepts, received)"
  shows "write_loop en buf remaining st =
    (case find (\<lambda>k. of_nat (taken buf accepts k) = remaining) [0..<Suc (length accepts)] of
       Some k \<Rightarrow> Some (Return (Inr ()), st\<lparr>tk_world := (drop k accepts, received @ copies buf accepts k)\<rparr>)
     | None \<Rightarrow> Some (Return (Inl NotConnected), st\<lparr>tk_world := ([], received @ copies buf accepts (length accepts))\<rparr>))"
  using assms(3)
proof (induction accepts arbitrary: remaining st received)
  case Nil
  have id: "st\<lparr>tk_world := ([], received)\<rparr> = st" using Nil by (cases st) simp
  show ?case using Nil assms(1) id by (cases "remaining = 0") (simp_all add: write_loop_step await_scripted)
next
  case (Cons a as)
  have id: "st\<lparr>tk_world := (a # as, received)\<rparr> = st" using Cons.prems by (cases st) simp
  show ?case
  proof (cases "remaining = 0")
    case False
    let ?n = "length (take a buf)" and ?s = "st\<lparr>tk_world := (as, received @ take a buf)\<rparr>"
    have e: "write_loop en buf remaining st = write_loop en buf (remaining - of_nat ?n) ?s"
      using False Cons.prems assms(1,2) by (simp add: write_loop_step await_scripted usize_sub_def)
    have "of_nat (taken buf (a # as) (Suc k)) = remaining \<longleftrightarrow> of_nat (taken buf as k) = remaining - of_nat ?n" for k
      by (auto simp: algebra_simps)
    then have f: "find (\<lambda>k. of_nat (taken buf (a # as) k) = remaining) [0..<Suc (length (a # as))] =
        map_option Suc (find (\<lambda>k. of_nat (taken buf as k) = remaining - of_nat ?n) [0..<Suc (length as)])"
      using False unfolding find_upt_Suc [of _ "length (a # as)"] by simp
    show ?thesis
      unfolding e f using Cons.IH [of ?s "received @ take a buf" "remaining - of_nat ?n"] by (simp split: option.split)
  qed (use id in \<open>simp add: find_upt_Suc [of _ "Suc (length as)"] del: upt_Suc\<close>)
qed

text \<open>The same with overflow checks.\<close>

lemma write_loop_checks:
  assumes "en_socket en = scripted_socket" and "en_overflow_checks en" and "tk_world st = (accepts, received)"
    and "m < 2 ^ 64" and "length buf < 2 ^ 64"
  shows "write_loop en buf (of_nat m) st =
    (case find (\<lambda>k. m \<le> taken buf accepts k) [0..<Suc (length accepts)] of
       Some k \<Rightarrow> Some (if taken buf accepts k = m then Return (Inr ()) else Unwind Overflow,
         st\<lparr>tk_world := (drop k accepts, received @ copies buf accepts k)\<rparr>)
     | None \<Rightarrow> Some (Return (Inl NotConnected), st\<lparr>tk_world := ([], received @ copies buf accepts (length accepts))\<rparr>))"
  using assms(3,4)
proof (induction accepts arbitrary: m st received)
  case Nil
  have id: "st\<lparr>tk_world := ([], received)\<rparr> = st" using Nil by (cases st) simp
  have "m \<noteq> 0 \<Longrightarrow> (of_nat m :: usize) \<noteq> 0" using of_nat_usize_neq [of m 0] Nil.prems(2) by simp
  then show ?case using Nil assms(1) id by (cases "m = 0") (simp_all add: write_loop_step await_scripted)
next
  case (Cons a as)
  have id: "st\<lparr>tk_world := (a # as, received)\<rparr> = st" using Cons.prems by (cases st) simp
  show ?case
  proof (cases "m = 0")
    case False
    define n where "n = length (take a buf)"
    let ?s = "st\<lparr>tk_world := (as, received @ take a buf)\<rparr>"
    have nz: "(of_nat m :: usize) \<noteq> 0" using of_nat_usize_neq [of m 0] False Cons.prems(2) by simp
    have t: "taken buf (a # as) (Suc k) = n + taken buf as k" for k by (simp add: n_def)
    have f: "find (\<lambda>k. m \<le> taken buf (a # as) k) [0..<Suc (length (a # as))] =
        map_option Suc (find (\<lambda>k. m \<le> n + taken buf as k) [0..<Suc (length as)])"
      using False unfolding find_upt_Suc [of _ "length (a # as)"] t by simp
    have e: "write_loop en buf (of_nat m) st =
        (case usize_sub True (of_nat m) (of_nat n) of
           Inl p \<Rightarrow> Some (Unwind p, ?s)
         | Inr remaining' \<Rightarrow> write_loop en buf remaining' ?s)"
      using nz Cons.prems assms(1,2) by (simp add: write_loop_step await_scripted n_def)
    have um: "unat (of_nat m :: usize) = m" "unat (of_nat n :: usize) = n"
      using Cons.prems(2) assms(5) by (auto intro!: unat_of_nat_small simp: n_def)
    show ?thesis
    proof (cases "m < n")
      case True
      then have "find (\<lambda>k. m \<le> n + taken buf as k) [0..<Suc (length as)] = Some 0" by (simp add: find_upt_Suc del: upt_Suc)
      moreover have "(of_nat m :: usize) < of_nat n" using True um by (simp add: word_less_nat_alt)
      ultimately show ?thesis using True unfolding e f by (simp add: usize_sub_def t del: taken_simps(2))
    next
      case le: False
      have "\<not> (of_nat m :: usize) < of_nat n" using le um by (simp add: word_less_nat_alt)
      moreover have "(of_nat m :: usize) - of_nat n = of_nat (m - n)" using le by (metis not_less of_nat_diff)
      ultimately have e': "write_loop en buf (of_nat m) st = write_loop en buf (of_nat (m - n)) ?s"
        unfolding e by (simp add: usize_sub_def)
      have f': "(\<lambda>k. m \<le> n + taken buf as k) = (\<lambda>k. m - n \<le> taken buf as k)" using le by auto
      have g: "n + taken buf as k = m \<longleftrightarrow> taken buf as k = m - n" for k using le by auto
      have "m - n < 2 ^ 64" using Cons.prems(2) by simp
      from Cons.IH [of ?s "received @ take a buf" "m - n", OF _ this] show ?thesis
        unfolding e' f f' by (simp add: t g del: taken_simps(2) split: option.split)
    qed
  qed (use id in \<open>simp add: find_upt_Suc [of _ "Suc (length as)"] del: upt_Suc\<close>)
qed


text \<open>One request to the state machine on a socket that takes the page in one write.\<close>

lemma state_machine_run:
  assumes "task_ok en st" and "1087 \<le> room en st"
    and "await_io (sk_read (en_socket en) 1024) (tk_world st) = Some (r, w1)"
    and "await_io (sk_write (en_socket en) page) w1 = Some (q, w2)"
    and "q = Inr (length page) \<or> (\<exists>e. q = Inl e)"
  shows "\<exists>st'. state_machine_handler en bucket_index tcp_stream st =
      Some (Return (case r of Inl e \<Rightarrow> Inl e | Inr _ \<Rightarrow> map_sum id (\<lambda>_. ()) q), st') \<and>
    same_but_memory (st\<lparr>tk_world := (case r of Inl e \<Rightarrow> w1 | Inr _ \<Rightarrow> w2)\<rparr>) st'"
proof -
  obtain s1 where s1: "raw_allocate en 1024 st = Some (Return (), s1)" "task_ok en s1" "room en s1 = room en st - 1024"
    "same_but_memory st s1"
    by (rule raw_allocate_ok [OF assms(1), of 1024]) (use assms(2) in auto)
  have w: "tk_world s1 = tk_world st" using same_but_memory_world [OF s1(4)] by simp
  note start = state_machine_handler_def handler_loop_Initial s1(1)
  show ?thesis
  proof (cases r)
    case (Inl e)
    then show ?thesis
      using assms(3) w same_but_memory_set_world [OF s1(4)] by (simp add: start await_read_def on_world_simps)
  next
    case (Inr bytes)
    let ?s2 = "s1\<lparr>tk_world := w1\<rparr>"
    obtain s3 where s3: "raw_allocate en 63 ?s2 = Some (Return (), s3)" "same_but_memory ?s2 s3"
      by (rule raw_allocate_ok [of en ?s2 63]) (use assms(2) s1 in auto)
    have w3: "tk_world s3 = w1" using same_but_memory_world [OF s3(2)] by simp
    have "write_loop en page 63 s3 = Some (Return (map_sum id (\<lambda>_. ()) q), s3\<lparr>tk_world := w2\<rparr>)"
      using assms(4,5) w3 by (auto simp: write_loop_step page_eq usize_sub_def)
    then have "state_machine_handler en bucket_index tcp_stream st =
        Some (Return (map_sum id (\<lambda>_. ()) q), s3\<lparr>tk_world := w2\<rparr>)"
      using Inr assms(3,5) w s3(1)
      by (auto simp: start await_read_def on_world_simps handler_loop_Read handler_loop_Writing)
    moreover have "same_but_memory (st\<lparr>tk_world := w2\<rparr>) (s3\<lparr>tk_world := w2\<rparr>)"
      using same_but_memory_set_world [OF s1(4), of w2] same_but_memory_set_world [OF s3(2), of w2]
      by (auto intro: same_but_memory_trans)
    ultimately show ?thesis using Inr by auto
  qed
qed

subsection \<open>The memory request\<close>

definition request_line :: "nat \<Rightarrow> u8 list" where
  "request_line n = bytes_of ''GET /'' @ bytes_of (show_nat n) @ bytes_of '' HTTP/1.1'' @ crlf"

lemma valid_utf8_ascii_append: "ascii a \<Longrightarrow> valid_utf8 (a @ b) = valid_utf8 b"
  by (induction a) simp_all

lemma request_line_kbs:
  assumes "valid_utf8 rest"
  shows "requested_kbs (request_line n @ rest) = (if n < 2 ^ 64 then Ok (of_nat n) else Panic Unwrap)"
proof -
  let ?d = "bytes_of (show_nat n)" and ?http = "bytes_of ''HTTP/1.1'' @ crlf @ rest"
  have d: "ascii ?d" "list_all (\<lambda>b. \<not> white_space [b]) ?d" "list_all (\<lambda>b. b \<noteq> 43 \<and> \<not> utf8_cont b) ?d" "?d \<noteq> []"
    using bytes_of_digits [OF show_nat_digits [of n]] show_nat_ne [of n] by (auto simp: bytes_of_def)
  have w: "word (bytes_of ''GET'')" "word (47 # ?d)"
    using d by (simp_all add: word_def bytes_of_Cons white_space_def)
  have line: "request_line n @ rest = bytes_of ''GET'' @ 32 # (47 # ?d) @ 32 # ?http"
    by (simp add: request_line_def bytes_of_Cons)
  have valid: "valid_utf8 (request_line n @ rest)"
    using d(1) assms by (simp add: request_line_def bytes_of_Cons crlf_def valid_utf8_ascii_append)
  have split: "split_whitespace (request_line n @ rest) = bytes_of ''GET'' # (47 # ?d) # split_whitespace ?http"
    unfolding line split_whitespace_word [OF w(1)] split_whitespace_word [OF w(2)] ..
  have "is_char_boundary (47 # ?d) 1" using d(3,4) by (cases ?d) (auto simp: is_char_boundary_def)
  then show ?thesis
    using valid by (simp add: requested_kbs_def from_utf8_def split nth_option_def str_from_def parse_usize_show)
qed

lemma oom_pieces_length: "length (concat (oom_pieces kbs)) \<le> 101"
proof -
  have "length (show_nat (unat kbs)) \<le> 20"
  proof (rule length_show_nat_le)
    have "unat kbs < 2 ^ LENGTH(64)" by (rule unsigned_less)
    then show "unat kbs < 10 ^ 20" by simp
  qed simp
  then show ?thesis by (simp add: oom_pieces_def head_text_def [symmetric] crlf_def)
qed

lemma and_then_ret [simp]:
  "and_then (ret x s) f = f x s"
  "and_then (and_then r (\<lambda>_. ret v)) g = and_then r (\<lambda>_. g v)"
  by (simp_all add: and_then_def ret_def split: option.split prod.split control.split)

text \<open>The handler after it has read a request that asks for \<open>kbs\<close> kilobytes.\<close>

lemma oom_handler_read:
  assumes "await_io (sk_read (en_socket en) 1024) (tk_world st) = Some (Inr bytes, w1)" and "length bytes \<le> 1024"
  shows "oom_handler en b ts st =
    (case requested_kbs bytes of
       Inl p \<Rightarrow> Some (Unwind p, st\<lparr>tk_world := w1\<rparr>)
     | Inr kbs \<Rightarrow>
         (if en_overflow_checks en \<and> 2 ^ 64 \<le> unat kbs * 1000 then Some (Unwind Overflow, st\<lparr>tk_world := w1\<rparr>)
          else
            and_then (raw_allocate en (unat (kbs * 1000)) (st\<lparr>tk_world := w1\<rparr>)) (\<lambda>_ s.
            and_then (vec_write_pieces en (oom_pieces kbs) vec_new s) (\<lambda>response.
            unwrap_io (await_write en (vec_bytes response)) (\<lambda>_. ret (Inr ()))))))"
proof -
  have "await_read en 1024 st = Some (Return (Inr bytes), st\<lparr>tk_world := w1\<rparr>)"
    using assms(1) by (simp add: await_read_def on_world_simps)
  then have e: "oom_handler en b ts st =
      bind_action (lift_panic (requested_kbs bytes)) (\<lambda>kbs.
      bind_action (lift_panic (usize_mul (en_overflow_checks en) kbs 1000)) (\<lambda>capacity.
      bind_action (vec_with_capacity en (unat capacity)) (\<lambda>_.
      bind_action (vec_write_pieces en (oom_pieces kbs) vec_new) (\<lambda>response.
      unwrap_io (await_write en (vec_bytes response)) (\<lambda>_. ret (Inr ())))))) (st\<lparr>tk_world := w1\<rparr>)"
    using assms(2) by (simp add: oom_handler_def unwrap_io_def bind_action_def read_slice_def)
  show ?thesis
  proof (cases "requested_kbs bytes")
    case (Inr kbs)
    show ?thesis
    proof (cases "en_overflow_checks en \<and> 2 ^ 64 \<le> unat kbs * 1000")
      case True
      then show ?thesis unfolding e using Inr by (simp add: usize_mul_def panics_def)
    next
      case False
      then have "usize_mul (en_overflow_checks en) kbs 1000 = Ok (kbs * 1000)" by (auto simp: usize_mul_def)
      with False show ?thesis unfolding e using Inr by (auto simp: bind_action_def [abs_def] vec_with_capacity_def)
    qed
  qed (use e in \<open>simp add: panics_def\<close>)
qed

text \<open>Building the reply: it takes at most 404 bytes of the bucket.\<close>

lemma oom_reply_built:
  assumes "task_ok en s"
  shows "(\<exists>v s'. vec_write_pieces en (oom_pieces kbs) vec_new s = Some (Return v, s') \<and>
      vec_bytes v = concat (oom_pieces kbs) \<and> same_but_memory s s') \<or>
    room en s < 404 \<and> (\<exists>s'. vec_write_pieces en (oom_pieces kbs) vec_new s = Some (LongJmp 1, s') \<and> same_but_memory s s')"
proof (cases "404 \<le> room en s")
  case True
  then show ?thesis
    using vec_write_pieces_ok [OF assms vec_new_ok(1), of "oom_pieces kbs" 101] oom_pieces_length [of kbs]
    by (auto simp: cap_bound_def)
next
  case False
  then show ?thesis
    using vec_write_pieces_cases [OF assms vec_new_ok(1), of "oom_pieces kbs" 101] oom_pieces_length [of kbs]
    by (auto simp: cap_bound_def)
qed

definition oom_reply_sent ::
    "('f, 'c, 'w) env \<Rightarrow> ('f, 'c, 'w) task_state \<Rightarrow> u8 list \<Rightarrow> 'w \<Rightarrow>
     (unit io_result control \<times> ('f, 'c, 'w) task_state) option \<Rightarrow> bool" where
  "oom_reply_sent en st text w result \<longleftrightarrow>
     (case await_io (sk_write (en_socket en) text) w of
        None \<Rightarrow> result = None
      | Some (Inl e, w2) \<Rightarrow> \<exists>st'. result = Some (Unwind Unwrap, st') \<and> same_but_memory (st\<lparr>tk_world := w2\<rparr>) st'
      | Some (Inr _, w2) \<Rightarrow> \<exists>st'. result = Some (Return (Inr ()), st') \<and> same_but_memory (st\<lparr>tk_world := w2\<rparr>) st')"

lemma oom_handler_reply:
  fixes st :: "('f, 'c, 'w) task_state"
  assumes "task_ok en (st\<lparr>tk_world := w1\<rparr>)" and "n < 2 ^ 63" and "n \<le> room en (st\<lparr>tk_world := w1\<rparr>)"
    and "H = and_then (raw_allocate en n (st\<lparr>tk_world := w1\<rparr>)) (\<lambda>_ s.
         and_then (vec_write_pieces en (oom_pieces kbs) vec_new s) (\<lambda>response.
         unwrap_io (await_write en (vec_bytes response)) (\<lambda>_. ret (Inr ()))))"
  shows "oom_reply_sent en st (concat (oom_pieces kbs)) w1 H \<or>
    room en (st\<lparr>tk_world := w1\<rparr>) < n + 404 \<and> (\<exists>st'. H = Some (LongJmp 1, st') \<and> same_but_memory (st\<lparr>tk_world := w1\<rparr>) st')"
proof -
  let ?st = "st\<lparr>tk_world := w1\<rparr>"
  obtain s1 where s1: "raw_allocate en n ?st = Some (Return (), s1)" "task_ok en s1"
    "room en s1 = room en ?st - n" "same_but_memory ?st s1"
    by (rule raw_allocate_ok [OF assms(1) _ assms(2)]) (use assms(3) in auto)
  from oom_reply_built [OF s1(2), of kbs] show ?thesis
  proof (elim disjE exE conjE)
    fix v s2
    assume v: "vec_write_pieces en (oom_pieces kbs) vec_new s1 = Some (Return v, s2)"
      "vec_bytes v = concat (oom_pieces kbs)" "same_but_memory s1 s2"
    note mem = same_but_memory_trans [OF s1(4) v(3)]
    have w: "tk_world s2 = w1" using same_but_memory_world [OF mem] by simp
    have "same_but_memory (st\<lparr>tk_world := w2\<rparr>) (s2\<lparr>tk_world := w2\<rparr>)" for w2
      using same_but_memory_set_world [OF mem, of w2] by simp
    then have "oom_reply_sent en st (concat (oom_pieces kbs)) w1 H"
      using w by (auto simp: oom_reply_sent_def assms(4) s1(1) v(1,2) unwrap_io_def bind_action_def await_write_def
          on_world_def ret_def panics_def split: option.split sum.split)
    then show ?thesis ..
  next
    fix s2
    assume "room en s1 < 404" and v: "vec_write_pieces en (oom_pieces kbs) vec_new s1 = Some (LongJmp 1, s2)"
      "same_but_memory s1 s2"
    moreover have "H = Some (LongJmp 1, s2)" using v(1) by (simp add: assms(4) s1(1))
    ultimately show ?thesis using s1(3) same_but_memory_trans [OF s1(4) v(2)] assms(3) by auto
  qed
qed

lemma oom_handler_cases:
  assumes "task_ok en st" and "await_io (sk_read (en_socket en) 1024) (tk_world st) = Some (Inr bytes, w1)"
    and "length bytes \<le> 1024"
  shows "case requested_kbs bytes of
       Inl p \<Rightarrow> oom_handler en b ts st = Some (Unwind p, st\<lparr>tk_world := w1\<rparr>)
     | Inr kbs \<Rightarrow>
         let n = unat kbs * 1000 mod 2 ^ 64 in
         if en_overflow_checks en \<and> 2 ^ 64 \<le> unat kbs * 1000 then
           oom_handler en b ts st = Some (Unwind Overflow, st\<lparr>tk_world := w1\<rparr>)
         else if 2 ^ 63 \<le> n then
           oom_handler en b ts st = Some (Unwind (Explicit ''capacity overflow''), st\<lparr>tk_world := w1\<rparr>)
         else if room en st < n then oom_handler en b ts st = Some (LongJmp 1, st\<lparr>tk_world := w1\<rparr>)
         else oom_reply_sent en st (concat (oom_pieces kbs)) w1 (oom_handler en b ts st) \<or>
           room en st < n + 404 \<and>
           (\<exists>st'. oom_handler en b ts st = Some (LongJmp 1, st') \<and> same_but_memory (st\<lparr>tk_world := w1\<rparr>) st')"
proof (cases "requested_kbs bytes")
  case (Inl p)
  then show ?thesis using oom_handler_read [OF assms(2,3)] by simp
next
  case (Inr kbs)
  let ?st = "st\<lparr>tk_world := w1\<rparr>"
  define n where "n = unat (kbs * 1000)"
  have n: "unat kbs * 1000 mod 2 ^ 64 = n" by (simp add: n_def unat_word_ariths)
  note e = oom_handler_read [OF assms(2,3), of b ts, unfolded Inr sum.case, folded n_def]
  have ok: "task_ok en ?st" "room en ?st = room en st" using assms(1) by simp_all
  show ?thesis
  proof (cases "en_overflow_checks en \<and> 2 ^ 64 \<le> unat kbs * 1000")
    case True
    then show ?thesis using e Inr by (simp add: Let_def)
  next
    case nof: False
    note e = e [unfolded if_not_P [OF nof]]
    consider "2 ^ 63 \<le> n" | "n < 2 ^ 63" "room en st < n" | "n < 2 ^ 63" "\<not> room en st < n"
      by (metis not_less)
    then show ?thesis
    proof cases
      case 1
      then have "n \<noteq> 0" "\<not> n < 2 ^ 63" by auto
      then have "raw_allocate en n ?st = Some (Unwind (Explicit ''capacity overflow''), ?st)"
        by (simp only: raw_allocate_def if_False panics_def)
      then show ?thesis unfolding Inr sum.case Let_def n if_not_P [OF nof] using e 1 by simp
    next
      case 2
      then have "raw_allocate en n ?st = Some (LongJmp 1, ?st)"
        by (intro raw_allocate_oom) (use assms(1) in simp_all)
      then show ?thesis unfolding Inr sum.case Let_def n if_not_P [OF nof] using e 2 by simp
    next
      case 3
      from oom_handler_reply [OF ok(1) 3(1) _ e] 3 ok(2) show ?thesis
        unfolding Inr sum.case Let_def n if_not_P [OF nof] by simp
    qed
  qed
qed

subsection \<open>The static file\<close>

definition file_reply :: "u8 list" where
  "file_reply = concat (response_head @ [main_for_host [], crlf])"

lemma file_reply_eq: "concat (response_head @ [main_for_host body, crlf]) = file_reply"
  by (simp add: file_reply_def main_for_host_def)

lemma length_file_reply: "length file_reply \<le> 256"
  by (simp add: file_reply_def main_for_host_def cargo_toml_def head_text_def [symmetric] crlf_def)

text \<open>Pieces that fit the capacity are appended without allocating.\<close>

lemma vec_write_pieces_fit:
  "length (vec_bytes v) + length (concat ps) \<le> vec_cap v \<Longrightarrow>
   vec_write_pieces en ps v st = Some (Return (v\<lparr>vec_bytes := vec_bytes v @ concat ps\<rparr>), st)"
  by (induction ps arbitrary: v) (simp_all add: ret_def vec_write_all_def bind_action_def)

text \<open>
  What becomes of every request to \<open>send-static-file.rs\<close>: no UTF-8 is a panic, no blank line is reported
  and ends the request without a reply, everything else is answered with the file.
\<close>

theorem static_file_behaviour:
  assumes "task_ok en st" and "512 \<le> room en st" and "length bytes \<le> 1024"
    and "await_io (sk_read (en_socket en) 1024) (tk_world st) = Some (Inr bytes, w1)"
  shows "if \<not> valid_utf8 bytes then
      send_static_file_handler en b ts st = Some (Unwind Unwrap, st\<lparr>tk_world := w1\<rparr>)
    else if \<nexists>x y. bytes = x @ (crlf @ crlf) @ y then
      send_static_file_handler en b ts st =
        Some (Return (Inr ()), st\<lparr>tk_world := w1, tk_stderr := ''invalid input'' # tk_stderr st\<rparr>)
    else
      (case await_io (sk_write (en_socket en) file_reply) w1 of
         None \<Rightarrow> send_static_file_handler en b ts st = None
       | Some (Inl e, w2) \<Rightarrow> \<exists>st'. send_static_file_handler en b ts st = Some (Unwind Unwrap, st') \<and>
           same_but_memory (st\<lparr>tk_world := w2\<rparr>) st'
       | Some (Inr _, w2) \<Rightarrow> \<exists>st'. send_static_file_handler en b ts st = Some (Return (Inr ()), st') \<and>
           same_but_memory (st\<lparr>tk_world := w2\<rparr>) st')"
proof -
  let ?st = "st\<lparr>tk_world := w1\<rparr>" and ?h = "send_static_file_handler en b ts st"
  have read: "await_read en 1024 st = Some (Return (Inr bytes), ?st)"
    using assms(4) by (simp add: await_read_def on_world_simps)
  note e = send_static_file_handler_def unwrap_io_def bind_action_def read read_slice_def assms(3)
  show ?thesis
  proof (cases "valid_utf8 bytes")
    case False
    then show ?thesis by (simp add: e from_utf8_def ret_def panics_def)
  next
    case valid: True
    show ?thesis
    proof (cases "split_once (crlf @ crlf) bytes")
      case None
      moreover have "\<nexists>x y. bytes = x @ (crlf @ crlf) @ y" using None unfolding split_once_None .
      ultimately show ?thesis using valid by (simp add: e from_utf8_def ret_def eprintln_def)
    next
      case (Some xy)
      then have found: "\<exists>x y. bytes = x @ (crlf @ crlf) @ y" using split_once_None by (metis option.distinct(1))
      obtain s1 where s1: "raw_allocate en 512 ?st = Some (Return (), s1)" "same_but_memory ?st s1"
        by (rule raw_allocate_ok [of en ?st 512]) (use assms(1,2) in auto)
      let ?v = "\<lparr>vec_bytes = [], vec_cap = 512\<rparr>"
      have fit: "vec_write_pieces en (response_head @ [main_for_host body, crlf]) ?v s1 =
          Some (Return (?v\<lparr>vec_bytes := file_reply\<rparr>), s1)" for body
        using vec_write_pieces_fit [of ?v "response_head @ [main_for_host body, crlf]" en s1] length_file_reply
        unfolding file_reply_eq by simp
      have h: "?h = and_then (await_write en file_reply s1) (\<lambda>r. case r of Inl e \<Rightarrow> panics Unwrap | Inr x \<Rightarrow> ret (Inr ()))"
        using valid Some s1(1) fit
        by (cases xy) (simp add: e from_utf8_def ret_def [of bytes] vec_with_capacity_def Let_def)
      have w: "tk_world s1 = w1" using same_but_memory_world [OF s1(2)] by simp
      have "same_but_memory (st\<lparr>tk_world := w2\<rparr>) (s1\<lparr>tk_world := w2\<rparr>)" for w2
        using same_but_memory_set_world [OF s1(2), of w2] by simp
      then show ?thesis
        using valid found w
        by (auto simp: h await_write_def on_world_def ret_def panics_def split: option.split sum.split)
    qed
  qed
qed

subsection \<open>The proxy\<close>

text \<open>
  When the upstream request succeeds, \<open>hyper.rs\<close> answers with the request it has read, inside the
  tags and cut off at 1024 bytes; errors of the write and of the flush are its result.
\<close>

theorem hyper_app_reply:
  assumes "await_io (sk_read (en_socket en) 1024) (tk_world st) = Some (Inr input, w1)" and "length input \<le> 1024"
    and "valid_utf8 input" and "hy_parse_uri hy ''http://0.0.0.0:8000/Cargo.toml'' = Some (Some host, port)"
    and "handshake en hy b host (case port of None \<Rightarrow> 80 | Some p \<Rightarrow> p) (st\<lparr>tk_world := w1\<rparr>) =
      Some (Return (Inr sender), s1)"
    and "hy_build_request hy [(''Host'', ''example.com'')] ''GET'' = Some req"
    and "hy_send_request hy sender req s1 = Some (Return (Some res), s2)"
    and "drain_frames hy res s2 = Some (Return (), s3)"
  shows "hyper_app en hy b ts st =
    or_return (await_write en (take 1024 (head_text @ bytes_of ''<html>'' @ input @ bytes_of ''</html>'')) s3)
      (\<lambda>_. await_flush en)"
proof -
  have read: "await_read en 1024 st = Some (Return (Inr input), st\<lparr>tk_world := w1\<rparr>)"
    using assms(1) by (simp add: await_read_def on_world_simps)
  have flush: "try_io (await_flush en) (\<lambda>_. ret (Inr ())) = await_flush en"
    by (rule ext) (auto simp: try_io_def await_flush_def on_world_def ret_def or_return_def
        split: option.split sum.split)
  show ?thesis
    using assms
    by (simp add: hyper_app_def try_io_def unwrap_io_def bind_action_def read read_slice_def flush
        ret_def [of input] ret_def [of host] from_utf8_def cursor_response_eq Let_def
        del: take_append)
qed

subsection \<open>Properties\<close>

text \<open>
  C34: the response through a cursor is the text cut off at 1024 bytes. The writes that
  \<open>hyper.rs\<close> and \<open>state-machine-html.rs\<close> make into their array give the first 1024 bytes of head, opening
  tag, input and closing tag, and the whole text exactly when the input has at most 967 bytes.
\<close>

theorem cursor_response_is_cut_text:
  "cursor_response input = take 1024 (concat response_head @ bytes_of ''<html>'' @ input @ bytes_of ''</html>'') \<and>
   (cursor_response input = concat response_head @ bytes_of ''<html>'' @ input @ bytes_of ''</html>'' \<longleftrightarrow>
      length input \<le> 967)"
proof -
  let ?t = "head_text @ bytes_of ''<html>'' @ input @ bytes_of ''</html>''"
  have "length ?t = length input + 57" by simp
  then have "take 1024 ?t = ?t \<longleftrightarrow> length input \<le> 967" unfolding take_all_iff by simp
  then show ?thesis unfolding cursor_response_eq head_text_def [symmetric] by (intro conjI refl)
qed

text \<open>
  C33: the state machine reads once, sends its page once and ends. When the socket accepts the page in
  one write (or reports an error), the handler returns; it has read once and, unless the read failed,
  written the page once; an error of either is its result. Apart from the streams only memory of the
  bucket has changed.
\<close>

theorem state_machine_serves_page:
  assumes "task_ok en st" and "1087 \<le> room en st"
    and "await_io (sk_read (en_socket en) 1024) (tk_world st) = Some (r, w1)"
    and "await_io (sk_write (en_socket en) page) w1 = Some (q, w2)"
    and "q = Inr (length page) \<or> (\<exists>e. q = Inl e)"
  shows "\<exists>st'. state_machine_handler en bucket_index tcp_stream st =
      Some (Return (case r of Inl e \<Rightarrow> Inl e | Inr _ \<Rightarrow> map_sum id (\<lambda>_. ()) q), st') \<and>
    same_but_memory (st\<lparr>tk_world := (case r of Inl e \<Rightarrow> w1 | Inr _ \<Rightarrow> w2)\<rparr>) st'"
  by (rule state_machine_run [OF assms])

text \<open>
  C35: the loop of \<open>Cmd::Write\<close> passes the whole buffer to every write, whatever was accepted before. On a connection whose \<open>k\<close>-th
  write takes at most \<open>accepts ! k\<close> bytes, the client receives the beginning of the buffer once per write. The
  loop succeeds at the first write after which the accepted bytes, counted modulo $2^{64}$, add up to the length of the
  buffer; a count that steps over it wraps and the loop goes on, in the end until the connection is gone. With
  overflow checks, stepping over is a panic.
\<close>

theorem short_write_resends:
  assumes "en_socket en = scripted_socket" and "tk_world st = (accepts, received)" and "length buf < 2 ^ 64"
  shows "write_loop en buf (of_nat (length buf)) st =
    (if en_overflow_checks en then
       (case find (\<lambda>k. length buf \<le> taken buf accepts k) [0..<Suc (length accepts)] of
          Some k \<Rightarrow> Some (if taken buf accepts k = length buf then Return (Inr ()) else Unwind Overflow,
            st\<lparr>tk_world := (drop k accepts, received @ copies buf accepts k)\<rparr>)
        | None \<Rightarrow> Some (Return (Inl NotConnected),
            st\<lparr>tk_world := ([], received @ copies buf accepts (length accepts))\<rparr>))
     else
       (case find (\<lambda>k. taken buf accepts k mod 2 ^ 64 = length buf) [0..<Suc (length accepts)] of
          Some k \<Rightarrow> Some (Return (Inr ()), st\<lparr>tk_world := (drop k accepts, received @ copies buf accepts k)\<rparr>)
        | None \<Rightarrow> Some (Return (Inl NotConnected),
            st\<lparr>tk_world := ([], received @ copies buf accepts (length accepts))\<rparr>)))"
proof (cases "en_overflow_checks en")
  case True
  then show ?thesis using write_loop_checks [OF assms(1) True assms(2,3,3)] by simp
next
  case False
  have "(\<lambda>k. of_nat (taken buf accepts k) = (of_nat (length buf) :: usize)) = (\<lambda>k. taken buf accepts k mod 2 ^ 64 = length buf)"
    using assms(3) by (auto simp: fun_eq_iff word_unat_eq_iff unat_of_nat)
  then show ?thesis using write_loop_wraps [OF assms(1) False assms(2), of buf "of_nat (length buf)"] False by simp
qed

text \<open>
  C32: what becomes of every request to \<open>oom.rs\<close>. A request that is not UTF-8, has no second word or
  no number in it makes the handler panic, before it has allocated or sent anything; \<open>GET /k\<close> asks for
  \<open>k\<close> if \<open>k\<close> fits 64 bits and panics otherwise. For a number \<open>k\<close> the handler reserves \<open>n = k * 1000\<close> bytes, taken
  modulo $2^{64}$, or panics when the product overflows and overflow is checked. More than \<open>isize::MAX\<close> is a panic, more
  than the bucket has left is the jump out of memory with nothing sent. Otherwise the response is written once, and failing to
  write it is a panic; only with less than 404 further bytes at hand the jump, with nothing sent, is possible too.
\<close>

theorem oom_handler_behaviour:
  assumes "task_ok en st" and "length bytes \<le> 1024"
    and "await_io (sk_read (en_socket en) 1024) (tk_world st) = Some (Inr bytes, w1)"
  shows "(\<not> valid_utf8 bytes \<or> length (split_whitespace bytes) < 2 \<longrightarrow> requested_kbs bytes = Panic Unwrap) \<and>
    (\<forall>k rest. bytes = request_line k @ rest \<and> valid_utf8 rest \<longrightarrow>
       requested_kbs bytes = (if k < 2 ^ 64 then Ok (of_nat k) else Panic Unwrap)) \<and>
    (case requested_kbs bytes of
       Inl p \<Rightarrow> oom_handler en b ts st = Some (Unwind p, st\<lparr>tk_world := w1\<rparr>)
     | Inr kbs \<Rightarrow>
         let n = unat kbs * 1000 mod 2 ^ 64 in
         if en_overflow_checks en \<and> 2 ^ 64 \<le> unat kbs * 1000 then
           oom_handler en b ts st = Some (Unwind Overflow, st\<lparr>tk_world := w1\<rparr>)
         else if 2 ^ 63 \<le> n then
           oom_handler en b ts st = Some (Unwind (Explicit ''capacity overflow''), st\<lparr>tk_world := w1\<rparr>)
         else if room en st < n then oom_handler en b ts st = Some (LongJmp 1, st\<lparr>tk_world := w1\<rparr>)
         else
           (case await_io (sk_write (en_socket en) (concat (oom_pieces kbs))) w1 of
              None \<Rightarrow> oom_handler en b ts st = None
            | Some (Inl e, w2) \<Rightarrow> \<exists>st'. oom_handler en b ts st = Some (Unwind Unwrap, st') \<and>
                same_but_memory (st\<lparr>tk_world := w2\<rparr>) st'
            | Some (Inr _, w2) \<Rightarrow> \<exists>st'. oom_handler en b ts st = Some (Return (Inr ()), st') \<and>
                same_but_memory (st\<lparr>tk_world := w2\<rparr>) st') \<or>
           room en st < n + 404 \<and>
           (\<exists>st'. oom_handler en b ts st = Some (LongJmp 1, st') \<and> same_but_memory (st\<lparr>tk_world := w1\<rparr>) st'))"
proof (intro conjI)
  show "\<not> valid_utf8 bytes \<or> length (split_whitespace bytes) < 2 \<longrightarrow> requested_kbs bytes = Panic Unwrap"
    by (auto simp: requested_kbs_def from_utf8_def nth_option_def)
  show "\<forall>k rest. bytes = request_line k @ rest \<and> valid_utf8 rest \<longrightarrow>
       requested_kbs bytes = (if k < 2 ^ 64 then Ok (of_nat k) else Panic Unwrap)"
    using request_line_kbs by blast
qed (use oom_handler_cases [OF assms(1,3,2)] in \<open>simp only: oom_reply_sent_def\<close>)

subsection \<open>Concrete requests\<close>

text \<open>Bucket 1 of the example server, with 8192 bytes.\<close>

definition example_env :: "'w socket \<Rightarrow> (nat, unit, 'w) env" where
  "example_env sk = \<lparr>en_app = example_app, en_arena = 1, en_socket = sk, en_overflow_checks = False\<rparr>"

definition example_task :: "'w \<Rightarrow> (nat, unit, 'w) task_state" where
  "example_task w = \<lparr>tk_exec = example_exec\<lparr>ex_alloc := example_server\<rparr>, tk_world = w, tk_stderr = []\<rparr>"

lemma example_task_simps [simp]:
  "task_ok (example_env sk) (example_task w)" "room (example_env sk) (example_task w) = 8192"
  "tk_world (example_task w) = w" "en_socket (example_env sk) = sk"
  using example_server_ok [of 1] example_bucket_arena
  by (simp_all add: task_ok_def room_def arena_of_def example_env_def example_task_def arena_free_def
      example_bucket_values)

theorem state_machine_serves_page_witness:
  "\<exists>st'. state_machine_handler (example_env scripted_socket) (own_bucket 1) \<lparr>ts_fd = 7, ts_token = 0\<rparr>
      (example_task ([63], [])) = Some (Return (Inr ()), st') \<and> tk_world st' = ([], page)"
proof -
  have w: "await_io (sk_write scripted_socket page) ([63], []) = Some (Inr 63, [], page)"
    by (simp add: await_scripted page_eq)
  from state_machine_serves_page [of "example_env scripted_socket" "example_task ([63], [])", simplified,
      OF await_scripted(3) w]
  obtain st' where "state_machine_handler (example_env scripted_socket) (own_bucket 1) \<lparr>ts_fd = 7, ts_token = 0\<rparr>
      (example_task ([63], [])) = Some (Return (Inr ()), st')"
    "same_but_memory (example_task ([63], [])\<lparr>tk_world := ([], page)\<rparr>) st'"
    by (auto simp: page_eq)
  then show ?thesis using same_but_memory_world [of _ st'] by auto
qed

text \<open>
  A client that takes 40 of the 63 bytes and then 23 ends the loop after it has received the first 40 and the
  first 23 bytes; one that takes 40 and then all bytes of every write gets page after page.
\<close>

theorem short_write_resends_witness:
  "write_loop (example_env scripted_socket) page (of_nat (length page)) (example_task ([40, 23, 63], [])) =
     Some (Return (Inr ()), (example_task ([40, 23, 63], []))\<lparr>tk_world := ([63], take 40 page @ take 23 page)\<rparr>) \<and>
   write_loop (example_env scripted_socket) page (of_nat (length page)) (example_task ([40, 63, 63], [])) =
     Some (Return (Inl NotConnected), (example_task ([40, 63, 63], []))\<lparr>tk_world := ([], take 40 page @ page @ page)\<rparr>)"
  using short_write_resends [of "example_env scripted_socket" "example_task ([40, 23, 63], [])" "[40, 23, 63]" "[]" page]
    short_write_resends [of "example_env scripted_socket" "example_task ([40, 63, 63], [])" "[40, 63, 63]" "[]" page]
  by (simp add: page_eq taken_def copies_def example_env_def upt_rec)

text \<open>A request for 9 kilobytes in a bucket of 8192 bytes.\<close>

definition nine_socket :: "unit socket" where
  "nine_socket =
     \<lparr>sk_read = (\<lambda>n w. (Inr (request_line 9), w)), sk_write = (\<lambda>buf w. (Inr (length buf), w)),
      sk_flush = (\<lambda>w. (Inr (), w)), sk_shutdown = (\<lambda>w. (Inr (), w))\<rparr>"

theorem oom_handler_behaviour_witness:
  "oom_handler (example_env nine_socket) (own_bucket 1) \<lparr>ts_fd = 7, ts_token = 0\<rparr> (example_task ()) =
     Some (LongJmp 1, example_task ())"
proof -
  have r: "await_io (sk_read nine_socket 1024) () = Some (Inr (request_line 9), ())"
    by (rule await_io_ready) (simp_all add: nine_socket_def)
  have "length (request_line 9) \<le> 1024"
    using length_show_nat_le [of 1 9] by (simp add: request_line_def crlf_def)
  note b = oom_handler_behaviour [of "example_env nine_socket" "example_task ()" "request_line 9" "()",
      simplified, OF this r]
  have "requested_kbs (request_line 9 @ []) = Ok (of_nat 9)" using b by fastforce
  then show ?thesis using b by (simp add: Let_def)
qed


end
