(* ===== verification/Log.thy ===== *)
theory Log
  imports Text
begin

section \<open>Logging (log/src/lib.rs)\<close>

text \<open>
  The level a process logs at, read once from the environment, the filter every logging macro
  applies and the line it writes. The date and time components come from the \<open>chrono\<close> crate and
  are an argument.
\<close>

record log_state =
  log_level :: u8

definition initial_log_state :: log_state where
  "initial_log_state = \<lparr>log_level = 2\<rparr>"

text \<open>\<open>init\<close>: the argument is the value of \<open>RUST_LOG\<close>, or \<open>None\<close> when it cannot be read.\<close>

definition init :: "string option \<Rightarrow> log_state \<Rightarrow> log_state" where
  "init rust_log s =
     s\<lparr>log_level :=
       (case rust_log of
          None \<Rightarrow> 2
        | Some value \<Rightarrow>
            (let v = to_ascii_lowercase value in
             if v = ''error'' then 0
             else if v = ''warn'' then 1
             else if v = ''info'' then 2
             else if v = ''debug'' then 3
             else if v = ''trace'' then 4
             else 2))\<rparr>"

record naive_date_time =
  nd_year :: nat
  nd_month :: nat
  nd_day :: nat
  nd_hour :: nat
  nd_minute :: nat
  nd_second :: nat

text \<open>The format \<open>{:02}\<close>.\<close>

definition pad2 :: "nat \<Rightarrow> string" where
  "pad2 n = replicate (2 - length (show_nat n)) (digit_char 0) @ show_nat n"

definition format_log ::
    "u8 \<Rightarrow> string \<Rightarrow> string \<Rightarrow> naive_date_time \<Rightarrow> string \<Rightarrow> log_state \<Rightarrow> string option" where
  "format_log log_level_int log_level_str module_path naive msg s =
     (if log_level s \<ge> log_level_int then
        Some (''['' @ show_nat (nd_year naive) @ ''-'' @ pad2 (nd_month naive) @ ''-'' @
          pad2 (nd_day naive) @ ''T'' @ pad2 (nd_hour naive) @ '':'' @ pad2 (nd_minute naive) @ '':'' @
          pad2 (nd_second naive) @ ''Z '' @ log_level_str @ '' '' @ module_path @ ''] '' @ msg)
      else None)"

definition escape :: "nat \<Rightarrow> string" where
  "escape colour = char_of (27::nat) # ''['' @ show_nat colour @ ''m''"

definition log_error :: "string \<Rightarrow> naive_date_time \<Rightarrow> string \<Rightarrow> log_state \<Rightarrow> string option" where
  "log_error = format_log 0 (escape 31 @ ''ERROR'' @ escape 0)"

definition log_warn :: "string \<Rightarrow> naive_date_time \<Rightarrow> string \<Rightarrow> log_state \<Rightarrow> string option" where
  "log_warn = format_log 1 (escape 33 @ ''WARN '' @ escape 0)"

definition log_info :: "string \<Rightarrow> naive_date_time \<Rightarrow> string \<Rightarrow> log_state \<Rightarrow> string option" where
  "log_info = format_log 2 (escape 32 @ ''INFO '' @ escape 0)"

definition log_debug :: "string \<Rightarrow> naive_date_time \<Rightarrow> string \<Rightarrow> log_state \<Rightarrow> string option" where
  "log_debug = format_log 3 (escape 34 @ ''DEBUG'' @ escape 0)"

definition log_trace :: "string \<Rightarrow> naive_date_time \<Rightarrow> string \<Rightarrow> log_state \<Rightarrow> string option" where
  "log_trace = format_log 4 (escape 36 @ ''TRACE'' @ escape 0)"

lemmas log_macros = log_error_def log_warn_def log_info_def log_debug_def log_trace_def

text \<open>
  C39: the levels are nested: whatever \<open>RUST_LOG\<close> holds, a macro that writes implies that every more
  severe macro writes, errors are always written, and the five names select exactly their own
  level and the more severe ones, in any letter case.
\<close>

theorem log_levels_nested:
  "let s = init v initial_log_state in
     log_error m d msg s \<noteq> None \<and>
     (log_trace m d msg s \<noteq> None \<longrightarrow> log_debug m d msg s \<noteq> None) \<and>
     (log_debug m d msg s \<noteq> None \<longrightarrow> log_info m d msg s \<noteq> None) \<and>
     (log_info m d msg s \<noteq> None \<longrightarrow> log_warn m d msg s \<noteq> None) \<and>
     (log_warn m d msg s = None \<longleftrightarrow> (\<exists>w. v = Some w \<and> to_ascii_lowercase w = ''error'')) \<and>
     (log_info m d msg s = None \<longleftrightarrow>
        (\<exists>w. v = Some w \<and> to_ascii_lowercase w \<in> {''error'', ''warn''})) \<and>
     (log_debug m d msg s \<noteq> None \<longleftrightarrow>
        (\<exists>w. v = Some w \<and> to_ascii_lowercase w \<in> {''debug'', ''trace''})) \<and>
     (log_trace m d msg s \<noteq> None \<longleftrightarrow> (\<exists>w. v = Some w \<and> to_ascii_lowercase w = ''trace''))"
  by (auto simp: Let_def init_def log_macros format_log_def word_le_nat_alt split: option.splits)

theorem log_levels_nested_witness:
  "log_info ''nea'' \<lparr>nd_year = 2023, nd_month = 9, nd_day = 19, nd_hour = 18, nd_minute = 10, nd_second = 27\<rparr>
     ''hello'' (init (Some ''Warn'') initial_log_state) = None"
proof -
  have "to_ascii_lowercase ''Warn'' = ''warn''" by code_simp
  then show ?thesis by (subst log_levels_nested [of "Some ''Warn''", unfolded Let_def, THEN conjunct2,
    THEN conjunct2, THEN conjunct2, THEN conjunct2, THEN conjunct2, THEN conjunct1]) simp
qed
end
