(* ===== verification/Config.thy ===== *)
theory Config
  imports Index
begin

section \<open>Configuration (nea/src/config.rs)\<close>

text \<open>
  The configuration is read once, from the nearest \<open>config.toml\<close> at or above the working
  directory. The file system and the TOML reader are arguments: \<open>read_to_string path\<close> is the
  contents of a readable file and \<open>from_toml\<close> the configuration a text describes. A path is the
  list of its components below the root.
\<close>

datatype ip_addr = V4 u8 u8 u8 u8 | V6 "u8 list"

record config =
  cf_host :: ip_addr
  cf_port :: "16 word"
  cf_bucket_count :: usize
  cf_io_resources :: io_resources

definition default_config :: config where
  "default_config =
     \<lparr>cf_host = V4 127 0 0 1, cf_port = 8080, cf_bucket_count = 64,
      cf_io_resources = default_io_resources\<rparr>"

type_synonym path = "string list"

text \<open>\<open>Path::parent\<close>: the root has none.\<close>

definition parent :: "path \<Rightarrow> path option" where
  "parent p = (if p = [] then None else Some (butlast p))"

function load_loop ::
    "(path \<Rightarrow> string option) \<Rightarrow> (string \<Rightarrow> config option) \<Rightarrow> path \<Rightarrow> config option outcome" where
  "load_loop read_to_string from_toml current_dir =
     (case read_to_string (current_dir @ [''config.toml'']) of
        Some content \<Rightarrow>
          (case from_toml content of
             None \<Rightarrow> Panic (Explicit ''invalid config'')
           | Some c \<Rightarrow> Ok (Some c))
      | None \<Rightarrow>
          (case parent current_dir of
             None \<Rightarrow> Ok None
           | Some p \<Rightarrow> load_loop read_to_string from_toml p))"
  by pat_completeness auto

termination
  by (relation "measure (\<lambda>(_, _, p). length p)") (auto simp: parent_def split: if_splits)

declare load_loop.simps [simp del]

definition load_config ::
    "path option \<Rightarrow> (path \<Rightarrow> string option) \<Rightarrow> (string \<Rightarrow> config option) \<Rightarrow> config option outcome" where
  "load_config current_dir read_to_string from_toml =
     (case current_dir of
        None \<Rightarrow> Ok None
      | Some working_dir \<Rightarrow> load_loop read_to_string from_toml working_dir)"

text \<open>\<open>Config::load\<close> with the contents of the cell \<open>CONFIG\<close>.\<close>

definition load ::
    "path option \<Rightarrow> (path \<Rightarrow> string option) \<Rightarrow> (string \<Rightarrow> config option) \<Rightarrow> config option \<Rightarrow>
     (config \<times> config option) outcome" where
  "load current_dir read_to_string from_toml cell =
     (case cell of
        Some c \<Rightarrow> Ok (c, cell)
      | None \<Rightarrow>
          bind_outcome (load_config current_dir read_to_string from_toml) (\<lambda>r.
            let c = (case r of Some c \<Rightarrow> c | None \<Rightarrow> default_config) in Ok (c, Some c)))"

text \<open>The directories that are searched, nearest first.\<close>

definition ancestors :: "path \<Rightarrow> path list" where
  "ancestors p = map (\<lambda>k. take k p) (rev [0..<Suc (length p)])"

lemma ancestors_snoc: "ancestors (p @ [x]) = (p @ [x]) # ancestors p"
  by (simp add: ancestors_def)

lemma ancestors_Nil: "ancestors [] = [[]]"
  by (simp add: ancestors_def)

lemma load_loop_nearest:
  "load_loop rd toml p =
     (case find (\<lambda>d. rd (d @ [''config.toml'']) \<noteq> None) (ancestors p) of
        None \<Rightarrow> Ok None
      | Some d \<Rightarrow>
          (case toml (the (rd (d @ [''config.toml'']))) of
             None \<Rightarrow> Panic (Explicit ''invalid config'')
           | Some c \<Rightarrow> Ok (Some c)))"
proof (induction p rule: rev_induct)
  case Nil
  then show ?case
    by (subst load_loop.simps) (auto simp: parent_def ancestors_Nil split: option.splits)
next
  case (snoc x p)
  then show ?case
    by (subst load_loop.simps) (simp add: parent_def ancestors_snoc split: option.splits)
qed

text \<open>
  C37: the nearest \<open>config.toml\<close> decides. The search walks from the working directory up to the root
  and always ends; the first readable file is the only one that is read, a file that is not a
  valid configuration stops the program, without any file the defaults apply, and every later
  call returns the value of the first one.
\<close>

theorem config_nearest_wins:
  "load (Some p) rd toml None =
     (case find (\<lambda>d. rd (d @ [''config.toml'']) \<noteq> None) (ancestors p) of
        None \<Rightarrow> Ok (default_config, Some default_config)
      | Some d \<Rightarrow>
          (case toml (the (rd (d @ [''config.toml'']))) of
             None \<Rightarrow> Panic (Explicit ''invalid config'')
           | Some c \<Rightarrow> Ok (c, Some c))) \<and>
   load p' rd' toml' (Some c0) = Ok (c0, Some c0)"
  by (auto simp: load_def load_config_def load_loop_nearest Let_def split: option.splits)

text \<open>The default configuration satisfies what the index arithmetic needs.\<close>

lemma default_config_wf: "io_wf (cf_io_resources default_config)"
  by (simp add: default_config_def default_io_resources_def io_wf_def)
end
