(* ===== verification/Server.thy ===== *)
theory Server
  imports Handlers_Correct Log Config
begin

section \<open>Starting the server and accepting connections (nea/src/lib.rs)\<close>

text \<open>
  \<open>run_request_handler\<close>: the set-up, which joins logging, configuration, allocator, executor and
  reactor, and the loop over the incoming connections. The statics of the process are a record; what
  the operating system answers is an argument. What the start-up itself allocates, and printing, are
  left out.
\<close>

subsection \<open>State\<close>





subsection \<open>Set-up\<close>






subsection \<open>The accept loop\<close>




subsection \<open>The accept loop keeps the invariant\<close>







subsection \<open>The request future\<close>







subsection \<open>Properties\<close>




subsection \<open>A concrete server\<close>




lemma example_task_sources [simp]: "sh_sources (ex_reactor (tk_exec (example_task w))) = [None]"
  by (simp add: example_task_def example_exec_def new_executor_def new_shared_def default_io_resources_def per_bucket_def)


end
