(* ===== verification/Runner.thy ===== *)
theory Runner
  imports Prelude
begin

section \<open>The benchmark runner (runner/src/main.rs)\<close>

text \<open>
  The runner starts one implementation of an example, lets \<open>siege\<close> send requests to it under the energy
  meter, writes the report and stops the implementation. Processes, files and the meter are an
  argument; the model records what is done, in order.
\<close>

datatype run_event = Spawned string | Siege "string list" | Wrote string string | Killed

text \<open>
  The result of starting a program, of the \<open>k\<close>-th run of \<open>siege\<close> (its exit code, if it ended with one),
  how often the meter calls the measured function, the report it gives, and the results of writing a
  file and of stopping the program.
\<close>

record runner_os =
  ru_spawn :: "string \<Rightarrow> unit io_result"
  ru_siege :: "nat \<Rightarrow> int option io_result"
  ru_calls :: nat
  ru_report :: "string io_result"
  ru_write :: "string \<Rightarrow> unit io_result"
  ru_kill :: "unit io_result"

definition runner_path :: "string \<Rightarrow> string \<Rightarrow> string outcome" where
  "runner_path implementation example =
     (if implementation = ''go'' then Ok (''benchmarks/go/'' @ example)
      else if implementation = ''roc-nea'' then Ok (''benchmarks/roc-nea/'' @ example)
      else if implementation = ''rust-nea'' then Ok (''benchmarks/rust-nea/target/release/'' @ example)
      else if implementation = ''rust-tokio'' then Ok (''benchmarks/rust-tokio/target/release/'' @ example)
      else Panic Unreachable)"

definition siege_args :: "string \<Rightarrow> string list" where
  "siege_args example =
     [''-j'', ''-c'', ''4'', ''-r'', ''10000'', ''-i'', ''-f'', ''benchmarks/'' @ example @ ''.txt'']"

text \<open>The measured function, called for the runs \<open>k\<close>, \<open>k + 1\<close>, \<dots>\<close>

fun measure_siege :: "runner_os \<Rightarrow> string \<Rightarrow> nat \<Rightarrow> nat \<Rightarrow> unit outcome \<times> run_event list" where
  "measure_siege os example k 0 = (Ok (), [])"
| "measure_siege os example k (Suc n) =
     (case ru_siege os k of
        Inl e \<Rightarrow> (Panic Unwrap, [Siege (siege_args example)])
      | Inr code \<Rightarrow>
          if code \<noteq> Some 0 then (Panic (Explicit ''siege failed''), [Siege (siege_args example)])
          else (case measure_siege os example (Suc k) n of (r, evs) \<Rightarrow> (r, Siege (siege_args example) # evs)))"

definition runner_main :: "runner_os \<Rightarrow> string list \<Rightarrow> unit outcome \<times> run_event list" where
  "runner_main os args =
     (case tl args of
        implementation # example # _ \<Rightarrow>
          (case runner_path implementation example of
             Inl p \<Rightarrow> (Panic p, [])
           | Inr path \<Rightarrow>
               (case ru_spawn os path of
                  Inl e \<Rightarrow> (Panic Unwrap, [])
                | Inr _ \<Rightarrow>
                    (case measure_siege os example 0 (ru_calls os) of
                       (Inl p, evs) \<Rightarrow> (Panic p, Spawned path # evs)
                     | (Inr _, evs) \<Rightarrow>
                         (case ru_report os of
                            Inl e \<Rightarrow> (Panic Unwrap, Spawned path # evs)
                          | Inr json \<Rightarrow>
                              (let file = ''benchmarks/'' @ implementation @ ''-'' @ example @ ''.json'' in
                               case ru_write os file of
                                 Inl e \<Rightarrow> (Panic Unwrap, Spawned path # evs)
                               | Inr _ \<Rightarrow>
                                   (case ru_kill os of
                                      Inl e \<Rightarrow> (Panic Unwrap, Spawned path # evs @ [Wrote file json])
                                    | Inr _ \<Rightarrow> (Ok (), Spawned path # evs @ [Wrote file json, Killed])))))))
      | _ \<Rightarrow> (Panic Unwrap, []))"

lemma measure_siege_ok:
  "\<forall>j. ru_siege os j = Inr (Some 0) \<Longrightarrow> measure_siege os example k n = (Ok (), replicate n (Siege (siege_args example)))"
  by (induction n arbitrary: k) simp_all

lemma measure_siege_events: "measure_siege os example k n = (r, evs) \<Longrightarrow> Killed \<notin> set evs"
  by (induction n arbitrary: k evs) (auto split: sum.splits if_splits prod.splits)

text \<open>The started program is stopped exactly when the runner succeeds: after a failure it goes on running.\<close>

lemma runner_stops_program:
  "runner_main os args = (r, evs) \<Longrightarrow> Killed \<in> set evs \<longleftrightarrow> r = Ok ()"
  by (auto simp: runner_main_def Let_def measure_siege_events split: list.splits sum.splits prod.splits)

lemma runner_success:
  assumes "runner_path implementation example = Ok path" and "ru_spawn os path = Inr ()"
    and "\<forall>j. ru_siege os j = Inr (Some 0)" and "ru_report os = Inr json" and "\<forall>f. ru_write os f = Inr ()"
    and "ru_kill os = Inr ()"
  shows "runner_main os [program, implementation, example] =
    (Ok (), Spawned path # replicate (ru_calls os) (Siege (siege_args example)) @
      [Wrote (''benchmarks/'' @ implementation @ ''-'' @ example @ ''.json'') json, Killed])"
  using assms by (simp add: runner_main_def measure_siege_ok Let_def)

end
