(* ===== verification/Spec2Isabelle.thy ===== *)
theory Spec2Isabelle
  imports Queue_Concurrent Index_Tests Setjmp Indexer Server Runner
begin

text \<open>
  Verification of the server \<^verbatim>\<open>nea\<close>, a web server that runs every request in a memory arena of its own, so
  that a request which runs out of memory or panics is answered with an error and costs no other
  request anything.

  \<^bold>\<open>The program.\<close> The main thread (\<^verbatim>\<open>nea/src/lib.rs\<close>) reads the configuration, maps the memory of the
  buckets, creates the executor and the reactor, starts four workers and accepts connections. Every
  connection claims a free bucket; its future is stored there and its job is put into the queue. A
  worker takes a bucket from the queue, makes the arena of the bucket its current arena and polls the
  jobs of the bucket: job 0 is the request, the others are outgoing HTTP connections. A stream that is
  not ready leaves a waker with the reactor, whose thread turns readiness events of the operating system
  into jobs. An allocation that does not fit leaves the request by \<open>longjmp\<close> to the worker, which sends an
  error response, closes the client's descriptor and empties the bucket; the streams of what it drops are taken from
  the reactor.

  \<^bold>\<open>Theories and sources.\<close>

  \<^item> \<open>Prelude\<close>: machine words, panics as values (\<open>'a outcome\<close>), results of system calls, atomic
    operations, counting in lists. \<open>Text\<close> and \<open>Stdlib\<close>: what the program uses of the standard library
    (UTF-8, decimal numbers, splitting and parsing strings, cursors).
  \<^item> \<open>Index\<close>, \<open>Index_Tests\<close> (\<^verbatim>\<open>nea/src/index.rs\<close>): queue, bucket and connection indices and their
    encodings, with the locale \<open>index_codec\<close>; the unit tests of the source, run on the model.
  \<^item> \<open>Queue\<close>, \<open>Queue_Concurrent\<close> (\<^verbatim>\<open>nea/src/queue.rs\<close>): the job queue, as calls (locale \<open>job_queue\<close>) and
    as atomic steps of any number of threads. \<open>worker_step\<close> and \<open>helper_step\<close> perform one access to shared
    memory each; \<open>qstep\<close> schedules them.
  \<^item> \<open>Allocator\<close> (\<^verbatim>\<open>shared/src/allocator.rs\<close>): arenas and the mapping of memory; the locale
    \<open>bump_arena\<close> holds what an arena promises and is interpreted for the initial arena and for every bucket.
    \<open>Arena\<close> (\<^verbatim>\<open>nea/src/lib.rs\<close>): the global allocator and the memory calls of the application.
  \<^item> \<open>Setjmp\<close> (\<^verbatim>\<open>shared/src/setjmp_longjmp.rs\<close>): both routines, instruction by instruction.
    \<open>Indexer\<close> (\<^verbatim>\<open>shared/src/indexer.rs\<close>), \<open>Log\<close> (\<^verbatim>\<open>log/src/lib.rs\<close>), \<open>Config\<close> (\<^verbatim>\<open>nea/src/config.rs\<close>).
  \<^item> \<open>Reactor\<close> (\<^verbatim>\<open>nea/src/reactor.rs\<close>): sources, registration, the event loop, the operations of streams,
    and the wakers of \<^verbatim>\<open>nea/src/executor.rs\<close>.
  \<^item> \<open>Executor\<close>, \<open>Executor_Safety\<close> (\<^verbatim>\<open>nea/src/executor.rs\<close>): \<open>Inner\<close> and everything around it as one
    record; one turn of \<open>run_bucket\<close> is \<open>run_job\<close>. The application is a record of functions that say which
    calls a poll makes (allocations, handshakes, streams, wakers), which streams are alive at each call, and how it ends;
    the model executes the calls, the drops of a future or connection that ends, is emptied or unwound, and the
    abort that a second panic causes.
  \<^item> \<open>Handlers\<close>, \<open>Await\<close>, \<open>Handlers_Correct\<close> (\<^verbatim>\<open>nea/examples\<close>, and the request future of
    \<^verbatim>\<open>nea/src/lib.rs\<close>): the example applications as actions on executor, sockets and memory. \<open>Await\<close> derives the
    awaited stream operations from the reactor.
  \<^item> \<open>Server\<close> (\<^verbatim>\<open>nea/src/lib.rs\<close>): the set-up of \<open>run_request_handler\<close> and its accept loop.
    \<open>Runner\<close> (\<^verbatim>\<open>runner/src/main.rs\<close>): the benchmark runner.
  \<^item> This theory: a failing allocation across application, allocator, executor, reactor and error response.

  \<^bold>\<open>What is shown.\<close> The queue loses no job and no wake-up and gives a bucket to one worker at a time, under
  all interleavings of its atomic accesses, while requests do not end early; what happens to pending jobs when they
  do is a theorem too. Index arithmetic maps every slot to one owner. Live allocations never overlap and stay
  in the arena of their thread. \<open>longjmp\<close> resumes at \<open>setjmp\<close>. The reactor wakes every parked task
  for which data has arrived, and polling through it is repeating the operation. The executor's reference counts count
  the live jobs, as long as dropping a stream does not panic; a failing request changes no other bucket, apart from
  wake-ups, and is answered and closed once. The job loop of a bucket ends for applications that neither complete handshakes nor wake
  their own bucket in a poll. The server starts in a state with these invariants, and the accept loop uses every free
  bucket whose lock is not taken. For the examples, the reply to every request is determined, errors and
  wrap-around included; a request that ends gives its stream back.

  Theorems on flaws: pending jobs of a request that ends early are stranded; a late wake closes a foreign descriptor; a future that wakes
  itself keeps its worker for ever; a panic of a connection ends its worker and leaves the request without an answer; a short write sends a
  page again from its start; the size of a memory request wraps; a failing \<open>shutdown\<close> ends the accept loop; replies are cut
  off at 1024 bytes; descriptor 0 is not recorded.

  \<^bold>\<open>Conventions.\<close> Unsigned integers are words of their width and wrap as in the release profile; where an example
  can overflow on input, \<open>en_overflow_checks\<close> selects the debug profile, which panics. A panic, a jump, an abort of the process and
  undefined behaviour are results. Assertions of the source that are compiled into release builds are branches, \<open>debug_assert\<close> is left out. Loops that
  may not end are \<open>partial_function\<close>s, and a claim that they return is stated as \<open>Some\<close>; \<open>drive_io\<close> bounds the number of
  polls, and some bound is enough whenever the operation ends. The configurations considered have at most 1000 buckets,
  because \<open>to_bucket_index\<close> asserts it, and at most 64 slots in each, because the job mask has 64 bits.

  \<^bold>\<open>Not modelled.\<close> The operating system, \<open>mio\<close>, \<open>hyper\<close>, \<open>toml\<close> and \<open>chrono\<close> are arguments of the definitions.
  Printing and log lines have no effect in the models that call them. Memory orderings weaker than sequential consistency
  are not distinguished: every atomic access is one step. The locks of futures and connections do not appear, since a
  bucket has one worker; which reference counts are locked when the main thread tries them is an argument of \<open>try_claim\<close>. That
  \<open>set_nonblocking\<close> succeeds is assumed for \<open>register\<close>. What
  threads and boxes allocate at start-up is left out, as is what \<open>hyper\<close> allocates. What a panic leaves of a
  connection is not described further: its worker is gone. The benchmark programs under \<^verbatim>\<open>benchmarks\<close> are separate
  applications outside the workspace.
\<close>

section \<open>A request across the components\<close>

text \<open>The allocations of a poll have valid layouts.\<close>

definition layouts_ok :: "'c app_step list \<Rightarrow> bool" where
  "layouts_ok calls \<longleftrightarrow> list_all (\<lambda>c. case fst c of AppAlloc l \<Rightarrow> layout_ok l | _ \<Rightarrow> True) calls"

lemma run_call_server_ok:
  assumes ba: "bucket_arena a" and ok: "server_ok (Some (unat a)) (ex_alloc t)" and c: "layouts_ok [(c, live)]"
    and run: "run_call app a c t = (r, t')"
  shows "server_ok (Some (unat a)) (ex_alloc t')"
proof (cases c)
  case (AppAlloc l)
  have "layout_ok l" using c AppAlloc by (simp add: layouts_ok_def)
  with ba ok show ?thesis
    by (cases rule: alloc_bucket_cases [where system_alloc = "ap_system_alloc app"])
      (use run AppAlloc ok in \<open>auto simp: run_call_def\<close>)
qed (use run ok in \<open>auto simp: run_call_def handshake_begin_def handshake_end_def Let_def
      split: prod.splits sum.splits if_splits option.splits slot.splits\<close>)

lemma run_calls_before:
  assumes "bucket_arena a" and "server_ok (Some (unat a)) (ex_alloc t)" and "layouts_ok pre"
    and "run_calls app a pre t = (Return (), t')"
  shows "run_calls app a (pre @ cs) t = run_calls app a cs t'"
    and "calls_done app a (pre @ cs) t = length pre + calls_done app a cs t'"
    and "server_ok (Some (unat a)) (ex_alloc t')"
proof -
  have "run_calls app a (pre @ cs) t = run_calls app a cs t' \<and>
      calls_done app a (pre @ cs) t = length pre + calls_done app a cs t' \<and> server_ok (Some (unat a)) (ex_alloc t')"
    using assms(2-)
  proof (induction pre arbitrary: t)
    case (Cons cl pre)
    obtain c live where cl: "cl = (c, live)" by (cases cl)
    obtain r t1 where r: "run_call app a c t = (r, t1)" by (cases "run_call app a c t")
    have l: "layouts_ok [(c, live)]" "layouts_ok pre" using Cons.prems(2) cl by (simp_all add: layouts_ok_def)
    note ok = run_call_server_ok [OF assms(1) Cons.prems(1) l(1) r]
    have rr: "r = Return ()" using Cons.prems(3) r cl by (cases r) (auto simp: unwind_past_def split: prod.splits control.splits)
    then have "run_calls app a pre t1 = (Return (), t')" using Cons.prems(3) r cl by simp
    with Cons.IH [OF ok l(2)] show ?case using r cl rr by simp
  qed simp
  then show "run_calls app a (pre @ cs) t = run_calls app a cs t'"
    "calls_done app a (pre @ cs) t = length pre + calls_done app a cs t'" "server_ok (Some (unat a)) (ex_alloc t')"
    by simp_all
qed

text \<open>An allocation that does not fit jumps out of the poll of a request; the suspended future stays stored.\<close>

lemma allocation_failure_jumps:
  assumes ba: "bucket_arena a" and ok: "server_ok (Some (unat a)) (ex_alloc s)" and fut: "ex_futures s ! b = Some fut"
    and polled: "ap_poll app fut (waker_for qi) = (pre @ (AppAlloc l, live) # post, ending)"
    and pre: "layouts_ok pre" "run_calls app a pre s = (Return (), t)"
    and l: "layout_ok l" "arena_free (Some (unat a)) (ex_alloc t) < unat (lay_size l) \<or> MAX_SUPPORTED_ALIGN < lay_align l"
  shows "poll_input_stream app a b qi s =
    (LongJmp 1, t\<lparr>ex_futures := (ex_futures t)[b := Some (ap_jumped app fut (waker_for qi) (length pre))]\<rparr>)"
proof -
  note before = run_calls_before [OF ba ok pre]
  have "alloc (ap_system_alloc app) a l (ex_alloc t) = (LongJmp 1, ex_alloc t)"
    using ba before(3) l(1)
  proof (cases rule: alloc_bucket_cases [where system_alloc = "ap_system_alloc app"])
    case (ok p s')
    then have "MAX_SUPPORTED_ALIGN < lay_align l" using l(2) by simp
    then show ?thesis
      using ok(1) ba by (auto simp: alloc_bucket try_allocate_in_bucket_def try_alloc_help_def Let_def
          split: prod.splits if_splits option.splits)
  qed
  then have jump: "run_call app a (AppAlloc l) t = (LongJmp 1, t)" by (simp add: run_call_def)
  then have "run_calls app a (pre @ (AppAlloc l, live) # post) s = (LongJmp 1, t)"
    "calls_done app a (pre @ (AppAlloc l, live) # post) s = length pre"
    using before(1,2) by simp_all
  then show ?thesis using fut polled by (simp add: poll_input_stream_def Let_def run_poll_def)
qed

text \<open>
  C13: an allocation that fails costs nobody else anything. When the poll of a request makes some calls that
  return and then asks for more memory than its bucket has left, the worker ends the job as out of memory:
  the client is sent the error response and its descriptor is closed, both once; the streams that the suspended future and the
  connections of the bucket own are deregistered; the bucket is empty with all its memory free again; every
  other bucket keeps what it has and its pending jobs, and the invariant holds.
\<close>

theorem allocation_failure_is_answered:
  assumes "exec_inv home s" and "unat (bi_index bi) < buckets s" and "app_ok home (http_count s) app"
    and "server_ok (Some (unat (bi_index bi))) (ex_alloc s)"
    and "ex_futures s ! unat (bi_index bi) = Some fut"
    and "dequeue_slot (queue (ex_queue s) ! unat (bi_index bi)) = (Some 0, slot)"
    and "w = waker_for (job_queue_index s bi 0)"
    and "ap_poll app fut w = (pre @ (AppAlloc l, live) # post, ending)"
    and "layouts_ok pre" and "run_calls app (bi_index bi) pre (dequeued s (unat (bi_index bi)) slot) = (Return (), t)"
    and "layout_ok l"
    and "arena_free (Some (unat (bi_index bi))) (ex_alloc t) < unat (lay_size l) \<or> MAX_SUPPORTED_ALIGN < lay_align l"
    and "t' = t\<lparr>ex_futures := (ex_futures t)[unat (bi_index bi) := Some (ap_jumped app fut w (length pre))]\<rparr>"
    and "drops_ok (owned_streams app t' (unat (bi_index bi))) (ex_reactor t)"
  shows "\<exists>s'. run_job app bi s = (Finish OutOfMemory, s') \<and> exec_inv home s' \<and>
    ex_closed s' = ex_tcp_streams s ! unat (bi_index bi) # ex_closed s \<and>
    ex_sent s' = (ex_tcp_streams s ! unat (bi_index bi),
      fst (send_error_response app (ex_tcp_streams s ! unat (bi_index bi)) CleanupOutOfMemory)) # ex_sent s \<and>
    ex_reactor s' = released (owned_streams app t' (unat (bi_index bi))) (ex_reactor t) \<and>
    bucket_empty s' (unat (bi_index bi)) \<and>
    (\<forall>b' < buckets s. b' \<noteq> unat (bi_index bi) \<longrightarrow>
       bucket_view s' b' = bucket_view s b' \<and> slot_grown (queue (ex_queue s) ! b') (queue (ex_queue s') ! b'))"
proof -
  let ?b = "unat (bi_index bi)" and ?s1 = "dequeued s (unat (bi_index bi)) slot"
  have sh: "shape_ok s" and home: "home_ok home s ?b" using assms(1,2) by (simp_all add: exec_inv_def)
  have "?b < 1000" using sh assms(2) by (simp add: shape_ok_def)
  then have ba: "bucket_arena (bi_index bi)" by (simp add: bucket_arena_def arena_index_defs word_less_nat_alt)
  have hf: "home fut = ?b" using home assms(5) by (simp add: home_ok_def)
  have calls: "list_all (\<lambda>c. call_ok (http_count s) ?b (fst c)) pre"
    using app_okD(1) [OF assms(3) hf, of w] assms(8) by simp
  have x: "poll_input_stream app (bi_index bi) ?b (job_queue_index s bi 0) ?s1 = (LongJmp 1, t')"
    unfolding assms(13) assms(7)
    by (rule allocation_failure_jumps [OF ba _ _ assms(8) [unfolded assms(7)] assms(9-12)]) (use assms(4,5) in simp_all)
  have "step_ok ?b s t" using run_calls_step [OF dequeue_step(1) [OF sh assms(2,6)] assms(2) refl calls assms(10)] by simp
  then have st: "step_ok ?b s t'" using assms(13) step_future by simp
  have fds: "same_fds s t'" using run_calls_fds [OF assms(10)] assms(13) by (simp add: same_fds_def)
  obtain r s' where rs: "run_job app bi s = (r, s')" by (cases "run_job app bi s")
  have c: "clean_and_finish app (own_bucket ?b) CleanupOutOfMemory OutOfMemory t' = (r, s')"
    using run_job_input [OF sh assms(2) refl assms(6) refl x] rs by simp
  note ub = own_bucket_index [OF sh assms(2)]
  have rel: "r = Finish OutOfMemory \<and> ex_reactor s' = released (owned_streams app t' ?b) (ex_reactor t)"
    using clean_and_finish_releases [OF st assms(2) ub _ c] assms(13,14) by simp
  note e = clean_and_finish_step [OF c st assms(2) ub]
  have "exec_inv home s'" using exec_inv_step [OF assms(1)] e rel bucket_empty_ok [of s' ?b home] by auto
  then show ?thesis
    using rs rel e fds by (auto simp: step_ok_def same_fds_def)
qed

subsection \<open>A concrete request\<close>

text \<open>
  The server of one bucket with 8192 bytes. The request registers a stream, owns it, and asks for 9000 bytes.
\<close>

definition example_stream :: tcp_stream where
  "example_stream = \<lparr>ts_fd = 6, ts_token = to_usize (from_bucket_index default_io_resources (own_bucket 0))\<rparr>"

definition example_oom_app :: "(nat, unit) application" where
  "example_oom_app = example_app\<lparr>
     ap_poll := (\<lambda>f w. (
       [(AppRegister (from_bucket_index default_io_resources (own_bucket 0)) 6, []),
        (AppAlloc \<lparr>lay_size = 9000, lay_align = 1\<rparr>, [example_stream])], AppReady f)),
     ap_streams := (\<lambda>f. [example_stream])\<rparr>"

lemma example_alloc_ok: "server_ok (Some 0) example_alloc" "arena_free (Some 0) example_alloc = 8192"
proof -
  have P: "placement_ok 0x1000 0x100000000 1 8192"
    by (simp add: placement_ok_def ranges_disjoint_def INITIAL_ARENA_SIZE_def)
  have "arenas example_alloc (Some 0) = Some (0x100000000, 8192, 8192)"
    by (simp add: arenas_def example_alloc_def new_bucket_def)
  then show "server_ok (Some 0) example_alloc" "arena_free (Some 0) example_alloc = 8192"
    using initialized_arenas [OF P] by (simp_all add: server_ok_def arena_free_def example_alloc_def)
qed

theorem allocation_failure_is_answered_witness:
  "\<exists>s'. run_job example_oom_app (own_bucket 0) (example_started 3) = (Finish OutOfMemory, s') \<and>
     ex_closed s' = [7] \<and> map fst (ex_sent s') = [7] \<and> sh_sources (ex_reactor s') = [None] \<and> sh_registry (ex_reactor s') = [] \<and>
     bucket_empty s' 0"
proof -
  let ?s = "example_started 3" and ?b = "own_bucket 0"
  let ?q = "from_bucket_index default_io_resources ?b" and ?l = "\<lparr>lay_size = 9000, lay_align = 1\<rparr>"
  have app: "app_ok (\<lambda>_. 0) h example_oom_app" for h
    using example_app_ok(1) [of h] by (simp add: app_ok_def example_oom_app_def)
  obtain slot where ds: "dequeue_slot (queue (ex_queue ?s) ! 0) = (Some 0, slot)"
    by (rule dequeue_input_job [OF example_started_state(1)])
  let ?re = "\<lparr>sh_registry = [(6, to_usize ?q)], sh_sources = [Some new_source], sh_io_resources = default_io_resources\<rparr>"
  let ?t = "(dequeued ?s 0 slot)\<lparr>ex_reactor := ?re\<rparr>"
  let ?t' = "?t\<lparr>ex_futures := (ex_futures ?s)[0 := Some 3]\<rparr>"
  have q: "qi_index ?q = 0" by (simp add: from_bucket_index_def)
  have tok: "stream_slot example_stream = 0"
    using q by (simp add: example_stream_def stream_slot_def token_index_def from_usize_to_usize)
  have pre: "run_calls example_oom_app 0 [(AppRegister ?q 6, [])] (dequeued ?s 0 slot) = (Return (), ?t)"
    using q by (simp add: run_call_def register_def Let_def index_slice_def lift_outcome_def example_oom_app_def example_app_def
        example_started_state new_shared_def default_io_resources_def per_bucket_def)
  have "conns_of ?t' 0 = []" using example_accept(4) [of 3] by (simp add: conns_of_def http_count_def)
  moreover have "0 < length (ex_futures ?s)" using example_accept(2,3) [of 3] by (auto simp: exec_inv_def shape_ok_def)
  ultimately have own: "owned_streams example_oom_app ?t' 0 = [example_stream]"
    by (simp add: owned_streams_def future_streams_def example_oom_app_def)
  have drops: "drops_ok [example_stream] ?re" using tok by (simp add: drops_ok_def)
  have "\<exists>s'. run_job example_oom_app ?b ?s = (Finish OutOfMemory, s') \<and> exec_inv (\<lambda>_. 0) s' \<and>
      ex_closed s' = ex_tcp_streams ?s ! unat (bi_index ?b) # ex_closed ?s \<and>
      ex_sent s' = (ex_tcp_streams ?s ! unat (bi_index ?b),
        fst (send_error_response example_oom_app (ex_tcp_streams ?s ! unat (bi_index ?b)) CleanupOutOfMemory)) # ex_sent ?s \<and>
      ex_reactor s' = released (owned_streams example_oom_app ?t' (unat (bi_index ?b))) (ex_reactor ?t) \<and>
      bucket_empty s' (unat (bi_index ?b)) \<and>
      (\<forall>b' < buckets ?s. b' \<noteq> unat (bi_index ?b) \<longrightarrow>
         bucket_view s' b' = bucket_view ?s b' \<and> slot_grown (queue (ex_queue ?s) ! b') (queue (ex_queue s') ! b'))"
    by (rule allocation_failure_is_answered [OF example_accept(2) _ app, where fut = 3 and slot = slot and t = ?t and
          pre = "[(AppRegister ?q 6, [])]" and l = ?l and live = "[example_stream]" and post = "[]" and ending = "AppReady 3"])
      (use example_accept example_started_state example_alloc_ok ds pre own drops byte_layout_ok [of 9000]
        in \<open>simp_all add: layouts_ok_def example_oom_app_def example_app_def\<close>)
  then show ?thesis
    using own tok by (auto simp: example_started_state released_def example_stream_def)
qed

end
